(* ===== verification/Prelude.thy ===== *)
theory Prelude
  imports Main "HOL-Library.Word"
begin

text \<open>
  Shared vocabulary of the development.

  A Go \<^verbatim>\<open>byte\<close> is an Isabelle \<^typ>\<open>char\<close> (both have exactly 256 values), so a
  \<^verbatim>\<open>[]byte\<close> and a \<^verbatim>\<open>string\<close> are both char lists and the literals of the source can be
  written as they are.  An index \<open>i\<close> into a slice \<open>s\<close> that only moves forward is
  represented by the suffix \<open>drop i s\<close> it denotes.  Lengths and counters are \<^typ>\<open>nat\<close>:
  a Go \<^verbatim>\<open>int\<close> has 64 bits and every length read from a wire has at most 32, so the sums
  the code forms cannot wrap.  Encoders do truncate, which \<open>put16\<close>, \<open>put32\<close> and
  \<open>put64\<close> keep: \<^const>\<open>char_of\<close> takes its argument modulo 256.

  The theory also holds the stream codec interface: the contract every length-prefixed
  reader and writer of the protocol package shares, with the lemmas proved once from it.
\<close>

type_synonym byte = char
type_synonym bytes = "char list"

abbreviation NUL :: byte where "NUL \<equiv> CHR 0x00"

abbreviation bval :: "byte \<Rightarrow> nat" where "bval c \<equiv> of_char c"

named_theorems wire_simps \<open>reading and writing length prefixes and terminators\<close>
named_theorems scan_simps \<open>tokens, comments and letter case\<close>

section \<open>Big-endian integers\<close>

fun be16 :: "bytes \<Rightarrow> nat" where
  "be16 (a # b # _) = bval a * 256 + bval b"
| "be16 _ = 0"

fun be32 :: "bytes \<Rightarrow> nat" where
  "be32 (a # b # c # d # _) = bval a * 2 ^ 24 + bval b * 2 ^ 16 + bval c * 2 ^ 8 + bval d"
| "be32 _ = 0"

definition put16 :: "nat \<Rightarrow> bytes" where
  "put16 n = [char_of (n div 256), char_of n]"

definition put32 :: "nat \<Rightarrow> bytes" where
  "put32 n = [char_of (n div 2 ^ 24), char_of (n div 2 ^ 16), char_of (n div 2 ^ 8), char_of n]"

definition put64 :: "nat \<Rightarrow> bytes" where
  "put64 n = put32 (n div 2 ^ 32) @ put32 n"

text \<open>\<^verbatim>\<open>int(int16(...))\<close> and \<^verbatim>\<open>int(int32(...))\<close>: the two's complement reading.\<close>

definition int16_of :: "nat \<Rightarrow> int" where
  "int16_of n = (if n < 2 ^ 15 then int n else int n - 2 ^ 16)"

definition int32_of :: "nat \<Rightarrow> int" where
  "int32_of n = (if n < 2 ^ 31 then int n else int n - 2 ^ 32)"

lemma bval_le: "bval c \<le> 255"
proof -
  have "bval c < 256" by simp
  then show ?thesis by linarith
qed

lemma be16_put16 [wire_simps, simp]: "be16 (put16 n @ r) = n mod 2 ^ 16"
proof -
  have "n mod (2^8 * 2^8) = 2^8 * (n div 2^8 mod 2^8) + n mod 2^8"
    by (simp only: mod_mult2_eq)
  then show ?thesis by (simp add: put16_def)
qed

lemma be32_put32 [wire_simps, simp]: "be32 (put32 n @ r) = n mod 2 ^ 32"
proof -
  have "n mod (2^8 * (2^8 * (2^8 * 2^8))) =
      2^8 * (2^8 * (2^8 * (n div 2^24 mod 2^8) + n div 2^16 mod 2^8) + n div 2^8 mod 2^8) + n mod 2^8"
    by (simp only: mod_mult2_eq) (simp add: div_mult2_eq [symmetric])
  then show ?thesis by (simp add: put32_def)
qed

lemma be16_put16' [simp]: "be16 (put16 n) = n mod 2 ^ 16"
  using be16_put16 [of n "[]"] by simp

lemma be32_put32' [simp]: "be32 (put32 n) = n mod 2 ^ 32"
  using be32_put32 [of n "[]"] by simp

lemma length_put16 [simp]: "length (put16 n) = 2"
  by (simp add: put16_def)

lemma length_put32 [simp]: "length (put32 n) = 4"
  by (simp add: put32_def)

lemma length_put64 [simp]: "length (put64 n) = 8"
  by (simp add: put64_def)

lemma be32_bound: "be32 s < 2 ^ 32"
proof (cases s rule: be32.cases)
  case (1 a b c d r)
  with bval_le [of a] bval_le [of b] bval_le [of c] bval_le [of d] show ?thesis by simp
qed simp_all

lemma put32_mod [simp]: "put32 (n mod 2 ^ 32) = put32 n"
proof -
  have "\<And>k. k \<le> 24 \<Longrightarrow> char_of (n mod 2 ^ 32 div 2 ^ k) = char_of (n div 2 ^ k)"
  proof -
    fix k :: nat assume "k \<le> 24"
    then have k: "(2::nat) ^ 32 = 2 ^ k * 2 ^ (32 - k)" by (simp add: power_add [symmetric])
    have d: "(2::nat) ^ 8 dvd 2 ^ (32 - k)" using \<open>k \<le> 24\<close> by (intro le_imp_power_dvd) simp
    have "n mod 2 ^ 32 div 2 ^ k mod 2 ^ 8 = n div 2 ^ k mod 2 ^ (32 - k) mod 2 ^ 8"
      unfolding k by (simp add: mod_mult2_eq)
    also have "\<dots> = n div 2 ^ k mod 2 ^ 8" using d by (simp add: mod_mod_cancel)
    finally show "char_of (n mod 2 ^ 32 div 2 ^ k) = char_of (n div 2 ^ k)"
      by (simp add: char_of_eq_iff take_bit_eq_mod flip: of_char_eq_iff)
  qed
  from this [of 24] this [of 16] this [of 8] this [of 0] show ?thesis
    by (simp add: put32_def)
qed

lemma put32_be32: "length s = 4 \<Longrightarrow> put32 (be32 s) = s"
proof -
  assume "length s = 4"
  then obtain a b c d where s: "s = [a, b, c, d]"
    by (auto simp: numeral_eq_Suc length_Suc_conv)
  let ?x = "(bval a * 256 + bval b) * 256 + bval c"
  have e: "be32 s = ?x * 256 + bval d" unfolding s by simp
  have m: "\<And>x y :: nat. y \<le> 255 \<Longrightarrow> (x * 256 + y) div 256 = x" by simp
  have d1: "be32 s div 256 = ?x" unfolding e by (rule m [OF bval_le])
  have "be32 s div 65536 = be32 s div 256 div 256" by (simp add: div_mult2_eq [symmetric])
  then have d2: "be32 s div 65536 = bval a * 256 + bval b"
    unfolding d1 by (simp only: m [OF bval_le])
  have "be32 s div 16777216 = be32 s div 65536 div 256" by (simp add: div_mult2_eq [symmetric])
  then have d3: "be32 s div 16777216 = bval a" unfolding d2 by (simp only: m [OF bval_le])
  have r: "\<And>x y c. x * 256 + bval c = y \<Longrightarrow> char_of y = c"
    by (auto simp: char_of_eq_iff take_bit_eq_mod)
  have "put32 (be32 s) = [a, b, c, d]"
    using r [of 0 a "be32 s div 16777216"] r [of "bval a" b "be32 s div 65536"]
      r [of "bval a * 256 + bval b" c "be32 s div 256"] r [of ?x d "be32 s"] d1 d2 d3 e
    by (simp add: put32_def)
  then show ?thesis using s by simp
qed

section \<open>Terminators\<close>

text \<open>
  The position of a byte: the source's \<^verbatim>\<open>indexZero\<close> and \<^verbatim>\<open>indexByte\<close> and the library's
  \<^verbatim>\<open>bytes.IndexByte\<close>, with \<^const>\<open>None\<close> for their \<open>-1\<close>.
\<close>

fun indexByte :: "bytes \<Rightarrow> byte \<Rightarrow> nat option" where
  "indexByte [] c = None"
| "indexByte (x # xs) c = (if x = c then Some 0 else map_option Suc (indexByte xs c))"

lemma indexByte_append [wire_simps, simp]:
  "c \<notin> set a \<Longrightarrow> indexByte (a @ c # b) c = Some (length a)"
  by (induction a) auto

lemma indexByte_None [wire_simps]: "indexByte s c = None \<longleftrightarrow> c \<notin> set s"
  by (induction s) auto

lemma indexByte_absent [simp]: "c \<notin> set s \<Longrightarrow> indexByte s c = None"
  by (simp add: indexByte_None)

lemma indexByte_Some:
  "indexByte s c = Some i \<longleftrightarrow> i < length s \<and> s ! i = c \<and> c \<notin> set (take i s)"
proof (induction s arbitrary: i)
  case (Cons x s)
  then show ?case by (cases i) (auto split: if_splits)
qed simp

lemma indexByte_SomeE:
  assumes "indexByte s c = Some i"
  obtains r where "s = take i s @ c # r" "drop (Suc i) s = r" "c \<notin> set (take i s)"
    "i = length (take i s)"
proof -
  from assms have i: "i < length s" "s ! i = c" "c \<notin> set (take i s)"
    by (simp_all add: indexByte_Some)
  then have "s = take i s @ c # drop (Suc i) s"
    using id_take_nth_drop [of i s] by simp
  with i that show thesis by auto
qed

section \<open>Readers\<close>

text \<open>
  A connection read to a byte count, \<^verbatim>\<open>io.ReadFull\<close>: the bytes the peer sends before it
  closes are the stream, and the reader returns what it read and what is left.
\<close>

datatype io_error = EOF | UnexpectedEOF

definition readFull :: "nat \<Rightarrow> bytes \<Rightarrow> io_error + bytes \<times> bytes" where
  "readFull n s =
     (if n \<le> length s then Inr (take n s, drop n s)
      else if s = [] then Inl EOF else Inl UnexpectedEOF)"

lemma readFull_append [wire_simps, simp]:
  "n = length a \<Longrightarrow> readFull n (a @ r) = Inr (a, r)"
  by (simp add: readFull_def)

lemma readFull_Inr [wire_simps]:
  "readFull n s = Inr (a, r) \<longleftrightarrow> n \<le> length s \<and> a = take n s \<and> r = drop n s"
  by (auto simp: readFull_def)

section \<open>The stream codec interface\<close>

text \<open>
  \<open>readN n dec\<close> runs a reader \<open>n\<close> times over one stream.
\<close>

fun readN :: "nat \<Rightarrow> (bytes \<Rightarrow> 'e + 'a \<times> bytes) \<Rightarrow> bytes \<Rightarrow> 'e + 'a list \<times> bytes" where
  "readN 0 dec s = Inr ([], s)"
| "readN (Suc n) dec s =
     (case dec s of Inl e \<Rightarrow> Inl e
      | Inr (x, r) \<Rightarrow>
          (case readN n dec r of Inl e \<Rightarrow> Inl e | Inr (xs, r') \<Rightarrow> Inr (x # xs, r')))"

text \<open>
  What a message writer and a message reader promise each other: the reader takes back
  exactly what the writer sent and leaves the rest of the stream alone, and whatever the
  reader accepts is something the writer could have sent.
\<close>

locale stream_codec =
  fixes enc :: "'a \<Rightarrow> bytes"
    and dec :: "bytes \<Rightarrow> 'e + 'a \<times> bytes"
    and sendable :: "'a \<Rightarrow> bool"
  assumes dec_enc: "sendable x \<Longrightarrow> dec (enc x @ r) = Inr (x, r)"
    and dec_sound: "dec s = Inr (x, r) \<Longrightarrow> sendable x \<and> s = enc x @ r"
    and enc_nonempty: "sendable x \<Longrightarrow> enc x \<noteq> []"
begin

lemma enc_prefix_free:
  assumes "sendable x" "sendable y" "enc x @ r = enc y @ r'"
  shows "x = y \<and> r = r'"
proof -
  from assms(1,3) have "dec (enc y @ r') = Inr (x, r)" using dec_enc by metis
  with dec_enc [OF assms(2)] show ?thesis by simp
qed

lemma dec_consumes: "dec s = Inr (x, r) \<Longrightarrow> length r < length s"
  using dec_sound [of s x r] enc_nonempty [of x] by auto

lemma readN_enc:
  "list_all sendable xs \<Longrightarrow> readN (length xs) dec (concat (map enc xs) @ r) = Inr (xs, r)"
  by (induction xs) (simp_all add: dec_enc)

lemma readN_sound:
  "readN n dec s = Inr (xs, r) \<Longrightarrow>
     length xs = n \<and> list_all sendable xs \<and> s = concat (map enc xs) @ r"
proof (induction n arbitrary: s xs)
  case (Suc n)
  then show ?case
    by (auto split: sum.splits prod.splits dest!: dec_sound Suc.IH)
qed simp

end

end
