(* ===== verification/Wire.thy ===== *)
theory Wire
  imports Prelude
begin

text \<open>
  PostgreSQL message framing (\<^verbatim>\<open>server/internal/protocol\<close>: \<^verbatim>\<open>message_framer.go\<close>,
  \<^verbatim>\<open>sasl.go\<close>, \<^verbatim>\<open>command_reader.go\<close>, \<^verbatim>\<open>error_frame.go\<close>, \<^verbatim>\<open>error_response.go\<close> and the
  extraction helpers of \<^verbatim>\<open>postgres_handler.go\<close> and \<^verbatim>\<open>slot_stats.go\<close>).

  A message is a tag byte, a length that covers itself, and a body.  The lemmas show that
  the readers take back what the writers send, that they accept nothing else, that a
  length a peer chose never sizes a read beyond the bound, and that an error built here is
  read back with its text.
\<close>

section \<open>Lengths and bodies\<close>

definition MessageLength :: "bytes \<Rightarrow> nat option" where
  "MessageLength d =
     (if length d < 5 then None
      else let len = be32 (drop 1 d) in
        if len < 4 then Some (length d) else Some (1 + len))"

definition messageBody :: "bytes \<Rightarrow> bytes option" where
  "messageBody d =
     (if length d < 5 then None
      else let len = be32 (drop 1 d) in
        if len < 4 \<or> 1 + len > length d then None
        else Some (take (len - 4) (drop 5 d)))"

definition trimTerminator :: "bytes \<Rightarrow> bytes" where
  "trimTerminator b = (case indexByte b NUL of Some e \<Rightarrow> take e b | None \<Rightarrow> b)"

text \<open>The query a message carries; the source's \<^verbatim>\<open>nil\<close> and an empty slice are both \<open>[]\<close>.\<close>

definition extractQueryBytes :: "bytes \<Rightarrow> bytes" where
  "extractQueryBytes d =
     (if length d < 6 then []
      else let len = be32 (drop 1 d) in
        if len < 4 \<or> 1 + len > length d then []
        else let body = take (len - 4) (drop 5 d) in
          if d ! 0 = CHR ''Q'' then trimTerminator body
          else if d ! 0 = CHR ''P'' then
            (case indexByte body NUL of
               None \<Rightarrow> []
             | Some nameEnd \<Rightarrow> trimTerminator (drop (nameEnd + 1) body))
          else [])"

definition ParseStatementName :: "bytes \<Rightarrow> bytes" where
  "ParseStatementName d =
     (if length d < 6 \<or> d ! 0 \<noteq> CHR ''P'' then []
      else (case indexByte (drop 5 d) NUL of
              None \<Rightarrow> []
            | Some e \<Rightarrow> if e \<le> 0 then [] else take e (drop 5 d)))"

definition QueryText :: "bytes \<Rightarrow> bytes" where
  "QueryText body = (case indexByte body NUL of Some i \<Rightarrow> take i body | None \<Rightarrow> body)"

definition IsTerminate :: "bytes \<Rightarrow> bool" where
  "IsTerminate d = (length d > 0 \<and> d ! 0 = CHR ''X'')"

definition Cacheable :: "bytes \<Rightarrow> bool" where
  "Cacheable d = (length d > 0 \<and> d ! 0 = CHR ''Q'')"

fun bytesContains :: "bytes \<Rightarrow> bytes \<Rightarrow> bool" where
  "bytesContains [] p = (p = [])"
| "bytesContains (x # xs) p = (take (length p) (x # xs) = p \<or> bytesContains xs p)"

definition IsReadOnlyError :: "bytes \<Rightarrow> bool" where
  "IsReadOnlyError d =
     (if length d < 5 \<or> d ! 0 \<noteq> CHR ''E'' then False else bytesContains d ''25006'')"

section \<open>Writing\<close>

definition appendTagged :: "bytes \<Rightarrow> byte \<Rightarrow> bytes \<Rightarrow> bytes" where
  "appendTagged dst tag body = dst @ [tag] @ put32 (length body + 4) @ body"

definition writeTagged :: "byte \<Rightarrow> bytes \<Rightarrow> bytes" where
  "writeTagged tag body = [tag] @ put32 (length body + 4) @ body"

text \<open>The simple-query message that every statement Pontus sends on its own behalf is put in.\<close>

definition queryMessage :: "bytes \<Rightarrow> bytes" where
  "queryMessage query = [CHR ''Q''] @ put32 (4 + length query + 1) @ query @ [NUL]"

definition appendField :: "bytes \<Rightarrow> byte \<Rightarrow> bytes \<Rightarrow> bytes" where
  "appendField dst tag value = dst @ [tag] @ value @ [NUL]"

definition errorBody :: "bytes \<Rightarrow> bytes \<Rightarrow> bytes \<Rightarrow> bytes" where
  "errorBody severity code message =
     appendField (appendField (appendField (appendField []
       CHR ''S'' severity) CHR ''V'' severity) CHR ''C'' code) CHR ''M'' message @ [NUL]"

definition WritePostgresError :: "bytes \<Rightarrow> bytes \<Rightarrow> bytes" where
  "WritePostgresError code message =
     (let body = errorBody ''ERROR'' code message
      in [CHR ''E''] @ put32 (length body + 4) @ body @ [CHR ''Z''] @ put32 5 @ [CHR ''I''])"

definition WriteStartupError :: "bytes \<Rightarrow> bytes \<Rightarrow> bytes" where
  "WriteStartupError code message =
     (let body = errorBody ''FATAL'' code message
      in [CHR ''E''] @ put32 (length body + 4) @ body)"

definition ErrorResponse :: "bytes \<Rightarrow> bytes \<Rightarrow> bytes \<Rightarrow> bytes" where
  "ErrorResponse severity code message =
     (let fields = [(CHR ''S'', severity), (CHR ''V'', severity), (CHR ''C'', code), (CHR ''M'', message)];
          size = 4 + 1 + sum_list (map (\<lambda>(t, v). 1 + length v + 1) fields)
      in [CHR ''E''] @ put32 size @ concat (map (\<lambda>(t, v). [t] @ v @ [NUL]) fields) @ [NUL])"

section \<open>Reading\<close>

datatype wire_error = IO io_error | LengthOutOfRange nat

definition maxAuthMessage :: nat where "maxAuthMessage = 64 * 1024"

definition MaxCommandBytes :: nat where "MaxCommandBytes = 64 * 1024"

definition maxStartupMsgLen :: nat where "maxStartupMsgLen = 2 ^ 20"

text \<open>The body the two bounded readers share, over the bound each of them has.\<close>

definition readFrame :: "nat \<Rightarrow> bytes \<Rightarrow> wire_error + (byte \<times> bytes) \<times> bytes" where
  "readFrame limit s =
     (case readFull 5 s of Inl e \<Rightarrow> Inl (IO e)
      | Inr (header, s1) \<Rightarrow>
          let len = be32 (drop 1 header) in
          if len < 4 \<or> len > limit then Inl (LengthOutOfRange len)
          else (case readFull (len - 4) s1 of Inl e \<Rightarrow> Inl (IO e)
                | Inr (body, r) \<Rightarrow> Inr ((header ! 0, body), r)))"

definition readTagged :: "bytes \<Rightarrow> wire_error + (byte \<times> bytes) \<times> bytes" where
  "readTagged s = readFrame maxAuthMessage s"

definition ReadCommand :: "bytes \<Rightarrow> wire_error + (byte \<times> bytes) \<times> bytes" where
  "ReadCommand s = readFrame MaxCommandBytes s"

record message =
  kind :: byte
  raw :: bytes

definition body :: "message \<Rightarrow> bytes" where
  "body m = drop 5 (raw m)"

definition readMessage :: "bytes \<Rightarrow> wire_error + message \<times> bytes" where
  "readMessage s =
     (case readFull 5 s of Inl e \<Rightarrow> Inl (IO e)
      | Inr (head, s1) \<Rightarrow>
          let len = be32 (drop 1 head) in
          if len < 4 \<or> len > maxStartupMsgLen then Inl (LengthOutOfRange len)
          else (case readFull (1 + len - 5) s1 of Inl e \<Rightarrow> Inl (IO e)
                | Inr (rest, r) \<Rightarrow> Inr (\<lparr>kind = head ! 0, raw = head @ rest\<rparr>, r)))"

section \<open>Reading an error back\<close>

fun errorMessageText :: "bytes \<Rightarrow> bytes" where
  "errorMessageText [] = ''unknown error''"
| "errorMessageText (tag # rest) =
     (if tag = NUL then ''unknown error''
      else let v = takeWhile (\<lambda>c. c \<noteq> NUL) rest in
        if tag = CHR ''M'' then v else errorMessageText (drop (length v + 1) rest))"

function errorFieldsLoop :: "bytes \<times> bytes \<times> bytes \<Rightarrow> bytes \<Rightarrow> bytes \<times> bytes \<times> bytes" where
  "errorFieldsLoop (severity, code, message) b =
     (case b of [] \<Rightarrow> (severity, code, message)
      | field # rest \<Rightarrow>
         if field = NUL then (severity, code, message)
         else (case indexByte rest NUL of None \<Rightarrow> (severity, code, message)
               | Some e \<Rightarrow>
                  let v = take e rest in
                  errorFieldsLoop
                    (if field = CHR ''S'' then (v, code, message)
                     else if field = CHR ''C'' then (severity, v, message)
                     else if field = CHR ''M'' then (severity, code, v)
                     else (severity, code, message)) (drop (e + 1) rest)))"
  by pat_completeness auto
termination by (relation "measure (\<lambda>(_, b). length b)") (auto simp: indexByte_Some)

definition errorFields :: "bytes \<Rightarrow> bytes" where
  "errorFields b =
     (let (severity, code, message) = errorFieldsLoop ([], [], []) b
      in severity @ '' '' @ code @ '': '' @ message)"

function errorTextFields :: "bytes \<Rightarrow> bytes option" where
  "errorTextFields b =
     (if length b > 1 then
        (case indexByte (tl b) NUL of None \<Rightarrow> None
         | Some e \<Rightarrow> if hd b = CHR ''M'' then Some (take e (tl b))
                     else errorTextFields (drop (e + 1) (tl b)))
      else None)"
  by pat_completeness auto
termination by (relation "measure length") auto

fun errorText :: "bytes \<Rightarrow> bytes" where
  "errorText [] = []"
| "errorText (c # cs) =
     (if 5 < length (c # cs) then
        (if c \<noteq> CHR ''E'' then errorText cs
         else let len = be32 cs in
           if len < 4 \<or> 1 + len > length (c # cs) then errorText cs
           else (case errorTextFields (take (len - 4) (drop 4 cs)) of
                   Some m \<Rightarrow> m | None \<Rightarrow> errorText cs))
      else [])"

definition orUnknown :: "bytes \<Rightarrow> bytes" where
  "orUnknown s = (if s = [] then ''no message'' else s)"

declare errorFieldsLoop.simps [simp del] errorTextFields.simps [simp del]

section \<open>Framing lemmas\<close>

lemma writeTagged_Cons: "writeTagged t b = t # put32 (length b + 4) @ b"
  by (simp add: writeTagged_def)

lemma appendTagged_eq [wire_simps]: "appendTagged dst t b = dst @ writeTagged t b"
  by (simp add: appendTagged_def writeTagged_def)

lemma queryMessage_eq [wire_simps]: "queryMessage q = writeTagged CHR ''Q'' (q @ [NUL])"
  by (simp add: queryMessage_def writeTagged_def ac_simps)

lemma length_writeTagged [simp]: "length (writeTagged t b) = length b + 5"
  by (simp add: writeTagged_def)

lemma writeTagged_neq_Nil [simp]: "writeTagged t b \<noteq> []"
  by (simp add: writeTagged_def)

lemma MessageLength_tagged [wire_simps]:
  "length b + 4 < 2 ^ 32 \<Longrightarrow> MessageLength (writeTagged t b @ r) = Some (length b + 5)"
  by (simp add: MessageLength_def Let_def writeTagged_Cons)

lemma messageBody_tagged [wire_simps]:
  "length b + 4 < 2 ^ 32 \<Longrightarrow> messageBody (writeTagged t b @ r) = Some b"
  by (simp add: messageBody_def Let_def writeTagged_Cons)

lemma trimTerminator_NUL [wire_simps]: "NUL \<notin> set q \<Longrightarrow> trimTerminator (q @ NUL # r) = q"
  by (simp add: trimTerminator_def)

lemma trimTerminator_no_NUL: "NUL \<notin> set (trimTerminator b)"
  by (auto simp: trimTerminator_def indexByte_Some indexByte_None split: option.splits)

lemma extractQueryBytes_no_NUL: "NUL \<notin> set (extractQueryBytes d)"
proof -
  have "extractQueryBytes d = [] \<or> (\<exists>b. extractQueryBytes d = trimTerminator b)"
    unfolding extractQueryBytes_def Let_def by (auto split: option.split)
  then show ?thesis using trimTerminator_no_NUL by (metis empty_iff list.set(1))
qed

lemma extractQueryBytes_query:
  assumes "NUL \<notin> set q" "length q + 5 < 2 ^ 32"
  shows "extractQueryBytes (queryMessage q @ r) = q"
  using assms by (simp add: extractQueryBytes_def Let_def queryMessage_eq writeTagged_Cons
      trimTerminator_NUL)

lemma extractQueryBytes_parse:
  assumes "NUL \<notin> set name" "NUL \<notin> set q" "length (name @ NUL # q @ NUL # types) + 4 < 2 ^ 32"
  shows "extractQueryBytes (writeTagged CHR ''P'' (name @ NUL # q @ NUL # types) @ r) = q"
  using assms by (simp add: extractQueryBytes_def Let_def writeTagged_Cons trimTerminator_NUL)

section \<open>The readers are stream codecs\<close>

lemma readFrame_tagged:
  assumes "length b + 4 \<le> limit" "limit < 2 ^ 32"
  shows "readFrame limit (writeTagged t b @ r) = Inr ((t, b), r)"
  using assms by (simp add: readFrame_def Let_def writeTagged_Cons readFull_def)

lemma header_split:
  assumes "5 \<le> length s"
  shows "s = s ! 0 # put32 (be32 (drop 1 (take 5 s))) @ drop 5 s"
proof -
  have "drop 1 (take 5 s) = take 4 (drop 1 s)" by (simp add: drop_take)
  moreover have "put32 (be32 (take 4 (drop 1 s))) = take 4 (drop 1 s)"
    using assms by (simp add: put32_be32)
  moreover have "s = s ! 0 # drop 1 s" using assms by (cases s) auto
  moreover have "drop 1 s = take 4 (drop 1 s) @ drop 5 s"
    by (simp add: append_take_drop_id [of 4 "drop 1 s", simplified drop_drop, simplified])
  ultimately show ?thesis by metis
qed

lemma readFrame_sound:
  assumes "readFrame limit s = Inr ((t, b), r)"
  shows "length b + 4 \<le> limit \<and> s = writeTagged t b @ r"
proof -
  from assms have l: "5 \<le> length s"
    by (auto simp: readFrame_def readFull_def split: if_splits)
  define n where "n = be32 (drop 1 (take 5 s))"
  from assms l have n: "4 \<le> n" "n \<le> limit" and t: "t = s ! 0"
    and b: "n - 4 \<le> length (drop 5 s)" "b = take (n - 4) (drop 5 s)" "r = drop (n - 4) (drop 5 s)"
    by (auto simp: readFrame_def readFull_def Let_def n_def split: if_splits)
  from b n have "length b + 4 = n" "b @ r = drop 5 s" by (simp_all del: drop_drop)
  moreover have "s = s ! 0 # put32 n @ drop 5 s"
    using header_split [OF l] unfolding n_def .
  ultimately show ?thesis using n t by (metis append_Cons append_assoc writeTagged_Cons)
qed

abbreviation tagged_fits :: "nat \<Rightarrow> byte \<times> bytes \<Rightarrow> bool" where
  "tagged_fits limit m \<equiv> length (snd m) + 4 \<le> limit"

interpretation auth_wire: stream_codec "\<lambda>(t, b). writeTagged t b" readTagged "tagged_fits maxAuthMessage"
  by unfold_locales
    (auto simp: readTagged_def maxAuthMessage_def readFrame_tagged dest: readFrame_sound)

interpretation command_wire: stream_codec "\<lambda>(t, b). writeTagged t b" ReadCommand "tagged_fits MaxCommandBytes"
  by unfold_locales
    (auto simp: ReadCommand_def MaxCommandBytes_def readFrame_tagged dest: readFrame_sound)

lemma readMessage_eq:
  "readMessage s =
     (case readFrame maxStartupMsgLen s of Inl e \<Rightarrow> Inl e
      | Inr ((t, b), r) \<Rightarrow> Inr (\<lparr>kind = t, raw = writeTagged t b\<rparr>, r))"
proof (cases "5 \<le> length s")
  case True
  then have "writeTagged (s ! 0) (take (n - 4) (drop 5 s)) = take 5 s @ take (n - 4) (drop 5 s)"
    if "n = be32 (drop 1 (take 5 s))" "4 \<le> n" "n - 4 \<le> length (drop 5 s)" for n
    using header_split [OF True] that
    by (simp add: writeTagged_Cons) (metis Cons_nth_drop_Suc append_take_drop_id append_Cons
        append_assoc append_same_eq)
  with True show ?thesis
    by (auto simp: readMessage_def readFrame_def readFull_def Let_def split: sum.splits)
next
  case False
  then show ?thesis by (simp add: readMessage_def readFrame_def readFull_def)
qed

text \<open>A message as \<^verbatim>\<open>readMessage\<close> hands it on: the raw bytes are the frame of its own tag.\<close>

definition wf_message :: "message \<Rightarrow> bool" where
  "wf_message m \<longleftrightarrow>
     raw m = writeTagged (kind m) (body m) \<and> length (body m) + 4 \<le> maxStartupMsgLen"

lemma body_writeTagged [simp]: "body \<lparr>kind = t, raw = writeTagged t b\<rparr> = b"
  by (simp add: body_def writeTagged_Cons)

interpretation startup_wire: stream_codec raw readMessage wf_message
proof
  fix m r assume "wf_message m"
  then show "readMessage (raw m @ r) = Inr (m, r)"
    by (simp add: wf_message_def readMessage_eq readFrame_tagged maxStartupMsgLen_def)
next
  fix s m r assume "readMessage s = Inr (m, r)"
  then obtain t b where "readFrame maxStartupMsgLen s = Inr ((t, b), r)"
    and "m = \<lparr>kind = t, raw = writeTagged t b\<rparr>"
    by (auto simp: readMessage_eq split: sum.splits)
  then show "wf_message m \<and> s = raw m @ r"
    by (auto simp: wf_message_def dest: readFrame_sound)
next
  fix m assume "wf_message m" then show "raw m \<noteq> []" by (simp add: wf_message_def)
qed

section \<open>Errors\<close>

lemma errorBody_eq:
  "errorBody sev code msg =
     CHR ''S'' # sev @ NUL # CHR ''V'' # sev @ NUL # CHR ''C'' # code @ NUL # CHR ''M'' # msg @ [NUL, NUL]"
  by (simp add: errorBody_def appendField_def)

lemma ErrorResponse_eq: "ErrorResponse sev code msg = writeTagged CHR ''E'' (errorBody sev code msg)"
  by (simp add: ErrorResponse_def writeTagged_def errorBody_eq ac_simps)

lemma WriteStartupError_eq: "WriteStartupError code msg = ErrorResponse ''FATAL'' code msg"
  by (simp add: WriteStartupError_def ErrorResponse_eq writeTagged_def Let_def)

lemma WritePostgresError_eq:
  "WritePostgresError code msg =
     ErrorResponse ''ERROR'' code msg @ writeTagged CHR ''Z'' [CHR ''I'']"
  by (simp add: WritePostgresError_def ErrorResponse_eq writeTagged_def Let_def)

lemma takeWhile_NUL [wire_simps]:
  "NUL \<notin> set v \<Longrightarrow> takeWhile (\<lambda>c. c \<noteq> NUL) (v @ NUL # r) = v"
  by (induction v) auto

lemma errorMessageText_field [wire_simps]:
  "NUL \<notin> set v \<Longrightarrow> t \<noteq> NUL \<Longrightarrow> errorMessageText (t # v @ NUL # r) =
     (if t = CHR ''M'' then v else errorMessageText r)"
  by (simp add: takeWhile_NUL Let_def)

lemma errorTextFields_field [wire_simps]:
  "NUL \<notin> set v \<Longrightarrow> errorTextFields (t # v @ NUL # r) =
     (if t = CHR ''M'' then Some v else errorTextFields r)"
  by (subst errorTextFields.simps) simp

lemma errorFieldsLoop_field [wire_simps]:
  "NUL \<notin> set v \<Longrightarrow> t \<noteq> NUL \<Longrightarrow> errorFieldsLoop (a, b, c) (t # v @ NUL # r) =
     errorFieldsLoop (if t = CHR ''S'' then (v, b, c) else if t = CHR ''C'' then (a, v, c)
       else if t = CHR ''M'' then (a, b, v) else (a, b, c)) r"
  by (subst errorFieldsLoop.simps) simp

lemma errorFieldsLoop_end [wire_simps]: "errorFieldsLoop (a, b, c) (NUL # r) = (a, b, c)"
  by (subst errorFieldsLoop.simps) simp

section \<open>Properties\<close>

text \<open>
  A run of \<open>n\<close> reads of authentication-phase messages succeeds on a stream exactly
  when the stream starts with \<open>n\<close> frames as \<^verbatim>\<open>writeTagged\<close> writes them, each inside
  the 64 KiB bound; it returns exactly those tags and bodies and leaves the rest of the
  stream unread.
\<close>

theorem readTagged_stream:
  "readN n readTagged s = Inr (ms, r) \<longleftrightarrow>
     length ms = n \<and> list_all (\<lambda>(t, b). length b + 4 \<le> maxAuthMessage) ms \<and>
     s = concat (map (\<lambda>(t, b). writeTagged t b) ms) @ r"
proof -
  have e: "(\<lambda>(t, b). length b + 4 \<le> maxAuthMessage) = tagged_fits maxAuthMessage"
    by (auto simp: fun_eq_iff)
  show ?thesis unfolding e using auth_wire.readN_sound auth_wire.readN_enc by blast
qed

text \<open>
  The statement extracted from a simple query, or from a Parse, is the statement the
  client sent: its terminator is not part of it, and the messages pipelined behind it in
  the same buffer (\<open>r\<close>) have no influence.
\<close>

theorem extractQueryBytes_first_message:
  assumes "NUL \<notin> set q" and "NUL \<notin> set name"
    and "length (name @ NUL # q @ NUL # types) + 4 < 2 ^ 32"
  shows "extractQueryBytes (queryMessage q @ r) = q \<and>
    extractQueryBytes (writeTagged CHR ''P'' (name @ NUL # q @ NUL # types) @ r) = q"
  using assms by (simp add: extractQueryBytes_query extractQueryBytes_parse)

theorem extractQueryBytes_first_message_witness:
  "extractQueryBytes (queryMessage ''SELECT 1'' @ queryMessage ''DROP TABLE t'') = ''SELECT 1'' \<and>
   extractQueryBytes (writeTagged CHR ''P'' (''s'' @ NUL # ''SELECT 1'' @ NUL # [NUL, NUL]) @
     queryMessage ''DROP TABLE t'') = ''SELECT 1''"
  by (rule extractQueryBytes_first_message) simp_all

text \<open>
  Every reader of an ErrorResponse recovers the message of one that Pontus built: the
  framing scanner's best-effort \<^verbatim>\<open>errorText\<close>, the row reader's \<^verbatim>\<open>errorMessageText\<close> and
  the authentication path's \<^verbatim>\<open>errorFields\<close>, which also gives severity and SQLSTATE.
\<close>

theorem error_text_roundtrip:
  assumes "NUL \<notin> set sev" "NUL \<notin> set code" "NUL \<notin> set msg"
    and "length (errorBody sev code msg) + 4 < 2 ^ 32"
  shows "errorText (ErrorResponse sev code msg) = msg \<and>
    map_option errorMessageText (messageBody (ErrorResponse sev code msg)) = Some msg \<and>
    map_option errorFields (messageBody (ErrorResponse sev code msg)) =
      Some (sev @ '' '' @ code @ '': '' @ msg)"
proof -
  have b: "messageBody (ErrorResponse sev code msg) = Some (errorBody sev code msg)"
    using messageBody_tagged [OF assms(4), of _ "[]"] by (simp add: ErrorResponse_eq)
  have "errorTextFields (errorBody sev code msg) = Some msg"
    using assms(1-3) by (simp add: errorBody_eq errorTextFields_field)
  moreover have "errorBody sev code msg \<noteq> []" by (simp add: errorBody_eq)
  ultimately have "errorText (ErrorResponse sev code msg) = msg"
    using assms(4) by (simp add: ErrorResponse_eq writeTagged_Cons Let_def)
  moreover have "errorMessageText (errorBody sev code msg) = msg"
    using assms(1-3) by (simp add: errorBody_eq errorMessageText_field del: errorMessageText.simps)
  moreover have "errorFields (errorBody sev code msg) = sev @ '' '' @ code @ '': '' @ msg"
    using assms(1-3) by (simp add: errorBody_eq errorFields_def errorFieldsLoop_field
        errorFieldsLoop_end)
  ultimately show ?thesis using b by simp
qed

theorem error_text_roundtrip_witness:
  "errorText (ErrorResponse ''FATAL'' ''57P01'' ''bye'') = ''bye'' \<and>
   map_option errorMessageText (messageBody (ErrorResponse ''FATAL'' ''57P01'' ''bye'')) = Some ''bye'' \<and>
   map_option errorFields (messageBody (ErrorResponse ''FATAL'' ''57P01'' ''bye'')) =
     Some (''FATAL'' @ '' '' @ ''57P01'' @ '': '' @ ''bye'')"
  by (rule error_text_roundtrip) (simp_all add: errorBody_eq)

end
