(* ===== verification/RequestReader.thy ===== *)
theory RequestReader
  imports Wire
begin

text \<open>
  Reading whole requests from a client: \<^verbatim>\<open>readRequest\<close>, \<^verbatim>\<open>trailingNeed\<close> and
  \<^verbatim>\<open>readWholeMessage\<close> of \<^verbatim>\<open>server/proxy/gateway.go\<close> and \<^verbatim>\<open>endsCopyIn\<close> of
  \<^verbatim>\<open>server/proxy/copy_in.go\<close>.

  The gateway sees a protocol only through its \<^verbatim>\<open>MessageFramer\<close>, so \<^verbatim>\<open>trailingNeed\<close>
  takes the framer as an argument, as in the source, and the framer's contract is the
  locale \<open>message_framer\<close>, interpreted on the PostgreSQL framer.  The loop of
  \<^verbatim>\<open>trailingNeed\<close> would not end for a framer that reports a length of zero; the locale
  lemmas show that it does end under the contract.

  A client connection is the bytes the client has sent and will send before it stops to
  wait for a reply, and whether it then closes.  A read of more bytes than that from an
  open connection never returns.
\<close>

section \<open>Definitions\<close>

partial_function (option) trailingNeed :: "(bytes \<Rightarrow> nat option) \<Rightarrow> bytes \<Rightarrow> nat option" where
  "trailingNeed framer data =
     (if data = [] then Some 0
      else (case framer data of
              None \<Rightarrow> Some 1
            | Some tot \<Rightarrow>
                if tot > length data then Some (tot - length data)
                else trailingNeed framer (drop tot data)))"

record client_conn =
  pending :: bytes
  closes :: bool

datatype request =
    Complete bytes client_conn
  | ReadError bytes
  | TooLarge bytes nat
  | NeverReturns

definition postgresHeaderProbe :: nat where "postgresHeaderProbe = 8"

function readWholeMessage :: "nat \<Rightarrow> client_conn \<Rightarrow> bytes \<Rightarrow> request" where
  "readWholeMessage maxMessageBytes conn data =
     (case trailingNeed MessageLength data of
        None \<Rightarrow> NeverReturns
      | Some need \<Rightarrow>
          if need = 0 then Complete data conn
          else if length data + need > maxMessageBytes then TooLarge data (length data + need)
          else let want = (if need = 1 then postgresHeaderProbe else need) in
            if want \<le> length (pending conn) then
              readWholeMessage maxMessageBytes
                (conn\<lparr>pending := drop want (pending conn)\<rparr>) (data @ take want (pending conn))
            else if closes conn then
              (let data' = data @ pending conn in
               if trailingNeed MessageLength data' = Some 0
               then Complete data' (conn\<lparr>pending := []\<rparr>) else ReadError data')
            else NeverReturns)"
  by pat_completeness auto
termination
  by (relation "measure (\<lambda>(_, conn, _). length (pending conn))")
    (auto simp: postgresHeaderProbe_def)

text \<open>\<open>n\<close> is how much the first \<^verbatim>\<open>client.Read\<close> happened to return, at most the buffer size.\<close>

definition readRequest :: "nat \<Rightarrow> client_conn \<Rightarrow> nat \<Rightarrow> request" where
  "readRequest maxMessageBytes conn n =
     (let first = take n (pending conn); conn' = conn\<lparr>pending := drop n (pending conn)\<rparr> in
      if first = [] then (if closes conn then ReadError [] else NeverReturns)
      else if trailingNeed MessageLength first = Some 0 then Complete first conn'
      else readWholeMessage maxMessageBytes conn' first)"

lemma MessageLength_pos: "MessageLength d = Some n \<Longrightarrow> 5 \<le> n"
  by (auto simp: MessageLength_def Let_def split: if_splits)

function endsCopyIn :: "bytes \<Rightarrow> bool" where
  "endsCopyIn data =
     (if data = [] then False
      else (case MessageLength data of
              None \<Rightarrow> False
            | Some tot \<Rightarrow>
                if tot > length data then False
                else if data ! 0 = CHR ''c'' \<or> data ! 0 = CHR ''f'' then True
                else endsCopyIn (drop tot data)))"
  by pat_completeness auto
termination
  by (relation "measure length") (auto dest: MessageLength_pos)

declare readWholeMessage.simps [simp del] endsCopyIn.simps [simp del]

section \<open>The framer's contract\<close>

text \<open>
  What the gateway relies on: the length of a whole message is known from its first bytes
  whatever follows it, a proper part of a message is either too short to tell or already
  tells the whole length, and every reported length makes progress.
\<close>

locale message_framer =
  fixes framer :: "bytes \<Rightarrow> nat option" and whole :: "bytes \<Rightarrow> bool"
  assumes framer_whole: "whole m \<Longrightarrow> framer (m @ r) = Some (length m)"
    and framer_part: "whole m \<Longrightarrow> m = p @ q \<Longrightarrow> framer p = None \<or> framer p = Some (length m)"
    and framer_pos: "framer d = Some n \<Longrightarrow> 0 < n"
    and whole_nonempty: "whole m \<Longrightarrow> m \<noteq> []"
begin

lemma trailingNeed_returns: "\<exists>n. trailingNeed framer d = Some n"
proof (induction d rule: length_induct)
  case (1 d)
  show ?case
  proof (cases "framer d")
    case None
    then show ?thesis by (subst trailingNeed.simps) simp
  next
    case (Some tot)
    show ?thesis
    proof (cases "d = [] \<or> length d < tot")
      case True
      with Some show ?thesis by (subst trailingNeed.simps) auto
    next
      case False
      with Some framer_pos have "length (drop tot d) < length d" by auto
      with 1 obtain n where "trailingNeed framer (drop tot d) = Some n" by blast
      with Some False show ?thesis by (subst trailingNeed.simps) auto
    qed
  qed
qed

lemma trailingNeed_whole:
  "list_all whole ms \<Longrightarrow> trailingNeed framer (concat ms @ p) = trailingNeed framer p"
proof (induction ms)
  case (Cons m ms)
  then have "framer (m @ concat ms @ p) = Some (length m)" "m \<noteq> []"
    using framer_whole whole_nonempty by auto
  with Cons show ?case by (subst trailingNeed.simps) simp
qed simp

lemma trailingNeed_messages: "list_all whole ms \<Longrightarrow> trailingNeed framer (concat ms) = Some 0"
  using trailingNeed_whole [of ms "[]"] by (simp add: trailingNeed.simps [of framer "[]"])

text \<open>
  Part-way through a message the loop asks for at least one byte and never for more than
  the message lacks; as soon as its length is known it asks for exactly what is missing.
\<close>

lemma trailingNeed_part:
  assumes "list_all whole ms" "whole m" "m = p @ q" "p \<noteq> []" "q \<noteq> []"
  shows "trailingNeed framer (concat ms @ p) = Some (if framer p = None then 1 else length q)"
proof -
  have "trailingNeed framer p = Some (if framer p = None then 1 else length q)"
    using framer_part [OF assms(2,3)] assms(3-5)
    by (cases "framer p") (auto simp: trailingNeed.simps [of framer p])
  with trailingNeed_whole [OF assms(1)] show ?thesis by simp
qed

end

section \<open>PostgreSQL messages meet it\<close>

definition pg_whole :: "bytes \<Rightarrow> bool" where
  "pg_whole m \<longleftrightarrow> 5 \<le> length m \<and> 4 \<le> be32 (drop 1 m) \<and> length m = 1 + be32 (drop 1 m)"

lemma pg_whole_tagged: "length b + 4 < 2 ^ 32 \<Longrightarrow> pg_whole (writeTagged t b)"
  by (simp add: pg_whole_def writeTagged_Cons)

lemma be32_prefix: "4 \<le> length p \<Longrightarrow> be32 (p @ q) = be32 p"
  by (cases p rule: be32.cases) auto

lemma be32_drop1_prefix: "5 \<le> length p \<Longrightarrow> be32 (drop 1 (p @ q)) = be32 (drop 1 p)"
  using be32_prefix [of "drop 1 p" q] by simp

interpretation pg: message_framer MessageLength pg_whole
proof
  fix m r assume w: "pg_whole m"
  then have "be32 (drop 1 (m @ r)) = be32 (drop 1 m)"
    by (intro be32_drop1_prefix) (simp add: pg_whole_def)
  with w show "MessageLength (m @ r) = Some (length m)"
    by (simp add: pg_whole_def MessageLength_def Let_def)
next
  fix m p q assume w: "pg_whole m" "m = p @ q"
  show "MessageLength p = None \<or> MessageLength p = Some (length m)"
  proof (cases "5 \<le> length p")
    case True
    with w be32_drop1_prefix [OF True, of q] show ?thesis
      by (auto simp: pg_whole_def MessageLength_def Let_def)
  qed (simp add: MessageLength_def)
next
  fix d n assume "MessageLength d = Some n"
  then show "0 < n" using MessageLength_pos by fastforce
next
  fix m assume "pg_whole m"
  then show "m \<noteq> []" by (auto simp: pg_whole_def)
qed

lemma MessageLength_known: "MessageLength p = None \<longleftrightarrow> length p < 5"
  by (simp add: MessageLength_def Let_def)

lemma trailingNeed_pg_part:
  assumes "list_all pg_whole ms" "pg_whole (p @ q)" "p \<noteq> []" "q \<noteq> []"
  shows "trailingNeed MessageLength (concat ms @ p) = Some (if length p < 5 then 1 else length q)"
  using pg.trailingNeed_part [OF assms(1,2) refl assms(3,4)] by (simp add: MessageLength_known)

lemma readWholeMessage_done:
  "trailingNeed MessageLength d = Some 0 \<Longrightarrow> readWholeMessage mx conn d = Complete d conn"
  by (subst readWholeMessage.simps) simp

lemma readWholeMessage_sound:
  assumes "readWholeMessage mx conn d = Complete d' conn'" "length d \<le> max n (mx + 7)"
  shows "trailingNeed MessageLength d' = Some 0 \<and> d' @ pending conn' = d @ pending conn \<and>
    (length d' \<le> max n (mx + 7) \<or> closes conn \<and> pending conn' = [])"
  using assms
proof (induction mx conn d rule: readWholeMessage.induct)
  case (1 mx conn d)
  obtain need where need: "trailingNeed MessageLength d = Some need"
    using pg.trailingNeed_returns by blast
  define want where "want = (if need = 1 then postgresHeaderProbe else need)"
  show ?case
  proof (cases "need \<noteq> 0 \<and> length d + need \<le> mx \<and> want \<le> length (pending conn)")
    case True
    then have "length (d @ take want (pending conn)) \<le> max n (mx + 7)"
      by (auto simp: want_def postgresHeaderProbe_def split: if_splits)
    with 1 True need show ?thesis
      by (simp add: readWholeMessage.simps [of mx conn d] Let_def want_def)
  next
    case False
    with 1(2,3) need show ?thesis
      by (auto simp: readWholeMessage.simps [of mx conn d] Let_def want_def split: if_splits)
  qed
qed

lemma endsCopyIn_message:
  assumes "length b + 4 < 2 ^ 32"
  shows "endsCopyIn (writeTagged t b @ r) \<longleftrightarrow> t = CHR ''c'' \<or> t = CHR ''f'' \<or> endsCopyIn r"
proof -
  have "(writeTagged t b @ r) ! 0 = t" by (simp add: writeTagged_Cons)
  moreover have "drop (length b + 5) (writeTagged t b @ r) = r"
    using append_eq_conv_conj [of "writeTagged t b" r "writeTagged t b @ r"] by simp
  ultimately show ?thesis
    using MessageLength_tagged [OF assms, of t r]
    by (simp add: endsCopyIn.simps [of "writeTagged t b @ r"] del: drop_append)
qed

lemma readRequest_split:
  assumes "list_all pg_whole ms" "pg_whole (p @ q)" "5 \<le> length p" "2 \<le> length q"
    and "length (concat ms @ p @ q) \<le> maxMessageBytes"
    and "pending conn = concat ms @ p @ q @ rest"
  shows "readRequest maxMessageBytes conn (length (concat ms @ p)) =
    Complete (concat ms @ p @ q) (conn\<lparr>pending := rest\<rparr>)"
proof -
  have ne: "p \<noteq> []" "q \<noteq> []" using assms(3,4) by auto
  have need: "trailingNeed MessageLength (concat ms @ p) = Some (length q)"
    using trailingNeed_pg_part [OF assms(1,2) ne] assms(3) by simp
  have "trailingNeed MessageLength (concat ms @ p @ q) = Some 0"
    using pg.trailingNeed_messages [of "ms @ [p @ q]"] assms(1,2) by simp
  then have "readWholeMessage maxMessageBytes (conn\<lparr>pending := q @ rest\<rparr>) (concat ms @ p) =
      Complete (concat ms @ p @ q) (conn\<lparr>pending := rest\<rparr>)"
    using need assms(4,5)
    by (subst readWholeMessage.simps) (simp add: Let_def readWholeMessage_done)
  with need ne assms(4,6) show ?thesis by (simp add: readRequest_def Let_def)
qed

section \<open>Properties\<close>

text \<open>
  C35. After any number of whole pipelined messages the reader needs nothing, and part-way
  through the next one it needs exactly what that message lacks once its five header bytes
  are in, and one byte before that: never more than the client owes.
\<close>

theorem trailingNeed_exact:
  assumes "list_all pg_whole ms" "pg_whole (p @ q)" "p \<noteq> []" "q \<noteq> []"
  shows "trailingNeed MessageLength (concat ms) = Some 0 \<and>
    trailingNeed MessageLength (concat ms @ p) = Some (if length p < 5 then 1 else length q)"
  using trailingNeed_pg_part [OF assms] pg.trailingNeed_messages [OF assms(1)] by simp

theorem trailingNeed_exact_witness:
  "trailingNeed MessageLength (concat [queryMessage ''SELECT 1'']) = Some 0 \<and>
   trailingNeed MessageLength (concat [queryMessage ''SELECT 1''] @ CHR ''S'' # put32 4) =
     Some 0 \<and>
   trailingNeed MessageLength (concat [queryMessage ''SELECT 1''] @ [CHR ''S'', NUL]) = Some 1"
proof -
  have "list_all pg_whole [queryMessage ''SELECT 1'']"
    by (simp add: queryMessage_eq pg_whole_tagged)
  moreover have "pg_whole ([CHR ''S'', NUL] @ [NUL, NUL, CHR 0x04])"
    by (simp add: pg_whole_def)
  ultimately show ?thesis
    using trailingNeed_exact [of "[queryMessage ''SELECT 1'']" "[CHR ''S'', NUL]" "[NUL, NUL, CHR 0x04]"]
      pg.trailingNeed_messages [of "[queryMessage ''SELECT 1'', writeTagged CHR ''S'' []]"]
      pg_whole_tagged [of "[]" "CHR ''S''"]
    by (simp add: writeTagged_Cons)
qed



text \<open>
  A message cut by the network is put together again: when the header of the last
  message and all but at least two of its bytes have arrived, the reader takes exactly the
  rest of that message and leaves what follows on the connection.
\<close>

theorem readRequest_reassembles:
  assumes "list_all pg_whole ms" "pg_whole (p @ q)" "5 \<le> length p" "2 \<le> length q"
    and "length (concat ms @ p @ q) \<le> maxMessageBytes"
    and "pending conn = concat ms @ p @ q @ rest"
  shows "readRequest maxMessageBytes conn (length (concat ms @ p)) =
    Complete (concat ms @ p @ q) (conn\<lparr>pending := rest\<rparr>)"
  using assms by (rule readRequest_split)

theorem readRequest_reassembles_witness:
  "readRequest 100 \<lparr>pending = queryMessage ''SELECT 1'' @ ''X'', closes = False\<rparr> 8 =
     Complete (queryMessage ''SELECT 1'') \<lparr>pending = ''X'', closes = False\<rparr>"
proof -
  have q: "queryMessage ''SELECT 1'' = take 8 (queryMessage ''SELECT 1'') @ drop 8 (queryMessage ''SELECT 1'')"
    by simp
  have "pg_whole (queryMessage ''SELECT 1'')" by (simp add: queryMessage_eq pg_whole_tagged)
  then show ?thesis
    using readRequest_reassembles [of "[]" "take 8 (queryMessage ''SELECT 1'')"
        "drop 8 (queryMessage ''SELECT 1'')" 100
        "\<lparr>pending = queryMessage ''SELECT 1'' @ ''X'', closes = False\<rparr>" "''X''"]
    by (simp add: queryMessage_eq)
qed

text \<open>
  C40. The one-byte case is different.  When a message of any kind arrives with only its
  last byte outstanding, the reader asks for eight bytes instead of one; a client that
  sends the byte and then waits for its reply, as every synchronous client does, is never
  answered.  The same message arriving in one read is accepted.
\<close>

theorem readRequest_last_byte_hangs:
  assumes "pg_whole m" "length m \<le> maxMessageBytes"
  shows "readRequest maxMessageBytes \<lparr>pending = m, closes = False\<rparr> (length m - 1) = NeverReturns \<and>
    readRequest maxMessageBytes \<lparr>pending = m, closes = False\<rparr> (length m) =
      Complete m \<lparr>pending = [], closes = False\<rparr>"
proof -
  from assms(1) have l: "5 \<le> length m" by (simp add: pg_whole_def)
  then have ne: "butlast m \<noteq> []" "m \<noteq> []" by (auto simp: butlast_conv_take)
  have need: "trailingNeed MessageLength (butlast m) = Some 1"
    using trailingNeed_pg_part [of "[]" "butlast m" "[last m]"] assms(1) ne by simp
  have hang: "readWholeMessage maxMessageBytes \<lparr>pending = [last m], closes = False\<rparr> (butlast m) = NeverReturns"
    using need assms(2) l
    by (subst readWholeMessage.simps) (simp add: Let_def postgresHeaderProbe_def)
  have split: "drop (length m - 1) m = [last m]" "take (length m - 1) m = butlast m"
    using append_eq_conv_conj [of "butlast m" "[last m]" m] ne by simp_all
  have "trailingNeed MessageLength m = Some 0"
    using pg.trailingNeed_messages [of "[m]"] assms(1) by simp
  with ne have "readRequest maxMessageBytes \<lparr>pending = m, closes = False\<rparr> (length m) =
      Complete m \<lparr>pending = [], closes = False\<rparr>"
    by (simp add: readRequest_def Let_def)
  moreover have "readRequest maxMessageBytes \<lparr>pending = m, closes = False\<rparr> (length m - 1) = NeverReturns"
    unfolding readRequest_def Let_def client_conn.simps split need using ne(1) hang by simp
  ultimately show ?thesis by simp
qed

theorem readRequest_last_byte_hangs_witness:
  "readRequest 100 \<lparr>pending = writeTagged CHR ''S'' [], closes = False\<rparr> 4 = NeverReturns \<and>
   readRequest 100 \<lparr>pending = writeTagged CHR ''S'' [], closes = False\<rparr> 5 =
     Complete (writeTagged CHR ''S'' []) \<lparr>pending = [], closes = False\<rparr>"
  using readRequest_last_byte_hangs [of "writeTagged CHR ''S'' []" 100] by (simp add: pg_whole_tagged)

text \<open>
  The COPY pump recognises the end of the client's side exactly: among whole messages
  it stops if and only if one of them is a CopyDone or a CopyFail, wherever in the batch it
  stands, and no byte inside a message body can be mistaken for one.
\<close>

theorem endsCopyIn_exact:
  assumes "list_all (\<lambda>(t, b). length b + 4 < 2 ^ 32) ms"
  shows "endsCopyIn (concat (map (\<lambda>(t, b). writeTagged t b) ms)) \<longleftrightarrow>
    CHR ''c'' \<in> set (map fst ms) \<or> CHR ''f'' \<in> set (map fst ms)"
  using assms
proof (induction ms)
  case Nil
  show ?case by (simp add: endsCopyIn.simps)
next
  case (Cons m ms)
  then show ?case
    by (cases m) (auto simp: endsCopyIn_message)
qed

theorem endsCopyIn_exact_witness:
  "endsCopyIn (concat (map (\<lambda>(t, b). writeTagged t b) [(CHR ''d'', ''cf''), (CHR ''c'', [])])) \<and>
   \<not> endsCopyIn (concat (map (\<lambda>(t, b). writeTagged t b) [(CHR ''d'', ''cf'')]))"
  using endsCopyIn_exact [of "[(CHR ''d'', ''cf''), (CHR ''c'', [])]"]
    endsCopyIn_exact [of "[(CHR ''d'', ''cf'')]"] by simp

end
