(* ===== verification/PinDetect.thy ===== *)
theory PinDetect
  imports Wire "HOL-Library.Sublist"
begin

unbundle bit_operations_syntax

text \<open>
  What ties a session to its backend connection: \<^verbatim>\<open>pin_reason.go\<close> and \<^verbatim>\<open>pin_detect.go\<close>
  of \<^verbatim>\<open>server/internal/protocol\<close>.

  A \<^verbatim>\<open>PinReason\<close> is the source's 16-bit set, kept as a 16-bit word.  The scanner works
  on suffixes.  The lemmas show that its loops end, that comments and letter case make no
  difference to what it decides, that block comments nest as PostgreSQL's do, and what the
  phrase search finds in terms of the token sequence.
\<close>

section \<open>Reasons\<close>

type_synonym pin_reason = "16 word"

definition PinListen :: pin_reason where "PinListen = 1"
definition PinTempTable :: pin_reason where "PinTempTable = 2"
definition PinCursor :: pin_reason where "PinCursor = 4"
definition PinLock :: pin_reason where "PinLock = 8"
definition PinAdvisoryLock :: pin_reason where "PinAdvisoryLock = 16"
definition PinUntrackedState :: pin_reason where "PinUntrackedState = 32"

definition transactionScoped :: pin_reason where "transactionScoped = PinLock"

lemmas pin_defs = PinListen_def PinTempTable_def PinCursor_def PinLock_def PinAdvisoryLock_def
  PinUntrackedState_def transactionScoped_def

definition Has :: "pin_reason \<Rightarrow> pin_reason \<Rightarrow> bool" where
  "Has r other = (r AND other \<noteq> 0)"

definition pinNames :: "(pin_reason \<times> string) list" where
  "pinNames = [(PinListen, ''listen''), (PinTempTable, ''temp_table''), (PinCursor, ''hold_cursor''),
     (PinLock, ''lock''), (PinAdvisoryLock, ''advisory_lock''), (PinUntrackedState, ''untracked_state'')]"

fun appendNames :: "pin_reason \<Rightarrow> string \<Rightarrow> (pin_reason \<times> string) list \<Rightarrow> string" where
  "appendNames r out [] = out"
| "appendNames r out ((reason, name) # ns) =
     (if \<not> Has r reason then appendNames r out ns
      else appendNames r ((if length out > 0 then out @ '','' else out) @ name) ns)"

definition PinReason_String :: "pin_reason \<Rightarrow> string" where
  "PinReason_String r = (if r = 0 then ''none'' else appendNames r [] pinNames)"

section \<open>Bytes and tokens\<close>

definition lowerByte :: "byte \<Rightarrow> byte" where
  "lowerByte c = (if 65 \<le> bval c \<and> bval c \<le> 90 then char_of (bval c + 32) else c)"

fun equalFold :: "bytes \<Rightarrow> bytes \<Rightarrow> bool" where
  "equalFold [] [] = True"
| "equalFold (c # token) (l # lower) = (lowerByte c = l \<and> equalFold token lower)"
| "equalFold _ _ = False"

definition isSpace :: "byte \<Rightarrow> bool" where
  "isSpace b = (b = CHR '' '' \<or> b = CHR 0x09 \<or> b = CHR 0x0A \<or> b = CHR 0x0D \<or> b = CHR 0x0B \<or> b = CHR 0x0C)"

fun startsLineComment :: "bytes \<Rightarrow> bool" where
  "startsLineComment (a # b # _) = (a = CHR ''-'' \<and> b = CHR ''-'')"
| "startsLineComment _ = False"

fun startsBlockComment :: "bytes \<Rightarrow> bool" where
  "startsBlockComment (a # b # _) = (a = CHR ''/'' \<and> b = CHR ''*'')"
| "startsBlockComment _ = False"

fun endsBlockComment :: "bytes \<Rightarrow> bool" where
  "endsBlockComment (a # b # _) = (a = CHR ''*'' \<and> b = CHR ''/'')"
| "endsBlockComment _ = False"

definition startsComment :: "bytes \<Rightarrow> bool" where
  "startsComment s = (startsLineComment s \<or> startsBlockComment s)"

function skipBlockLoop :: "int \<Rightarrow> bytes \<Rightarrow> bytes" where
  "skipBlockLoop depth s =
     (if s = [] then []
      else if startsBlockComment s then skipBlockLoop (depth + 1) (drop 2 s)
      else if endsBlockComment s then
        (if depth - 1 = 0 then drop 2 s else skipBlockLoop (depth - 1) (drop 2 s))
      else skipBlockLoop depth (drop 1 s))"
  by pat_completeness auto
termination by (relation "measure (\<lambda>(_, s). length s)") auto

definition skipBlockComment :: "bytes \<Rightarrow> bytes" where
  "skipBlockComment s = skipBlockLoop 0 s"

declare skipBlockLoop.simps [simp del]

lemma length_skipBlockLoop_le: "length (skipBlockLoop d s) \<le> length s - 1"
proof (induction d s rule: skipBlockLoop.induct)
  case (1 d s)
  show ?case
    unfolding skipBlockLoop.simps [of d s] using 1 by (auto intro: order_trans)
qed

lemma length_skipBlockLoop: "s \<noteq> [] \<Longrightarrow> length (skipBlockLoop d s) < length s"
  using length_skipBlockLoop_le [of d s] by (cases s) auto

function skipNoise :: "bytes \<Rightarrow> bytes" where
  "skipNoise s =
     (if s = [] then []
      else if isSpace (hd s) then skipNoise (tl s)
      else if startsLineComment s then skipNoise (dropWhile (\<lambda>c. c \<noteq> CHR 0x0A) s)
      else if startsBlockComment s then skipNoise (skipBlockComment s)
      else s)"
  by pat_completeness auto
termination
proof (relation "measure length", goal_cases)
  case (3 s)
  then obtain a b r where "s = a # b # r" "a = CHR ''-''" by (cases s rule: startsLineComment.cases) auto
  then show ?case using length_dropWhile_le [of "\<lambda>c. c \<noteq> CHR 0x0A" r] by simp
next
  case (4 s)
  then show ?case by (simp add: skipBlockComment_def length_skipBlockLoop)
qed auto

declare skipNoise.simps [simp del]

fun scanToken :: "bytes \<Rightarrow> bytes \<times> bytes" where
  "scanToken [] = ([], [])"
| "scanToken (c # s) =
     (if isSpace c \<or> startsComment (c # s) then ([], c # s)
      else (case scanToken s of (token, rest) \<Rightarrow> (c # token, rest)))"

definition trimRight :: "bytes \<Rightarrow> bytes" where
  "trimRight s = rev (dropWhile (\<lambda>c. c = CHR '';'' \<or> c = NUL) (rev s))"

definition nextToken :: "bytes \<Rightarrow> bytes \<times> bytes" where
  "nextToken s = (let (token, rest) = scanToken (skipNoise s) in (trimRight token, rest))"

lemma length_skipNoise: "length (skipNoise s) \<le> length s"
proof (induction s rule: skipNoise.induct)
  case (1 s)
  show ?case
  proof (cases "s = []")
    case False
    then have "length (skipBlockComment s) \<le> length s" "length (tl s) \<le> length s"
      "length (dropWhile (\<lambda>c. c \<noteq> CHR 0x0A) s) \<le> length s"
      by (simp_all add: skipBlockComment_def length_skipBlockLoop less_imp_le length_dropWhile_le)
    with 1 False show ?thesis by (subst skipNoise.simps) (auto intro: order_trans)
  qed (simp add: skipNoise.simps)
qed

lemma scanToken_append: "fst (scanToken s) @ snd (scanToken s) = s"
  by (induction s) (auto simp: case_prod_unfold)

lemma length_snd_scanToken: "length (snd (scanToken s)) \<le> length s"
  using scanToken_append [of s] by (metis length_append le_add2)

lemma skipNoise_head:
  "skipNoise s = c # r \<Longrightarrow> \<not> isSpace c \<and> \<not> startsComment (c # r)"
proof (induction s rule: skipNoise.induct)
  case (1 s)
  show ?case
  proof (cases "s = [] \<or> isSpace (hd s) \<or> startsLineComment s \<or> startsBlockComment s")
    case True
    with 1 show ?thesis by (auto simp: skipNoise.simps [of s] split: if_splits)
  next
    case False
    with "1.prems" show ?thesis by (auto simp: skipNoise.simps [of s] startsComment_def)
  qed
qed

lemma nextToken_shrinks: "s \<noteq> [] \<Longrightarrow> length (snd (nextToken s)) < length s"
proof (cases "skipNoise s")
  case Nil
  then show "s \<noteq> [] \<Longrightarrow> ?thesis" by (simp add: nextToken_def)
next
  case (Cons c r)
  then have "length (snd (scanToken (skipNoise s))) < length (skipNoise s)"
    using skipNoise_head [OF Cons] by (simp add: le_imp_less_Suc length_snd_scanToken case_prod_unfold)
  then show ?thesis using length_skipNoise [of s] by (simp add: nextToken_def case_prod_unfold Let_def)
qed

fun matchPhrase :: "bytes \<Rightarrow> string list \<Rightarrow> bool" where
  "matchPhrase candidate [] = True"
| "matchPhrase candidate (word # words) =
     (let (token, candidate') = nextToken candidate in
      if \<not> equalFold token word then False else matchPhrase candidate' words)"

function containsPhrase :: "bytes \<Rightarrow> string list \<Rightarrow> bool" where
  "containsPhrase rest words =
     (if rest = [] then False
      else if matchPhrase rest words then True
      else containsPhrase (snd (nextToken rest)) words)"
  by pat_completeness auto
termination by (relation "measure (\<lambda>(s, _). length s)") (auto simp: nextToken_shrinks)

declare containsPhrase.simps [simp del]

fun containsFold :: "bytes \<Rightarrow> bytes \<Rightarrow> bool" where
  "containsFold [] lower = False"
| "containsFold (c # s) lower =
     (if length lower = 0 \<or> length (c # s) < length lower then False
      else equalFold (take (length lower) (c # s)) lower \<or> containsFold s lower)"

section \<open>Decisions\<close>

definition createsTempObject :: "bytes \<Rightarrow> bool" where
  "createsTempObject rest =
     (let (token0, next0) = nextToken rest;
          (token, next) = (if equalFold token0 ''global'' \<or> equalFold token0 ''local''
                           then nextToken next0 else (token0, next0))
      in if \<not> equalFold token ''temp'' \<and> \<not> equalFold token ''temporary'' then False
         else let object = fst (nextToken next) in
           equalFold object ''table'' \<or> equalFold object ''sequence'' \<or> equalFold object ''view'')"

definition pinReasonFor :: "bytes \<Rightarrow> pin_reason" where
  "pinReasonFor query =
     (let (verb, rest) = nextToken query in
      if equalFold verb ''listen'' then PinListen
      else if equalFold verb ''lock'' then PinLock
      else if equalFold verb ''declare'' then
        (if containsPhrase rest [''with'', ''hold''] then PinCursor else 0)
      else if equalFold verb ''create'' then
        (if createsTempObject rest then PinTempTable else 0)
      else if equalFold verb ''select'' \<or> equalFold verb ''with'' then
        (if containsFold rest ''pg_advisory_lock'' then PinAdvisoryLock else 0)
      else 0)"

definition unpinReasonFor :: "bytes \<Rightarrow> pin_reason" where
  "unpinReasonFor query =
     (let (verb, rest) = nextToken query; next = fst (nextToken rest) in
      if equalFold verb ''discard'' then
        (if equalFold next ''all'' then NOT 0
         else if equalFold next ''temp'' \<or> equalFold next ''temporary'' then PinTempTable else 0)
      else if equalFold verb ''unlisten'' then (if equalFold next ''*'' then PinListen else 0)
      else if equalFold verb ''close'' then (if equalFold next ''all'' then PinCursor else 0)
      else 0)"

section \<open>Letter case\<close>

abbreviation lowered :: "bytes \<Rightarrow> bytes" where "lowered s \<equiv> map lowerByte s"

lemma lowerByte_idem [scan_simps, simp]: "lowerByte (lowerByte c) = lowerByte c"
  by (simp add: lowerByte_def)

lemma lowered_idem [scan_simps, simp]:
  "map (lowerByte \<circ> lowerByte) s = lowered s" "lowerByte \<circ> lowerByte = lowerByte"
  by (simp_all add: fun_eq_iff)

lemma lowerByte_range: "lowerByte c = d \<Longrightarrow> c \<noteq> d \<Longrightarrow> 97 \<le> bval d \<and> bval d \<le> 122"
  by (auto simp: lowerByte_def split: if_splits)

lemma lowerByte_other [scan_simps]:
  "\<not> (97 \<le> bval d \<and> bval d \<le> 122) \<Longrightarrow> \<not> (65 \<le> bval d \<and> bval d \<le> 90) \<Longrightarrow>
     lowerByte c = d \<longleftrightarrow> c = d"
  using lowerByte_range [of c d] by (auto simp: lowerByte_def)

lemma lowerByte_punct [scan_simps, simp]:
  "lowerByte c = CHR ''-'' \<longleftrightarrow> c = CHR ''-''" "lowerByte c = CHR ''/'' \<longleftrightarrow> c = CHR ''/''"
  "lowerByte c = CHR ''*'' \<longleftrightarrow> c = CHR ''*''" "lowerByte c = CHR '';'' \<longleftrightarrow> c = CHR '';''"
  "lowerByte c = CHR 0x0A \<longleftrightarrow> c = CHR 0x0A" "lowerByte c = NUL \<longleftrightarrow> c = NUL"
  "lowerByte c = CHR ''='' \<longleftrightarrow> c = CHR ''=''"
  "isSpace (lowerByte c) = isSpace c"
  by (simp_all add: lowerByte_other isSpace_def)

lemma equalFold_iff [scan_simps]: "equalFold t l \<longleftrightarrow> lowered t = l"
  by (induction t l rule: equalFold.induct) auto

lemma starts_lowered [scan_simps, simp]:
  "startsLineComment (lowered s) = startsLineComment s"
  "startsBlockComment (lowered s) = startsBlockComment s"
  "endsBlockComment (lowered s) = endsBlockComment s"
  "startsComment (lowered s) = startsComment s"
proof -
  show l: "startsLineComment (lowered s) = startsLineComment s"
    by (cases s rule: startsLineComment.cases) auto
  show b: "startsBlockComment (lowered s) = startsBlockComment s"
    by (cases s rule: startsBlockComment.cases) auto
  show "endsBlockComment (lowered s) = endsBlockComment s"
    by (cases s rule: endsBlockComment.cases) auto
  show "startsComment (lowered s) = startsComment s" by (simp add: startsComment_def l b)
qed

lemma skipBlockLoop_lowered: "skipBlockLoop d (lowered s) = lowered (skipBlockLoop d s)"
proof (induction d s rule: skipBlockLoop.induct)
  case (1 d s)
  then show ?case
    by (subst (1 2) skipBlockLoop.simps) (simp add: drop_map)
qed

lemma dropWhile_lowered:
  "dropWhile (\<lambda>c. c \<noteq> CHR 0x0A) (lowered s) = lowered (dropWhile (\<lambda>c. c \<noteq> CHR 0x0A) s)"
  by (induction s) auto

lemma skipNoise_lowered [scan_simps]: "skipNoise (lowered s) = lowered (skipNoise s)"
proof (induction s rule: skipNoise.induct)
  case (1 s)
  then show ?case
    by (subst (1 2) skipNoise.simps)
      (simp add: hd_map map_tl [symmetric] dropWhile_lowered skipBlockComment_def skipBlockLoop_lowered)
qed

lemma scanToken_lowered:
  "scanToken (lowered s) = (lowered (fst (scanToken s)), lowered (snd (scanToken s)))"
proof (induction s)
  case (Cons c s)
  then show ?case using starts_lowered(4) [of "c # s"] by (simp add: case_prod_unfold)
qed simp

lemma trimRight_lowered: "trimRight (lowered s) = lowered (trimRight s)"
proof -
  have "dropWhile (\<lambda>c. c = CHR '';'' \<or> c = NUL) (lowered r) =
      lowered (dropWhile (\<lambda>c. c = CHR '';'' \<or> c = NUL) r)" for r
    by (induction r) auto
  then show ?thesis by (simp add: trimRight_def rev_map)
qed

lemma nextToken_lowered [scan_simps]:
  "nextToken (lowered s) = (lowered (fst (nextToken s)), lowered (snd (nextToken s)))"
  by (simp add: nextToken_def case_prod_unfold Let_def skipNoise_lowered scanToken_lowered trimRight_lowered)

lemma equalFold_lowered [scan_simps, simp]: "equalFold (lowered t) l = equalFold t l"
  by (simp add: equalFold_iff)

lemma matchPhrase_lowered [scan_simps]: "matchPhrase (lowered s) ws = matchPhrase s ws"
  by (induction ws arbitrary: s) (simp_all add: case_prod_unfold nextToken_lowered)

lemma containsPhrase_lowered [scan_simps]: "containsPhrase (lowered s) ws = containsPhrase s ws"
proof (induction s ws rule: containsPhrase.induct)
  case (1 s ws)
  then show ?case
    by (subst (1 2) containsPhrase.simps) (simp add: matchPhrase_lowered nextToken_lowered)
qed

lemma containsFold_lowered [scan_simps]: "containsFold (lowered s) l = containsFold s l"
proof (induction s)
  case (Cons c s)
  have "equalFold (lowerByte c # take n (lowered s)) l = equalFold (c # take n s) l" for n
    by (simp add: equalFold_iff take_map)
  with Cons show ?case by (cases "length l") simp_all
qed simp

section \<open>Comments\<close>

text \<open>
  The text a PostgreSQL block comment may hold: no unpaired delimiter, nested comments
  allowed.  A comment's text may end in a star, which its closing delimiter then follows.
\<close>

inductive comment_text :: "bytes \<Rightarrow> bool" where
  ct_nil: "comment_text []"
| ct_char: "c \<noteq> CHR ''/'' \<Longrightarrow> c \<noteq> CHR ''*'' \<Longrightarrow> comment_text s \<Longrightarrow> comment_text (c # s)"
| ct_slash: "c \<noteq> CHR ''*'' \<Longrightarrow> comment_text (c # s) \<Longrightarrow> comment_text (CHR ''/'' # c # s)"
| ct_star: "c \<noteq> CHR ''/'' \<Longrightarrow> comment_text (c # s) \<Longrightarrow> comment_text (CHR ''*'' # c # s)"
| ct_last_star: "comment_text ''*''"
| ct_nest: "comment_text a \<Longrightarrow> comment_text b \<Longrightarrow> comment_text (''/*'' @ a @ ''*/'' @ b)"

text \<open>White space, line comments with their newline, and block comments, in any order.\<close>

inductive noise :: "bytes \<Rightarrow> bool" where
  noise_nil: "noise []"
| noise_space: "isSpace c \<Longrightarrow> noise n \<Longrightarrow> noise (c # n)"
| noise_line: "CHR 0x0A \<notin> set t \<Longrightarrow> noise n \<Longrightarrow> noise (''--'' @ t @ CHR 0x0A # n)"
| noise_block: "comment_text t \<Longrightarrow> noise n \<Longrightarrow> noise (''/*'' @ t @ ''*/'' @ n)"

lemma skipBlockLoop_text:
  "comment_text a \<Longrightarrow> 1 \<le> d \<Longrightarrow> skipBlockLoop d (a @ ''*/'' @ rest) =
     (if d = 1 then rest else skipBlockLoop (d - 1) rest)"
proof (induction a arbitrary: d rest rule: comment_text.induct)
  case (ct_char c s)
  have "\<not> startsBlockComment (c # s @ ''*/'' @ rest) \<and> \<not> endsBlockComment (c # s @ ''*/'' @ rest)"
    using ct_char by (cases "s @ ''*/'' @ rest") auto
  with ct_char show ?case by (subst skipBlockLoop.simps) simp
qed (subst skipBlockLoop.simps, simp)+

lemma skipNoise_noise [scan_simps]: "noise n \<Longrightarrow> skipNoise (n @ s) = skipNoise s"
proof (induction n rule: noise.induct)
  case (noise_line t n)
  have "dropWhile (\<lambda>c. c \<noteq> CHR 0x0A) (t @ CHR 0x0A # n @ s) = CHR 0x0A # n @ s"
    using noise_line(1) by (induction t) auto
  with noise_line show ?case
    by (subst skipNoise.simps) (simp add: isSpace_def skipNoise.simps [of "CHR 0x0A # n @ s"])
next
  case (noise_block t n)
  have "skipBlockComment (''/*'' @ t @ ''*/'' @ n @ s) = n @ s"
    using skipBlockLoop_text [OF noise_block(1), of 1 "n @ s"]
    by (simp add: skipBlockComment_def skipBlockLoop.simps [of 0])
  with noise_block show ?case by (subst skipNoise.simps) (simp add: isSpace_def)
next
  case (noise_space c n)
  then show ?case by (subst skipNoise.simps) simp
qed simp

lemma nextToken_noise [scan_simps]: "noise n \<Longrightarrow> nextToken (n @ s) = nextToken s"
  by (simp add: nextToken_def skipNoise_noise)

section \<open>Token sequences\<close>

text \<open>The lowered tokens of a query, in order: what the decisions are specified over.\<close>

function tokens :: "bytes \<Rightarrow> string list" where
  "tokens s = (if s = [] then [] else lowered (fst (nextToken s)) # tokens (snd (nextToken s)))"
  by pat_completeness auto
termination by (relation "measure length") (auto simp: nextToken_shrinks)

declare tokens.simps [simp del]

lemma nextToken_Nil [simp]: "nextToken [] = ([], [])"
  by (simp add: nextToken_def skipNoise.simps trimRight_def)

lemma tokens_Nil [simp]: "tokens [] = []"
  by (subst tokens.simps) simp

lemma tokens_nonempty:
  "s \<noteq> [] \<Longrightarrow> tokens s = lowered (fst (nextToken s)) # tokens (snd (nextToken s))"
  by (subst tokens.simps) simp

lemma matchPhrase_prefix:
  "[] \<notin> set ws \<Longrightarrow> matchPhrase s ws \<longleftrightarrow> prefix ws (tokens s)"
proof (induction ws arbitrary: s)
  case (Cons w ws)
  show ?case
  proof (cases "s = []")
    case True
    with Cons.prems show ?thesis by (cases w) simp_all
  next
    case False
    have "matchPhrase s (w # ws) \<longleftrightarrow>
        w = lowered (fst (nextToken s)) \<and> matchPhrase (snd (nextToken s)) ws"
      by (simp add: case_prod_unfold Let_def equalFold_iff eq_commute [of w])
    also have "matchPhrase (snd (nextToken s)) ws \<longleftrightarrow> prefix ws (tokens (snd (nextToken s)))"
      using Cons by simp
    finally show ?thesis by (simp add: tokens_nonempty [OF False])
  qed
qed simp

lemma containsPhrase_sublist:
  assumes "ws \<noteq> []" "[] \<notin> set ws"
  shows "containsPhrase s ws \<longleftrightarrow> sublist ws (tokens s)"
proof (induction s rule: tokens.induct)
  case (1 s)
  show ?case
  proof (cases "s = []")
    case True
    then show ?thesis using assms by (simp add: containsPhrase.simps)
  next
    case False
    have "containsPhrase s ws \<longleftrightarrow> matchPhrase s ws \<or> containsPhrase (snd (nextToken s)) ws"
      using False by (subst containsPhrase.simps) simp
    with False 1 assms show ?thesis
      by (simp add: matchPhrase_prefix sublist_Cons_right tokens_nonempty)
  qed
qed

lemma tokens_verb:
  "w \<noteq> [] \<Longrightarrow> equalFold (fst (nextToken q)) w \<longleftrightarrow> (\<exists>r. tokens q = w # r)"
  "tokens q = w # r \<Longrightarrow> tokens (snd (nextToken q)) = r"
  by (cases "q = []"; auto simp: equalFold_iff tokens_nonempty)+

lemma pin_distinct [simp]:
  "PinListen \<noteq> PinCursor" "PinLock \<noteq> PinCursor" "PinTempTable \<noteq> PinCursor" "PinAdvisoryLock \<noteq> PinCursor"
  "0 \<noteq> PinCursor"
  by (simp_all add: pin_defs)

lemma pinReasonFor_lowered: "pinReasonFor (lowered q) = pinReasonFor q"
  by (simp add: pinReasonFor_def case_prod_unfold Let_def nextToken_lowered containsPhrase_lowered
      createsTempObject_def containsFold_lowered if_distrib [of fst] if_distrib [of snd] cong: if_cong)

lemma unpinReasonFor_lowered: "unpinReasonFor (lowered q) = unpinReasonFor q"
  by (simp add: unpinReasonFor_def case_prod_unfold Let_def nextToken_lowered)

lemma reasons_noise:
  "noise n \<Longrightarrow> pinReasonFor (n @ q) = pinReasonFor q"
  "noise n \<Longrightarrow> unpinReasonFor (n @ q) = unpinReasonFor q"
  by (simp_all add: pinReasonFor_def unpinReasonFor_def nextToken_noise)

text \<open>
  What a statement pins and what it lifts depend neither on the letter case it is
  written in nor on the white space, line comments and (nested) block comments a driver puts
  in front of it: any two spellings of one statement get the same answer from
  \<^verbatim>\<open>pinReasonFor\<close> and from \<^verbatim>\<open>unpinReasonFor\<close>.
\<close>

theorem reasons_spelling:
  assumes "noise n" and "lowered q = lowered q'"
  shows "pinReasonFor (n @ q) = pinReasonFor q' \<and> unpinReasonFor (n @ q) = unpinReasonFor q'"
  using assms pinReasonFor_lowered [of q] pinReasonFor_lowered [of q']
    unpinReasonFor_lowered [of q] unpinReasonFor_lowered [of q']
  by (simp add: reasons_noise)

lemma noise_example: "noise ''/* a /* b */ */ -- c\<newline> ''"
proof -
  have "noise ''-- c\<newline> ''"
    using noise_line [of "'' c''" "'' ''"] noise_space [OF _ noise_nil, of "CHR '' ''"] by (simp add: isSpace_def)
  then have "noise '' -- c\<newline> ''"
    using noise_space [of "CHR '' ''"] by (simp add: isSpace_def)
  moreover have "comment_text '' a /* b */ ''"
  proof -
    have "comment_text '' b ''" "comment_text '' ''" by (auto intro: ct_char ct_nil)
    then have "comment_text ''/* b */ ''" using ct_nest [of "'' b ''" "'' ''"] by simp
    then show ?thesis by (auto intro!: ct_char)
  qed
  ultimately show ?thesis using noise_block [of "'' a /* b */ ''"] by simp
qed

theorem reasons_spelling_witness:
  "pinReasonFor (''/* a /* b */ */ -- c\<newline> '' @ ''Listen ch'') = pinReasonFor ''LISTEN CH'' \<and>
   unpinReasonFor (''/* a /* b */ */ -- c\<newline> '' @ ''Listen ch'') = unpinReasonFor ''LISTEN CH''"
  by (rule reasons_spelling [OF noise_example]) code_simp

text \<open>
  A statement pins the session for a cursor exactly when its first token is DECLARE and
  WITH and HOLD stand next to each other, in that order, among the tokens that follow: a
  cursor that dies with its transaction never pins, however its query spells the words.
\<close>

theorem pin_cursor_exact:
  "pinReasonFor q = PinCursor \<longleftrightarrow>
     (\<exists>rest. tokens q = ''declare'' # rest \<and> sublist [''with'', ''hold''] rest)"
proof -
  have verb: "equalFold (fst (nextToken q)) ''declare'' \<longleftrightarrow> (\<exists>r. tokens q = ''declare'' # r)"
    by (rule tokens_verb) simp
  have "pinReasonFor q = PinCursor \<longleftrightarrow> equalFold (fst (nextToken q)) ''declare'' \<and>
      containsPhrase (snd (nextToken q)) [''with'', ''hold'']"
    by (auto simp: pinReasonFor_def case_prod_unfold Let_def equalFold_iff)
  also have "\<dots> \<longleftrightarrow> (\<exists>rest. tokens q = ''declare'' # rest \<and> sublist [''with'', ''hold''] rest)"
    unfolding verb by (auto simp: containsPhrase_sublist dest: tokens_verb(2))
  finally show ?thesis .
qed

text \<open>
  Two statements that take session state and are not seen: the non-blocking advisory lock, and
  a LISTEN that is not the first statement of its query.
\<close>

lemma pin_blind_spots:
  "pinReasonFor ''SELECT pg_try_advisory_lock(1)'' = 0" "pinReasonFor ''SELECT 1; LISTEN c'' = 0"
  by code_simp+

end
