(* ===== verification/ReplyScanner.thy ===== *)
theory ReplyScanner
  imports Wire
begin

text \<open>
  Knowing when a reply has ended: \<^verbatim>\<open>reply_scanner.go\<close>, \<^verbatim>\<open>await_reply.go\<close>,
  \<^verbatim>\<open>transaction_state.go\<close> and the reply loops of \<^verbatim>\<open>postgres_handler.go\<close>
  (\<^verbatim>\<open>PeekTransactionState\<close>, \<^verbatim>\<open>Execute\<close>).

  The scanner keeps the source's fields.  Its chunk loop is shown equal to an automaton that
  takes one byte at a time, so where the network splits a reply cannot change what is seen;
  on a reply made of whole messages the automaton ends at the last byte of ReadyForQuery and
  not before.
\<close>

section \<open>How a reply will end\<close>

datatype transaction_state = StateIdle | StateInTransaction | StateError | StatePartial

record response_end =
  OnReadyForQuery :: bool
  Tags :: bytes

definition awaited :: "response_end \<Rightarrow> byte \<Rightarrow> bool" where
  "awaited r tag = (if tag = CHR ''E'' then True else tag \<in> set (Tags r))"

definition terminatorsFor :: "byte \<Rightarrow> byte \<Rightarrow> bytes" where
  "terminatorsFor lastTag describeTarget =
     (if lastTag = CHR ''P'' then ''1''
      else if lastTag = CHR ''B'' then ''2''
      else if lastTag = CHR ''D'' then (if describeTarget = CHR ''S'' then ''Tn'' else ''Tn'')
      else if lastTag = CHR ''E'' then ''CsI''
      else if lastTag = CHR ''C'' then ''3''
      else if lastTag = CHR ''F'' then ''V''
      else [])"

function responseEndLoop :: "byte \<Rightarrow> byte \<Rightarrow> bytes \<Rightarrow> response_end" where
  "responseEndLoop lastTag target request =
     (if length request < 5 then \<lparr>OnReadyForQuery = False, Tags = terminatorsFor lastTag target\<rparr>
      else let tag = hd request; len = be32 (drop 1 request) in
        if len < 4 then \<lparr>OnReadyForQuery = False, Tags = terminatorsFor lastTag target\<rparr>
        else if tag = CHR ''S'' \<or> tag = CHR ''Q'' then \<lparr>OnReadyForQuery = True, Tags = []\<rparr>
        else if tag \<in> set ''PBECF'' then responseEndLoop tag target (drop (1 + len) request)
        else if tag = CHR ''D'' then
          responseEndLoop tag (if 5 < length request then request ! 5 else target) (drop (1 + len) request)
        else responseEndLoop lastTag target (drop (1 + len) request))"
  by pat_completeness auto
termination by (relation "measure (\<lambda>(_, _, r). length r)") auto

declare responseEndLoop.simps [simp del]

definition ResponseEndFor :: "bytes \<Rightarrow> response_end" where
  "ResponseEndFor request = responseEndLoop NUL NUL request"

section \<open>The scanner\<close>

record replyScanner =
  endOf :: response_end
  header :: bytes
  skip :: nat
  wantStatus :: bool
  sawError :: bool
  sawCopyIn :: bool

definition newReplyScanner :: "response_end \<Rightarrow> replyScanner" where
  "newReplyScanner e =
     \<lparr>endOf = e, header = [], skip = 0, wantStatus = False, sawError = False, sawCopyIn = False\<rparr>"

definition transactionStatus :: "byte \<Rightarrow> transaction_state" where
  "transactionStatus b =
     (if b = CHR ''I'' then StateIdle
      else if b = CHR ''T'' \<or> b = CHR ''B'' then StateInTransaction
      else if b = CHR ''E'' then StateError
      else StatePartial)"

text \<open>
  The state after a complete header \<open>h\<close> whose length is at least 4, and whether the reply has
  ended: the part of the loop below its length check.
\<close>

definition enterMessage :: "replyScanner \<Rightarrow> bytes \<Rightarrow> bool \<Rightarrow> replyScanner \<times> bool" where
  "enterMessage s h done =
     (let tag = hd h;
          s1 = s\<lparr>header := [], skip := be32 (drop 1 h) - 4,
                 sawError := (if tag = CHR ''E'' then True else sawError s),
                 sawCopyIn := (if tag = CHR ''G'' then True else sawCopyIn s)\<rparr>
      in if tag = CHR ''Z'' then
           (if 0 < skip s1 then (s1\<lparr>wantStatus := True\<rparr>, done) else (s1, True))
         else if \<not> OnReadyForQuery (endOf s1) \<and> awaited (endOf s1) tag then (s1, True)
         else (s1, done))"

text \<open>
  The loop of \<^verbatim>\<open>feed\<close>.  The last component is set when it returned early on a length that
  frames nothing; the rest of the chunk has then not been looked at.
\<close>

function feedLoop :: "replyScanner \<Rightarrow> bytes \<Rightarrow> bool \<Rightarrow> transaction_state \<Rightarrow>
    replyScanner \<times> bool \<times> transaction_state \<times> bool" where
  "feedLoop s chunk done state =
     (if chunk = [] then (s, done, state, False)
      else if 0 < skip s then
        (let n = min (skip s) (length chunk) in
         if wantStatus s
         then feedLoop (s\<lparr>wantStatus := False, skip := skip s - n\<rparr>) (drop n chunk) True
                (transactionStatus (hd chunk))
         else feedLoop (s\<lparr>skip := skip s - n\<rparr>) (drop n chunk) done state)
      else
        (let n = (if length (header s) < 5 then min (5 - length (header s)) (length chunk) else 0);
             h = header s @ take n chunk
         in if length h < 5 then (s\<lparr>header := h\<rparr>, done, state, False)
            else if be32 (drop 1 h) < 4 then (s\<lparr>header := []\<rparr>, True, state, True)
            else feedLoop (fst (enterMessage s h done)) (drop n chunk) (snd (enterMessage s h done)) state))"
  by pat_completeness auto
termination
proof (relation "measure (\<lambda>(s, chunk, _). 2 * length chunk + (if length (header s) < 5 then 0 else 1))",
    goal_cases)
  case (4 s chunk d st n h)
  have "header (fst (enterMessage s h d)) = []" by (simp add: enterMessage_def Let_def)
  with 4 show ?case by (cases "length (header s) < 5") auto
qed (simp_all add: diff_less_mono2)

declare feedLoop.simps [simp del]

definition feed :: "replyScanner \<Rightarrow> bytes \<Rightarrow> replyScanner \<times> bool \<times> transaction_state" where
  "feed s chunk =
     (case feedLoop s chunk False StatePartial of (s', done, state, _) \<Rightarrow> (s', done, state))"

section \<open>Waiting for a reply of Pontus's own\<close>

text \<open>
  A connection's reads, in order: what each returned and whether an error came with it.  A
  list that ends before the loop does is a connection on which the loop is still waiting.
\<close>

type_synonym reads = "(bytes \<times> bool) list"

datatype await_result = AwaitOk | Refused bytes | AwaitReadError | AwaitWaiting

fun awaitLoop :: "replyScanner \<Rightarrow> bytes \<Rightarrow> reads \<Rightarrow> await_result \<times> reads" where
  "awaitLoop scan failure [] = (AwaitWaiting, [])"
| "awaitLoop scan failure ((chunk, err) # rs) =
     (if chunk \<noteq> [] then
        (let failure' = (if failure = [] then errorText chunk else failure);
             (scan', done, _) = feed scan chunk
         in if done then
              (if sawError scan' then (Refused (orUnknown failure'), rs) else (AwaitOk, rs))
            else if err then (AwaitReadError, rs)
            else awaitLoop scan' failure' rs)
      else if err then (AwaitReadError, rs)
      else awaitLoop scan failure rs)"

definition awaitReply :: "reads \<Rightarrow> await_result \<times> reads" where
  "awaitReply rs = awaitLoop (newReplyScanner \<lparr>OnReadyForQuery = True, Tags = []\<rparr>) [] rs"

section \<open>The loops that read a chunk at a time\<close>

function peekLoop :: "bytes \<Rightarrow> transaction_state \<Rightarrow> transaction_state" where
  "peekLoop d state =
     (if d = [] then state
      else if length d < 5 then state
      else let msgType = hd d; len = be32 (drop 1 d);
               state' = (if msgType = CHR ''Z'' \<and> 6 \<le> length d then
                           (if d ! 5 = CHR ''I'' then StateIdle
                            else if d ! 5 = CHR ''T'' \<or> d ! 5 = CHR ''B'' then StateInTransaction
                            else if d ! 5 = CHR ''E'' then StateError
                            else state)
                         else state)
           in peekLoop (drop (1 + len) d) state')"
  by pat_completeness auto
termination by (relation "measure (\<lambda>(d, _). length d)") auto

declare peekLoop.simps [simp del]

definition PeekTransactionState :: "bytes \<Rightarrow> transaction_state" where
  "PeekTransactionState d = peekLoop d StatePartial"

datatype exec_result = ExecOk | ExecError bytes | ExecIOError | ExecWaiting

text \<open>One chunk of \<^verbatim>\<open>Execute\<close>'s reply: a verdict, or \<^const>\<open>None\<close> to read on.\<close>

function executeScan :: "bytes \<Rightarrow> exec_result option" where
  "executeScan b =
     (if b = [] then None
      else if hd b = CHR ''E'' then Some (ExecError b)
      else if hd b = CHR ''Z'' then Some ExecOk
      else if length b < 5 then None
      else executeScan (drop (1 + be32 (drop 1 b)) b))"
  by pat_completeness auto
termination by (relation "measure length") auto

declare executeScan.simps [simp del]

fun executeReply :: "reads \<Rightarrow> exec_result \<times> reads" where
  "executeReply [] = (ExecWaiting, [])"
| "executeReply ((chunk, err) # rs) =
     (if err then (ExecIOError, rs)
      else (case executeScan chunk of Some r \<Rightarrow> (r, rs) | None \<Rightarrow> executeReply rs))"

text \<open>
  \<^verbatim>\<open>Execute\<close> on a connection whose write succeeds or fails (\<open>writable\<close>) and whose reads are
  \<open>rs\<close>: what it wrote, its result, and the reads it left.
\<close>

definition Execute :: "bool \<Rightarrow> reads \<Rightarrow> bytes \<Rightarrow> bytes \<times> exec_result \<times> reads" where
  "Execute writable rs query =
     (if \<not> writable then ([], ExecIOError, rs)
      else (queryMessage query, executeReply rs))"

section \<open>One byte at a time\<close>

type_synonym scan_config = "replyScanner \<times> bool \<times> transaction_state \<times> bool"

text \<open>The scanner as an automaton over single bytes; a malformed length stops it.\<close>

fun scanByte :: "byte \<Rightarrow> scan_config \<Rightarrow> scan_config" where
  "scanByte c (s, done, state, bad) =
     (if bad then (s, done, state, True)
      else if 0 < skip s then
        (if wantStatus s
         then (s\<lparr>wantStatus := False, skip := skip s - 1\<rparr>, True, transactionStatus c, False)
         else (s\<lparr>skip := skip s - 1\<rparr>, done, state, False))
      else (let h = header s @ [c] in
         if length h < 5 then (s\<lparr>header := h\<rparr>, done, state, False)
         else if be32 (drop 1 h) < 4 then (s\<lparr>header := []\<rparr>, True, state, True)
         else (fst (enterMessage s h done), snd (enterMessage s h done), state, False)))"

abbreviation scanBytes :: "bytes \<Rightarrow> scan_config \<Rightarrow> scan_config" where
  "scanBytes \<equiv> fold scanByte"

lemma scanBytes_skip:
  "\<not> wantStatus s \<Longrightarrow> length xs \<le> skip s \<Longrightarrow>
     scanBytes xs (s, d, st, False) = (s\<lparr>skip := skip s - length xs\<rparr>, d, st, False)"
  by (induction xs arbitrary: s) auto

lemma scanBytes_header:
  "skip s = 0 \<Longrightarrow> length (header s) + length xs < 5 \<Longrightarrow>
     scanBytes xs (s, d, st, False) = (s\<lparr>header := header s @ xs\<rparr>, d, st, False)"
  by (induction xs arbitrary: s) (auto simp: Let_def)

lemma scanBytes_bad: "scanBytes xs (s, d, st, True) = (s, d, st, True)"
  by (induction xs) auto

lemma scanBytes_complete:
  assumes "skip s = 0" "length (header s @ xs) = 5" "xs \<noteq> []"
  shows "scanBytes xs (s, d, st, False) =
     (let h = header s @ xs in
      if be32 (drop 1 h) < 4 then (s\<lparr>header := []\<rparr>, True, st, True)
      else (fst (enterMessage s h d), snd (enterMessage s h d), st, False))"
proof -
  obtain ys y where xs: "xs = ys @ [y]" using assms(3) by (cases xs rule: rev_cases) auto
  have e: "enterMessage (s\<lparr>header := h'\<rparr>) h d = enterMessage s h d" for h' h
    by (simp add: enterMessage_def Let_def)
  have "scanBytes ys (s, d, st, False) = (s\<lparr>header := header s @ ys\<rparr>, d, st, False)"
    using assms xs by (intro scanBytes_header) auto
  then show ?thesis using assms xs by (simp add: Let_def e)
qed

lemma enterMessage_header: "header (fst (enterMessage s h d)) = []"
  by (simp add: enterMessage_def Let_def)

lemma scanBytes_split: "n \<le> length xs \<Longrightarrow> scanBytes xs x = scanBytes (drop n xs) (scanBytes (take n xs) x)"
  by (metis append_take_drop_id comp_def fold_append)

lemma feedLoop_skip:
  assumes "chunk \<noteq> []" "0 < skip s"
  defines "n \<equiv> min (skip s) (length chunk)"
  defines "s' \<equiv> s\<lparr>wantStatus := False, skip := skip s - n\<rparr>"
  shows "feedLoop s chunk d st =
      (if wantStatus s then feedLoop s' (drop n chunk) True (transactionStatus (hd chunk))
       else feedLoop (s\<lparr>skip := skip s - n\<rparr>) (drop n chunk) d st)"
    and "scanBytes chunk (s, d, st, False) =
      (if wantStatus s then scanBytes (drop n chunk) (s', True, transactionStatus (hd chunk), False)
       else scanBytes (drop n chunk) (s\<lparr>skip := skip s - n\<rparr>, d, st, False))"
proof -
  show "feedLoop s chunk d st =
      (if wantStatus s then feedLoop s' (drop n chunk) True (transactionStatus (hd chunk))
       else feedLoop (s\<lparr>skip := skip s - n\<rparr>) (drop n chunk) d st)"
    using assms(1,2) unfolding n_def s'_def by (subst feedLoop.simps) (simp add: Let_def)
  have l: "0 < n" "n \<le> length chunk" "n \<le> skip s" unfolding n_def using assms(1,2) by (cases chunk, auto)
  have t: "take n chunk = hd chunk # take (n - 1) (tl chunk)"
    using l(1) assms(1) by (cases chunk; cases n) simp_all
  have k: "length (take (n - 1) (tl chunk)) = n - 1" using l by simp
  have "scanBytes (take n chunk) (s, d, st, False) =
      (if wantStatus s then (s', True, transactionStatus (hd chunk), False)
       else (s\<lparr>skip := skip s - n\<rparr>, d, st, False))"
    unfolding t using assms(2) l k by (simp add: scanBytes_skip s'_def del: length_take)
  then show "scanBytes chunk (s, d, st, False) =
      (if wantStatus s then scanBytes (drop n chunk) (s', True, transactionStatus (hd chunk), False)
       else scanBytes (drop n chunk) (s\<lparr>skip := skip s - n\<rparr>, d, st, False))"
    using scanBytes_split [of n chunk] by (simp add: n_def)
qed

lemma feedLoop_scanBytes:
  "length (header s) < 5 \<Longrightarrow>
     feedLoop s chunk d st = scanBytes chunk (s, d, st, False) \<and>
     length (header (fst (feedLoop s chunk d st))) < 5"
proof (induction s chunk d st rule: feedLoop.induct)
  case (1 s chunk d st)
  consider (nil) "chunk = []" | (skip) "chunk \<noteq> []" "0 < skip s" | (hd) "chunk \<noteq> []" "skip s = 0"
    by auto
  then show ?case
  proof cases
    case nil
    with 1 show ?thesis by (simp add: feedLoop.simps)
  next
    case skip
    then show ?thesis
      unfolding feedLoop_skip [OF skip, of d st] using "1.IH"(1,2) [OF skip refl] "1.prems"
      by (cases "wantStatus s"; clarsimp)
  next
    case hd
    define n where "n = min (5 - length (header s)) (length chunk)"
    define h where "h = header s @ take n chunk"
    define e where "e = enterMessage s h d"
    have u: "feedLoop s chunk d st =
        (if length h < 5 then (s\<lparr>header := h\<rparr>, d, st, False)
         else if be32 (drop 1 h) < 4 then (s\<lparr>header := []\<rparr>, True, st, True)
         else feedLoop (fst e) (drop n chunk) (snd e) st)"
      using hd "1.prems" unfolding e_def h_def n_def
      by (subst feedLoop.simps) (simp add: Let_def del: length_append)
    have n: "n = (if length (header s) < 5 then min (5 - length (header s)) (length chunk) else 0)"
      using "1.prems" by (simp add: n_def)
    have ih: "\<not> length h < 5 \<Longrightarrow> \<not> be32 (drop 1 h) < 4 \<Longrightarrow>
        feedLoop (fst e) (drop n chunk) (snd e) st = scanBytes (drop n chunk) (fst e, snd e, st, False) \<and>
        length (header (fst (feedLoop (fst e) (drop n chunk) (snd e) st))) < 5"
      unfolding e_def by (rule "1.IH"(3) [OF hd(1) _ n h_def]) (simp_all add: hd(2) enterMessage_header)
    have split: "scanBytes chunk (s, d, st, False) =
        scanBytes (drop n chunk) (scanBytes (take n chunk) (s, d, st, False))"
      by (rule scanBytes_split) (simp add: n_def)
    show ?thesis
    proof (cases "length h < 5")
      case True
      then have "take n chunk = chunk" using "1.prems" by (auto simp: h_def n_def)
      with True hd show ?thesis unfolding u by (simp add: scanBytes_header h_def)
    next
      case False
      then have "length h = 5" "take n chunk \<noteq> []" using "1.prems" hd by (auto simp: h_def n_def)
      then have "scanBytes (take n chunk) (s, d, st, False) =
          (if be32 (drop 1 h) < 4 then (s\<lparr>header := []\<rparr>, True, st, True) else (fst e, snd e, st, False))"
        using scanBytes_complete [OF hd(2), of "take n chunk"] by (simp add: Let_def h_def e_def)
      with False ih split show ?thesis
        unfolding u by (cases "be32 (drop 1 h) < 4"; clarsimp simp: scanBytes_bad)
    qed
  qed
qed

section \<open>Whole messages\<close>

abbreviation encode :: "(byte \<times> bytes) list \<Rightarrow> bytes" where
  "encode ms \<equiv> concat (map (\<lambda>(t, b). writeTagged t b) ms)"

abbreviation framable :: "(byte \<times> bytes) list \<Rightarrow> bool" where
  "framable ms \<equiv> list_all (\<lambda>(t, b). length b + 4 < 2 ^ 32) ms"

lemma tagged_view [wire_simps]:
  "hd (writeTagged t b @ r) = t"
  "\<not> length (writeTagged t b @ r) < 5"
  "length b + 4 < 2 ^ 32 \<Longrightarrow> be32 (drop 1 (writeTagged t b @ r)) = length b + 4"
  "drop (1 + (length b + 4)) (writeTagged t b @ r) = r"
  by (simp add: writeTagged_Cons, simp, simp add: writeTagged_Cons, simp)

lemma tagged_next:
  "length b + 4 < 2 ^ 32 \<Longrightarrow> drop (1 + be32 (drop 1 (writeTagged t b @ r))) (writeTagged t b @ r) = r"
  by (simp only: tagged_view)

definition idle :: "replyScanner \<Rightarrow> bool" where
  "idle s = (header s = [] \<and> skip s = 0 \<and> \<not> wantStatus s)"

definition noteTag :: "byte \<Rightarrow> replyScanner \<Rightarrow> replyScanner" where
  "noteTag t s = s\<lparr>sawError := (t = CHR ''E'' \<or> sawError s), sawCopyIn := (t = CHR ''G'' \<or> sawCopyIn s)\<rparr>"

definition endsAt :: "response_end \<Rightarrow> byte \<Rightarrow> bool" where
  "endsAt e t = (t = CHR ''Z'' \<or> \<not> OnReadyForQuery e \<and> awaited e t)"

definition statusAfter :: "byte \<times> bytes \<Rightarrow> transaction_state \<Rightarrow> transaction_state" where
  "statusAfter m st = (if fst m = CHR ''Z'' \<and> snd m \<noteq> [] then transactionStatus (hd (snd m)) else st)"

lemma noteTag_fields [simp]:
  "idle (noteTag t s) = idle s" "endOf (noteTag t s) = endOf s" "header (noteTag t s) = header s"
  by (simp_all add: noteTag_def idle_def)

lemma scanBytes_body:
  assumes "skip s = length b" "wantStatus s \<Longrightarrow> b \<noteq> []"
  shows "scanBytes b (s, d, st, False) =
    (s\<lparr>skip := 0, wantStatus := False\<rparr>, d \<or> wantStatus s,
     if wantStatus s then transactionStatus (hd b) else st, False)"
proof (cases "wantStatus s")
  case True
  with assms obtain c r where "b = c # r" by (cases b) auto
  with True assms show ?thesis by (simp add: scanBytes_skip)
next
  case False
  then have "s\<lparr>skip := 0, wantStatus := False\<rparr> = s\<lparr>skip := 0\<rparr>" by (cases s) simp
  with False assms show ?thesis by (simp add: scanBytes_skip)
qed

lemma scanBytes_message:
  assumes "idle s" "length b + 4 < 2 ^ 32"
  shows "scanBytes (writeTagged t b) (s, d, st, False) =
    (noteTag t s, d \<or> endsAt (endOf s) t, statusAfter (t, b) st, False)"
proof -
  let ?h = "t # put32 (length b + 4)"
  have w: "writeTagged t b = ?h @ b" by (simp add: writeTagged_Cons)
  have l: "be32 (drop 1 ?h) = length b + 4" using assms by simp
  have "scanBytes ?h (s, d, st, False) = (fst (enterMessage s ?h d), snd (enterMessage s ?h d), st, False)"
    using scanBytes_complete [of s ?h d st] assms l by (simp add: idle_def Let_def)
  moreover define s1 where "s1 = (noteTag t s)\<lparr>skip := length b, wantStatus := (t = CHR ''Z'' \<and> b \<noteq> [])\<rparr>"
  moreover have "enterMessage s ?h d =
      (s1, d \<or> (endsAt (endOf s) t \<and> \<not> (t = CHR ''Z'' \<and> b \<noteq> [])))"
    using assms l by (cases s) (auto simp: s1_def enterMessage_def noteTag_def endsAt_def idle_def Let_def)
  moreover have "s1\<lparr>skip := 0, wantStatus := False\<rparr> = noteTag t s"
    using assms by (cases s) (auto simp: s1_def noteTag_def idle_def)
  moreover have "skip s1 = length b" "wantStatus s1 \<longleftrightarrow> t = CHR ''Z'' \<and> b \<noteq> []" by (simp_all add: s1_def)
  ultimately show ?thesis
    unfolding w fold_append comp_def
    using scanBytes_body [of s1 b "snd (enterMessage s ?h d)" st]
    by (auto simp: statusAfter_def endsAt_def simp del: fold_simps)
qed

lemma scanBytes_messages:
  "idle s \<Longrightarrow> framable ms \<Longrightarrow>
     scanBytes (encode ms) (s, d, st, False) =
       (fold noteTag (map fst ms) s, d \<or> (\<exists>t\<in>set (map fst ms). endsAt (endOf s) t), fold statusAfter ms st, False)"
proof (induction ms arbitrary: s d st)
  case (Cons m ms)
  obtain t b where "m = (t, b)" by (cases m)
  with Cons show ?case by (auto simp: scanBytes_message)
qed simp

lemma fold_noteTag: 
  "sawError (fold noteTag ts s) = (CHR ''E'' \<in> set ts \<or> sawError s)"
  "idle (fold noteTag ts s) = idle s" "endOf (fold noteTag ts s) = endOf s"
  by (induction ts arbitrary: s) (auto simp: noteTag_def idle_def)

lemma newReplyScanner_simps [simp]:
  "idle (newReplyScanner e)" "endOf (newReplyScanner e) = e" "\<not> sawError (newReplyScanner e)"
  "header (newReplyScanner e) = []"
  by (simp_all add: newReplyScanner_def idle_def)

section \<open>Replies in chunks\<close>

abbreviation scanned :: "response_end \<Rightarrow> bytes \<Rightarrow> scan_config" where
  "scanned e p \<equiv> scanBytes p (newReplyScanner e, False, StatePartial, False)"

lemma scanned_header: "scanned e p = (s, d, st, b) \<Longrightarrow> length (header s) < 5"
  using feedLoop_scanBytes [of "newReplyScanner e" p False StatePartial] by clarsimp

lemma feed_scanned:
  assumes "scanned e p = (s, False, StatePartial, False)" "scanned e (p @ chunk) = (s', d, st, b)"
  shows "feed s chunk = (s', d, st)"
  using feedLoop_scanBytes [OF scanned_header [OF assms(1)], of chunk False StatePartial] assms
  by (simp add: feed_def)

lemma scanBytes_live:
  "scanBytes xs (s, d, st, b) = (s', False, st', False) \<Longrightarrow> \<not> d \<and> \<not> b \<and> st = st'"
proof (induction xs arbitrary: s d st b)
  case (Cons x xs)
  obtain s1 d1 st1 b1 where x: "scanByte x (s, d, st, b) = (s1, d1, st1, b1)" by (metis prod_cases4)
  with Cons have "\<not> d1 \<and> \<not> b1 \<and> st1 = st'" by (metis comp_apply fold_Cons)
  with x show ?case
    by (auto simp: Let_def enterMessage_def split: if_splits)
qed simp

text \<open>
  A complete reply: messages none of which ends it, then the ReadyForQuery that does.  Cut
  anywhere before its last byte, the scanner has seen no end; at its last byte it has.
\<close>

definition reply_of :: "(byte \<times> bytes) list \<Rightarrow> byte \<Rightarrow> bytes" where
  "reply_of ms c = encode ms @ writeTagged CHR ''Z'' [c]"

abbreviation untilReady :: response_end where
  "untilReady \<equiv> \<lparr>OnReadyForQuery = True, Tags = []\<rparr>"

lemma scanned_reply:
  assumes "framable ms" "CHR ''Z'' \<notin> set (map fst ms)"
  shows "\<exists>s. scanned untilReady (reply_of ms c) = (s, True, transactionStatus c, False) \<and>
      (sawError s \<longleftrightarrow> CHR ''E'' \<in> set (map fst ms))"
  using scanBytes_messages [of "newReplyScanner untilReady" "ms @ [(CHR ''Z'', [c])]" False StatePartial] assms
  by (auto simp: reply_of_def endsAt_def statusAfter_def fold_noteTag noteTag_def)

lemma scanned_part:
  assumes "framable ms" "CHR ''Z'' \<notin> set (map fst ms)" "reply_of ms c = p @ q" "q \<noteq> []"
  shows "\<exists>s. scanned untilReady p = (s, False, StatePartial, False)"
proof -
  have z: "CHR ''Z'' # put32 5 = butlast (writeTagged CHR ''Z'' [c])"
    by (simp add: writeTagged_Cons butlast_append)
  have "fold statusAfter ms StatePartial = StatePartial"
    using assms(2) by (induction ms) (auto simp: statusAfter_def)
  then have m: "scanned untilReady (encode ms) = (fold noteTag (map fst ms) (newReplyScanner untilReady), False, StatePartial, False)"
    using scanBytes_messages [of "newReplyScanner untilReady" ms False StatePartial] assms(1,2)
    by (auto simp: endsAt_def)
  have i: "idle (fold noteTag (map fst ms) (newReplyScanner untilReady))" by (simp add: fold_noteTag)
  have "\<exists>s. scanned untilReady (encode ms @ CHR ''Z'' # put32 5) = (s, False, StatePartial, False)"
    using i scanBytes_complete [of "fold noteTag (map fst ms) (newReplyScanner untilReady)" "CHR ''Z'' # put32 5" False StatePartial]
    by (simp add: m idle_def Let_def enterMessage_def)
  moreover have "encode ms @ CHR ''Z'' # put32 5 = p @ butlast q"
  proof -
    have "butlast (reply_of ms c) = butlast (p @ q)" by (simp only: assms(3))
    with assms(4) show ?thesis by (simp add: reply_of_def butlast_append z)
  qed
  ultimately obtain s where s: "scanBytes (butlast q) (scanned untilReady p) = (s, False, StatePartial, False)"
    by auto
  obtain s1 d1 st1 b1 where "scanned untilReady p = (s1, d1, st1, b1)" by (metis prod_cases4)
  with s scanBytes_live show ?thesis by metis
qed

text \<open>One read's chunk, in the middle of a reply or at its end.\<close>

lemma feed_chunk:
  assumes "framable ms" "CHR ''Z'' \<notin> set (map fst ms)" "reply_of ms c = p @ chunk @ q"
    "scanned untilReady p = (s, False, StatePartial, False)"
  obtains s' where "scanned untilReady (p @ chunk) = (s', q = [], if q = [] then transactionStatus c else StatePartial, False)"
    "feed s chunk = (s', q = [], if q = [] then transactionStatus c else StatePartial)"
    "q = [] \<Longrightarrow> sawError s' \<longleftrightarrow> CHR ''E'' \<in> set (map fst ms)"
proof (cases "q = []")
  case True
  with scanned_reply [OF assms(1,2), of c] assms(3) obtain s' where
    s': "scanned untilReady (p @ chunk) = (s', True, transactionStatus c, False)"
    "sawError s' \<longleftrightarrow> CHR ''E'' \<in> set (map fst ms)" by auto
  with that [of s'] feed_scanned [OF assms(4) s'(1)] True show thesis by simp
next
  case False
  with scanned_part [OF assms(1,2), of c "p @ chunk" q] assms(3) obtain s' where
    s': "scanned untilReady (p @ chunk) = (s', False, StatePartial, False)" by auto
  with that [of s'] feed_scanned [OF assms(4) s'] False show thesis by simp
qed

abbreviation clean_reads :: "bytes list \<Rightarrow> reads" where
  "clean_reads cs \<equiv> map (\<lambda>c. (c, False)) cs"

lemma awaitLoop_reply:
  assumes "framable ms" "CHR ''Z'' \<notin> set (map fst ms)"
  shows "reply_of ms c = p @ concat cs \<Longrightarrow> cs \<noteq> [] \<Longrightarrow> [] \<notin> set cs \<Longrightarrow>
    scanned untilReady p = (s, False, StatePartial, False) \<Longrightarrow>
    \<exists>txt. awaitLoop s failure (clean_reads cs @ rest) =
      (if CHR ''E'' \<in> set (map fst ms) then Refused txt else AwaitOk, rest)"
proof (induction cs arbitrary: p s failure)
  case (Cons chunk cs)
  define q where "q = concat cs"
  have q: "q = [] \<longleftrightarrow> cs = []" "chunk \<noteq> []" using Cons.prems by (cases cs, auto simp: q_def)
  obtain s' where s': "scanned untilReady (p @ chunk) =
      (s', q = [], if q = [] then transactionStatus c else StatePartial, False)"
    "feed s chunk = (s', q = [], if q = [] then transactionStatus c else StatePartial)"
    "q = [] \<Longrightarrow> sawError s' \<longleftrightarrow> CHR ''E'' \<in> set (map fst ms)"
    using feed_chunk [OF assms, of c p chunk q s] Cons.prems by (auto simp: q_def)
  show ?case
  proof (cases "cs = []")
    case True
    with s' q show ?thesis by (simp add: Let_def)
  next
    case False
    with s' q have u: "scanned untilReady (p @ chunk) = (s', False, StatePartial, False)"
      "feed s chunk = (s', False, StatePartial)" by simp_all
    have "reply_of ms c = (p @ chunk) @ concat cs" "[] \<notin> set cs" using Cons.prems by simp_all
    from Cons.IH [OF this(1) False this(2) u(1), of "if failure = [] then errorText chunk else failure"] u(2) q(2)
    show ?thesis by (simp only: list.map append_Cons awaitLoop.simps) (simp add: Let_def)
  qed
qed simp

lemma awaitReply_reply:
  assumes "framable ms" "CHR ''Z'' \<notin> set (map fst ms)" "concat cs = reply_of ms c" "[] \<notin> set cs"
  shows "\<exists>txt. awaitReply (clean_reads cs @ rest) =
      (if CHR ''E'' \<in> set (map fst ms) then Refused txt else AwaitOk, rest)"
proof -
  have "cs \<noteq> []" using assms(3) by (auto simp: reply_of_def)
  then show ?thesis
    using awaitLoop_reply [OF assms(1,2), of c "[]" cs "newReplyScanner untilReady"] assms(3,4)
    by (simp add: awaitReply_def)
qed

text \<open>
  C24.  Waiting for the answer to a statement Pontus sent itself: however the network cuts the
  backend's reply into reads, \<^verbatim>\<open>awaitReply\<close> returns, takes exactly the reply (up to and
  including ReadyForQuery) off the connection, and reports success exactly when the reply
  holds no ErrorResponse.  A refused SET is never taken for a replayed one, and row data that
  happens to contain the byte of a tag changes nothing.
\<close>

theorem awaitReply_exact:
  assumes "framable ms" "CHR ''Z'' \<notin> set (map fst ms)" "concat cs = reply_of ms c" "[] \<notin> set cs"
  shows "snd (awaitReply (clean_reads cs @ rest)) = rest \<and>
    (fst (awaitReply (clean_reads cs @ rest)) = AwaitOk \<longleftrightarrow> CHR ''E'' \<notin> set (map fst ms)) \<and>
    ((\<exists>txt. fst (awaitReply (clean_reads cs @ rest)) = Refused txt) \<longleftrightarrow> CHR ''E'' \<in> set (map fst ms))"
  using awaitReply_reply [OF assms, of rest] by (cases "CHR ''E'' \<in> set (map fst ms)") auto

theorem awaitReply_exact_witness:
  "let ms = [(CHR ''C'', ''SEZT'')]; cs = [[CHR ''C'', NUL], [NUL, NUL, CHR 0x08, CHR ''S''], ''EZ'',
       ''TZ'' @ put32 5, ''I'']
   in concat cs = reply_of ms CHR ''I'' \<and> fst (awaitReply (clean_reads cs @ [])) = AwaitOk"
proof -
  let ?cs = "[[CHR ''C'', NUL], [NUL, NUL, CHR 0x08, CHR ''S''], ''EZ'', ''TZ'' @ put32 5, ''I'']"
  have "put32 8 = [NUL, NUL, NUL, CHR 0x08]" using put32_be32 [of "[NUL, NUL, NUL, CHR 0x08]"] by simp
  then have "concat ?cs = reply_of [(CHR ''C'', ''SEZT'')] CHR ''I''"
    by (simp add: reply_of_def writeTagged_Cons)
  with awaitReply_exact [of "[(CHR ''C'', ''SEZT'')]" ?cs "CHR ''I''" "[]"] show ?thesis
    by (simp only: Let_def) simp
qed

lemma responseEndLoop_message:
  assumes "length b + 4 < 2 ^ 32"
  shows "responseEndLoop l g (writeTagged t b @ r) =
    (if t = CHR ''S'' \<or> t = CHR ''Q'' then \<lparr>OnReadyForQuery = True, Tags = []\<rparr>
     else responseEndLoop (if t \<in> set ''PBECF'' \<or> t = CHR ''D'' then t else l)
       (if t = CHR ''D'' \<and> 5 < length (writeTagged t b @ r) then (writeTagged t b @ r) ! 5 else g) r)"
  unfolding responseEndLoop.simps [of l g "writeTagged t b @ r"] using assms
  by (simp only: tagged_view Let_def if_False) simp

lemma terminatorsFor_target: "terminatorsFor t g = terminatorsFor t g'"
  by (simp add: terminatorsFor_def)

lemma responseEndLoop_messages:
  "framable ms \<Longrightarrow> responseEndLoop l g (encode ms) =
     (if \<exists>t\<in>set (map fst ms). t = CHR ''S'' \<or> t = CHR ''Q'' then \<lparr>OnReadyForQuery = True, Tags = []\<rparr>
      else \<lparr>OnReadyForQuery = False,
             Tags = terminatorsFor (last (l # filter (\<lambda>t. t \<in> set ''PBDECF'') (map fst ms))) NUL\<rparr>)"
proof (induction ms arbitrary: l g)
  case Nil
  show ?case by (simp add: responseEndLoop.simps terminatorsFor_target [of l g NUL])
next
  case (Cons m ms)
  obtain t b where "m = (t, b)" by (cases m)
  with Cons show ?case by (auto simp: responseEndLoop_message)
qed



lemma peekLoop_message:
  assumes "length b + 4 < 2 ^ 32" "t = CHR ''Z'' \<Longrightarrow> \<exists>c\<in>set ''ITBE''. b = [c]"
  shows "peekLoop (writeTagged t b @ r) st = peekLoop r (statusAfter (t, b) st)"
proof -
  define X where "X = writeTagged t b @ r"
  have X: "hd X = t" "\<not> length X < 5" "drop (1 + be32 (drop 1 X)) X = r"
    unfolding X_def by (rule tagged_view(1) tagged_view(2) tagged_next [OF assms(1)])+
  have "t = CHR ''Z'' \<Longrightarrow> 6 \<le> length X \<and> X ! 5 = hd b \<and> b \<noteq> []"
    using assms(2) by (auto simp: X_def writeTagged_Cons nth_append)
  moreover have "t = CHR ''Z'' \<Longrightarrow> hd b \<in> set ''ITBE''" using assms(2) by auto
  ultimately show ?thesis
    unfolding X_def [symmetric] peekLoop.simps [of X] using X
    by (cases "X = []"; cases "t = CHR ''Z''") (auto simp: Let_def statusAfter_def transactionStatus_def)
qed

lemma peekLoop_messages:
  "framable ms \<Longrightarrow> \<forall>(t, b)\<in>set ms. t = CHR ''Z'' \<longrightarrow> (\<exists>c\<in>set ''ITBE''. b = [c]) \<Longrightarrow>
     peekLoop (encode ms) st = fold statusAfter ms st"
proof (induction ms arbitrary: st)
  case (Cons m ms)
  obtain t b where "m = (t, b)" by (cases m)
  with Cons show ?case using peekLoop_message [of b t "encode ms" st] by auto
qed (simp add: peekLoop.simps)

text \<open>
  The two ways of learning the transaction status agree: on any sequence of whole backend
  messages whose ReadyForQuery messages carry a status PostgreSQL defines,
  \<^verbatim>\<open>PeekTransactionState\<close> (which the cache uses) and the reply scanner (which the gateway uses)
  report the same state.
\<close>

theorem peek_agrees_with_scanner:
  assumes "framable ms" "\<forall>(t, b)\<in>set ms. t = CHR ''Z'' \<longrightarrow> (\<exists>c\<in>set ''ITBE''. b = [c])"
  shows "PeekTransactionState (encode ms) = snd (snd (feed (newReplyScanner e) (encode ms)))"
  using peekLoop_messages [OF assms, of StatePartial] scanBytes_messages [of "newReplyScanner e" ms] assms(1)
    feedLoop_scanBytes [of "newReplyScanner e" "encode ms" False StatePartial]
  by (auto simp: PeekTransactionState_def feed_def)

theorem peek_agrees_with_scanner_witness:
  "PeekTransactionState (encode [(CHR ''D'', ''Z''), (CHR ''Z'', ''T'')]) =
     snd (snd (feed (newReplyScanner untilReady) (encode [(CHR ''D'', ''Z''), (CHR ''Z'', ''T'')])))"
  by (rule peek_agrees_with_scanner) simp_all

lemma executeScan_message:
  "length b + 4 < 2 ^ 32 \<Longrightarrow> executeScan (writeTagged t b @ r) =
     (if t = CHR ''E'' then Some (ExecError (writeTagged t b @ r))
      else if t = CHR ''Z'' then Some ExecOk else executeScan r)"
  unfolding executeScan.simps [of "writeTagged t b @ r"] by (simp only: tagged_view tagged_next) simp

lemma executeScan_reply:
  "framable ms \<Longrightarrow> CHR ''Z'' \<notin> set (map fst ms) \<Longrightarrow>
     (CHR ''E'' \<notin> set (map fst ms) \<longrightarrow> executeScan (reply_of ms c) = Some ExecOk) \<and>
     (CHR ''E'' \<in> set (map fst ms) \<longrightarrow> (\<exists>e. executeScan (reply_of ms c) = Some (ExecError e)))"
proof (induction ms)
  case Nil
  show ?case using executeScan_message [of "[c]" "CHR ''Z''" "[]"] by (simp add: reply_of_def)
next
  case (Cons m ms)
  obtain t b where "m = (t, b)" by (cases m)
  with Cons show ?case using executeScan_message [of b t "reply_of ms c"] by (auto simp: reply_of_def)
qed

text \<open>
  A health check's statement: when the backend's whole reply arrives in one read,
  \<^verbatim>\<open>Execute\<close> sends one simple-query message and succeeds exactly when the reply holds no
  ErrorResponse, leaving later reads alone.
\<close>

theorem Execute_whole_reply:
  assumes "framable ms" "CHR ''Z'' \<notin> set (map fst ms)"
  shows "fst (Execute True ((reply_of ms c, False) # rest) q) = queryMessage q \<and>
    snd (snd (Execute True ((reply_of ms c, False) # rest) q)) = rest \<and>
    (fst (snd (Execute True ((reply_of ms c, False) # rest) q)) = ExecOk \<longleftrightarrow> CHR ''E'' \<notin> set (map fst ms))"
  using executeScan_reply [OF assms, of c] by (cases "CHR ''E'' \<in> set (map fst ms)") (auto simp: Execute_def)

theorem Execute_whole_reply_witness:
  "fst (snd (Execute True [(reply_of [(CHR ''C'', ''SELECT 1'')] CHR ''I'', False)] ''SELECT 1'')) = ExecOk"
  using Execute_whole_reply [of "[(CHR ''C'', ''SELECT 1'')]" "CHR ''I''" "[]" "''SELECT 1''"] by simp

text \<open>
  Across two reads \<^verbatim>\<open>Execute\<close> starts again at the first byte of the second, whatever message it
  is in: a successful reply cut after the S of its \<^verbatim>\<open>SELECT 1\<close> tag is reported as an error.
\<close>

lemma Execute_split_reply:
  "concat [CHR ''C'' # put32 13 @ ''S'', ''ELECT 1'' @ [NUL] @ writeTagged CHR ''Z'' ''I''] =
     reply_of [(CHR ''C'', ''SELECT 1'' @ [NUL])] CHR ''I''"
  "fst (snd (Execute True (clean_reads [CHR ''C'' # put32 13 @ ''S'',
      ''ELECT 1'' @ [NUL] @ writeTagged CHR ''Z'' ''I'']) ''SELECT 1'')) \<noteq> ExecOk"
proof -
  show "concat [CHR ''C'' # put32 13 @ ''S'', ''ELECT 1'' @ [NUL] @ writeTagged CHR ''Z'' ''I''] =
     reply_of [(CHR ''C'', ''SELECT 1'' @ [NUL])] CHR ''I''"
    by (simp add: reply_of_def writeTagged_Cons)
  have "executeScan (CHR ''C'' # put32 13 @ ''S'') = None"
    by (subst executeScan.simps) (simp add: executeScan.simps)
  then show "fst (snd (Execute True (clean_reads [CHR ''C'' # put32 13 @ ''S'',
      ''ELECT 1'' @ [NUL] @ writeTagged CHR ''Z'' ''I'']) ''SELECT 1'')) \<noteq> ExecOk"
    by (simp add: Execute_def executeScan.simps [of "CHR ''E'' # _"])
qed

end
