(* ===== verification/Tables.thy ===== *)
theory Tables
  imports Prelude "HOL-Library.AList"
begin

text \<open>
  Go maps that the sources keep below a bound: association lists with distinct keys, a
  maximal length, and entries that are all good in some sense.
\<close>

text \<open>An association list with distinct keys, at most \<open>n\<close> entries, all of them \<open>good\<close>.\<close>

definition table_ok :: "nat \<Rightarrow> ('k \<times> 'v \<Rightarrow> bool) \<Rightarrow> ('k \<times> 'v) list \<Rightarrow> bool" where
  "table_ok n good t = (distinct (map fst t) \<and> length t \<le> n \<and> list_all good t)"

lemma length_update:
  "length (AList.update k v t) = (if map_of t k = None then Suc (length t) else length t)"
  by (induction t) auto

lemma set_update_subset: "set (AList.update k v t) \<subseteq> insert (k, v) (set t)"
  by (induction t) auto

lemma table_ok_update:
  assumes "table_ok n good t" "good (k, v)" "\<not> (map_of t k = None \<and> n \<le> length t)"
  shows "table_ok n good (AList.update k v t)"
  using assms set_update_subset [of k v t]
  by (auto simp: table_ok_def length_update distinct_update list_all_iff split: if_splits)

lemma table_ok_delete: "table_ok n good t \<Longrightarrow> table_ok n good (AList.delete k t)"
  unfolding table_ok_def
  by (auto simp: distinct_map_filter list_all_iff AList.delete_eq intro: le_trans [OF length_filter_le])

lemma map_of_fold_update:
  "map_of (fold (\<lambda>(k, v). AList.update k v) es t) = map_of t ++ map_of (rev es)"
proof (induction es arbitrary: t)
  case (Cons e es)
  obtain k v where "e = (k, v)" by (cases e)
  moreover have "(map_of t)(k \<mapsto> v) = map_of t ++ [k \<mapsto> v]" by simp
  ultimately show ?case using Cons
    by (simp only: fold_simps prod.case rev.simps map_of_append map_of.simps update_conv' fst_conv snd_conv
        map_add_assoc)
qed simp

lemma table_ok_order:
  assumes "table_ok n good t" "set es = set t" "distinct (map fst es)"
  shows "list_all good es" "length es \<le> n" "map_of (rev es) = map_of t"
proof -
  have t: "distinct (map fst t)" "length t \<le> n" "list_all good t" using assms(1) by (auto simp: table_ok_def)
  show "list_all good es" using t assms(2) by (simp add: list_all_iff)
  have "card (set es) = length es" "card (set t) = length t"
    using t assms(3) distinct_card [of es] distinct_card [of t] by (auto simp: distinct_map)
  with t assms(2) show "length es \<le> n" by simp
  show "map_of (rev es) = map_of t"
    using t assms by (intro map_of_inject_set [THEN iffD2]) (auto simp: rev_map [symmetric])
qed

lemma length_delete:
  assumes "k \<in> fst ` set t"
  shows "length (AList.delete k t) < length t"
proof -
  obtain e where "e \<in> set t" "fst e = k" using assms by auto
  then show ?thesis unfolding AList.delete_eq by (intro length_filter_less [of e]) auto
qed

lemma table_ok_filter: "table_ok n good t \<Longrightarrow> table_ok n good (filter P t)"
  unfolding table_ok_def by (auto simp: distinct_map_filter list_all_iff intro: le_trans [OF length_filter_le])

lemma table_ok_mono: "table_ok n good t \<Longrightarrow> (\<And>e. good e \<Longrightarrow> good' e) \<Longrightarrow> table_ok n good' t"
  by (auto simp: table_ok_def list_all_iff)

end
