(* ===== verification/GoText.thy ===== *)
theory GoText
  imports PinDetect
begin

text \<open>
  The two functions of Go's \<^verbatim>\<open>strings\<close> package that settings and startup parameters go
  through, on UTF-8 bytes.

  \<^verbatim>\<open>TrimSpace\<close> removes the characters with the White_Space property, whose encodings are
  listed.  \<^verbatim>\<open>ToLower\<close> is exact for comparison with an ASCII literal: outside ASCII only two
  characters have an ASCII lower case (capital I with dot above and the kelvin sign), and
  every other one stays outside ASCII, where no literal of the sources is.
\<close>

definition spaceEncodings :: "bytes list" where
  "spaceEncodings =
     [[CHR 0x09], [CHR 0x0A], [CHR 0x0B], [CHR 0x0C], [CHR 0x0D], [CHR 0x20],
      [CHR 0xC2, CHR 0x85], [CHR 0xC2, CHR 0xA0], [CHR 0xE1, CHR 0x9A, CHR 0x80],
      [CHR 0xE2, CHR 0x80, CHR 0x80], [CHR 0xE2, CHR 0x80, CHR 0x81], [CHR 0xE2, CHR 0x80, CHR 0x82],
      [CHR 0xE2, CHR 0x80, CHR 0x83], [CHR 0xE2, CHR 0x80, CHR 0x84], [CHR 0xE2, CHR 0x80, CHR 0x85],
      [CHR 0xE2, CHR 0x80, CHR 0x86], [CHR 0xE2, CHR 0x80, CHR 0x87], [CHR 0xE2, CHR 0x80, CHR 0x88],
      [CHR 0xE2, CHR 0x80, CHR 0x89], [CHR 0xE2, CHR 0x80, CHR 0x8A], [CHR 0xE2, CHR 0x80, CHR 0xA8],
      [CHR 0xE2, CHR 0x80, CHR 0xA9], [CHR 0xE2, CHR 0x80, CHR 0xAF], [CHR 0xE2, CHR 0x81, CHR 0x9F],
      [CHR 0xE3, CHR 0x80, CHR 0x80]]"

text \<open>Remove leading encodings of a list, as often as one stands at the front.\<close>

definition leading :: "bytes list \<Rightarrow> bytes \<Rightarrow> nat" where
  "leading encs s = (case filter (\<lambda>e. take (length e) s = e) encs of e # _ \<Rightarrow> length e | [] \<Rightarrow> 0)"

function trimLeading :: "bytes list \<Rightarrow> bytes \<Rightarrow> bytes" where
  "trimLeading encs s = (if s = [] \<or> leading encs s = 0 then s else trimLeading encs (drop (leading encs s) s))"
  by pat_completeness auto
termination by (relation "measure (\<lambda>(_, s). length s)") auto

declare trimLeading.simps [simp del]

definition TrimSpace :: "bytes \<Rightarrow> bytes" where
  "TrimSpace s = rev (trimLeading (map rev spaceEncodings) (rev (trimLeading spaceEncodings s)))"

fun ToLower :: "bytes \<Rightarrow> bytes" where
  "ToLower (a # b # c # s) =
     (if a = CHR 0xC4 \<and> b = CHR 0xB0 then CHR ''i'' # ToLower (c # s)
      else if a = CHR 0xE2 \<and> b = CHR 0x84 \<and> c = CHR 0xAA then CHR ''k'' # ToLower s
      else lowerByte a # ToLower (b # c # s))"
| "ToLower [a, b] = (if a = CHR 0xC4 \<and> b = CHR 0xB0 then ''i'' else [lowerByte a, lowerByte b])"
| "ToLower [a] = [lowerByte a]"
| "ToLower [] = []"

lemma spaceEncodings_ascii:
  "e \<in> set spaceEncodings \<Longrightarrow> e \<noteq> [] \<and> (isSpace (hd e) \<or> 128 \<le> bval (hd e)) \<and> (isSpace (last e) \<or> 128 \<le> bval (last e))"
  unfolding spaceEncodings_def by (elim set_ConsD [THEN disjE] | simp add: isSpace_def)+

text \<open>Text that neither begins nor ends with a space or outside ASCII is kept.\<close>

lemma leading_0:
  assumes "\<And>e. e \<in> set encs \<Longrightarrow> e \<noteq> [] \<and> hd e \<noteq> c"
  shows "leading encs (c # s) = 0"
proof -
  have "filter (\<lambda>e. take (length e) (c # s) = e) encs = []"
  proof (rule ccontr)
    assume "filter (\<lambda>e. take (length e) (c # s) = e) encs \<noteq> []"
    then obtain e where "e \<in> set encs" "take (length e) (c # s) = e" by (auto simp: filter_empty_conv)
    with assms [of e] show False by (cases e) auto
  qed
  then show ?thesis by (simp add: leading_def)
qed

definition plain :: "byte \<Rightarrow> bool" where "plain c = (\<not> isSpace c \<and> bval c < 128)"

lemma TrimSpace_plain:
  assumes "s \<noteq> []" "plain (hd s)" "plain (last s)"
  shows "TrimSpace s = s"
proof -
  obtain c r where s: "s = c # r" using assms(1) by (cases s) auto
  obtain d q where t: "rev s = d # q" using assms(1) by (cases "rev s") auto
  then have d: "d = last s" using assms(1) by (metis hd_rev list.sel(1))
  have "leading spaceEncodings s = 0"
    unfolding s using assms(2) s by (intro leading_0) (auto simp: plain_def dest!: spaceEncodings_ascii)
  then have l: "trimLeading spaceEncodings s = s" by (simp add: trimLeading.simps)
  have "leading (map rev spaceEncodings) (rev s) = 0"
    unfolding t using assms(3) d by (intro leading_0) (auto simp: plain_def hd_rev dest!: spaceEncodings_ascii)
  then have "trimLeading (map rev spaceEncodings) (rev s) = rev s" by (simp add: trimLeading.simps)
  with l show ?thesis by (simp add: TrimSpace_def)
qed

lemma ToLower_ascii: "list_all (\<lambda>c. bval c < 128) s \<Longrightarrow> ToLower s = map lowerByte s"
  by (induction s rule: ToLower.induct) auto

end
