(* ===== verification/GoCodec.thy ===== *)
theory GoCodec
  imports Prelude
begin

unbundle bit_operations_syntax

text \<open>
  The text encodings of Go's standard library that the credential code relies on:
  \<^verbatim>\<open>encoding/base64\<close> (StdEncoding), \<^verbatim>\<open>encoding/hex\<close>, \<^verbatim>\<open>strconv.Atoi\<close> with the \<^verbatim>\<open>%d\<close> it undoes,
  \<^verbatim>\<open>strings.Split\<close> and \<^verbatim>\<open>strings.Cut\<close> on one byte, and bytewise exclusive or.

  The lemmas are the round trips, and which bytes an encoding can contain.
\<close>

section \<open>Base64\<close>

definition b64char :: "nat \<Rightarrow> byte" where
  "b64char n = (if n < 26 then char_of (65 + n) else if n < 52 then char_of (71 + n)
     else if n < 62 then char_of (n - 4) else if n = 62 then CHR ''+'' else CHR ''/'')"

definition b64val :: "byte \<Rightarrow> nat option" where
  "b64val c = (let v = bval c in
     if 65 \<le> v \<and> v \<le> 90 then Some (v - 65) else if 97 \<le> v \<and> v \<le> 122 then Some (v - 71)
     else if 48 \<le> v \<and> v \<le> 57 then Some (v + 4) else if c = CHR ''+'' then Some 62
     else if c = CHR ''/'' then Some 63 else None)"

fun EncodeToString :: "bytes \<Rightarrow> bytes" where
  "EncodeToString (a # b # c # r) =
     (let v = (bval a * 256 + bval b) * 256 + bval c
      in b64char (v div 2 ^ 18) # b64char (v div 2 ^ 12 mod 64) # b64char (v div 2 ^ 6 mod 64) # b64char (v mod 64) #
         EncodeToString r)"
| "EncodeToString [a, b] =
     (let v = (bval a * 256 + bval b) * 4
      in [b64char (v div 2 ^ 12), b64char (v div 2 ^ 6 mod 64), b64char (v mod 64), CHR ''=''])"
| "EncodeToString [a] =
     (let v = bval a * 16 in [b64char (v div 2 ^ 6), b64char (v mod 64), CHR ''='', CHR ''=''])"
| "EncodeToString [] = []"

text \<open>
  Four characters at a time; padding ends the text.  As in the library (which is not in strict
  mode) the bits of the last character that no byte takes are not looked at.
\<close>

fun decodeQuads :: "bytes \<Rightarrow> bytes option" where
  "decodeQuads (w # x # y # z # r) =
     (case (b64val w, b64val x) of
        (Some w', Some x') \<Rightarrow>
          if y = CHR ''='' then
            (if z = CHR ''='' \<and> r = [] then Some [char_of (w' * 4 + x' div 16)] else None)
          else (case b64val y of None \<Rightarrow> None
            | Some y' \<Rightarrow>
                if z = CHR ''='' then
                  (if r = [] then Some [char_of (w' * 4 + x' div 16), char_of (x' * 16 + y' div 4)] else None)
                else (case b64val z of None \<Rightarrow> None
                  | Some z' \<Rightarrow> map_option (\<lambda>t. char_of (w' * 4 + x' div 16) # char_of (x' * 16 + y' div 4) #
                                 char_of (y' * 64 + z') # t) (decodeQuads r)))
      | _ \<Rightarrow> None)"
| "decodeQuads [] = Some []"
| "decodeQuads _ = None"

definition DecodeString :: "bytes \<Rightarrow> bytes option" where
  "DecodeString s = decodeQuads (filter (\<lambda>c. c \<noteq> CHR 0x0A \<and> c \<noteq> CHR 0x0D) s)"

lemma b64val_char: "n < 64 \<Longrightarrow> b64val (b64char n) = Some n"
proof -
  assume n: "n < 64"
  have v: "m < 256 \<Longrightarrow> bval (char_of m) = m" for m :: nat by (simp add: of_char_of)
  consider "n < 26" | "26 \<le> n" "n < 52" | "52 \<le> n" "n < 62" | "n = 62" | "n = 63" using n by linarith
  then show ?thesis by cases (simp_all add: b64char_def b64val_def Let_def v, linarith)
qed

lemma b64val_special [simp]:
  "b64val CHR ''='' = None" "b64val CHR '','' = None" "b64val CHR 0x0A = None" "b64val CHR 0x0D = None"
  "b64val NUL = None" "b64val CHR '':'' = None" "b64val CHR ''$'' = None"
  by (simp_all add: b64val_def Let_def)

lemma b64char_neq: "n < 64 \<Longrightarrow> b64val c = None \<Longrightarrow> b64char n \<noteq> c"
  using b64val_char by fastforce

lemma char_of_bval: "k * 256 + bval c = n \<Longrightarrow> char_of n = c"
  by (auto simp: char_of_eq_iff take_bit_eq_mod)

lemma split64: "(q :: nat) = q div 64 * 64 + q mod 64" "q div 64 = q div 64 div 64 * 64 + q div 64 mod 64"
  by simp_all

lemma b64_first: "q div 64 * 4 + q mod 64 div 16 = q div (16 :: nat)"
proof -
  have "q div 16 = (q mod 64 + q div 64 * 4 * 16) div 16" using split64(1) [of q] by simp
  also have "\<dots> = q div 64 * 4 + q mod 64 div 16" by (subst div_mult_self1) simp_all
  finally show ?thesis by simp
qed

lemma b64_second: "(q div 64 mod 64 * 16 + q mod 64 div 4) mod 256 = q div 4 mod (256 :: nat)"
proof -
  have "q div 4 = (q mod 64 + q div 64 * 16 * 4) div 4" using split64(1) [of q] by simp
  also have "\<dots> = q div 64 * 16 + q mod 64 div 4" by (subst div_mult_self1) simp_all
  also have "\<dots> = q div 64 mod 64 * 16 + q mod 64 div 4 + q div 64 div 64 * 4 * 256"
    using split64(2) [of q] by linarith
  finally show ?thesis by (simp only: mod_mult_self1)
qed

lemma b64_third: "(q div 64 mod 64 * 64 + q mod 64) mod 256 = q mod (256 :: nat)"
proof -
  have "q = q div 64 mod 64 * 64 + q mod 64 + q div 64 div 64 * 16 * 256"
    using split64 [of q] by linarith
  then show ?thesis by (metis mod_mult_self1)
qed

lemma byte_digit: "(k * 256 + bval c) div 256 = k" "(k * 256 + bval c) mod 256 = bval c"
  using bval_le [of c] by simp_all

lemma EncodeToString_cases:
  "decodeQuads (EncodeToString s) = Some s \<and> set (EncodeToString s) \<subseteq> b64char ` {..<64} \<union> {CHR ''=''}"
proof (induction s rule: EncodeToString.induct)
  case (1 a b c r)
  define v where "v = (bval a * 256 + bval b) * 256 + bval c"
  have v: "v < 2 ^ 24" using bval_le [of a] bval_le [of b] bval_le [of c] by (simp add: v_def)
  define w x y z where "w = v div 2 ^ 18" and "x = v div 2 ^ 12 mod 64" and "y = v div 2 ^ 6 mod 64" and "z = v mod 64"
  have d: "w < 64" "x < 64" "y < 64" "z < 64" using v by (auto simp: w_def x_def y_def z_def)
  have n: "b64char y \<noteq> CHR ''=''" "b64char z \<noteq> CHR ''=''" using d by (simp_all add: b64char_neq)
  have e: "EncodeToString (a # b # c # r) = b64char w # b64char x # b64char y # b64char z # EncodeToString r"
    by (simp add: Let_def v_def w_def x_def y_def z_def)
  have "w * 4 + x div 16 = v div 2 ^ 16" "(x * 16 + y div 4) mod 256 = v div 2 ^ 8 mod 256"
    "(y * 64 + z) mod 256 = v mod 256"
    using b64_first [of "v div 2 ^ 12"] b64_second [of "v div 2 ^ 6"] b64_third [of v]
    by (simp_all add: w_def x_def y_def z_def div_mult2_eq [symmetric])
  moreover have "v div 2 ^ 16 = bval a" "v div 2 ^ 8 mod 256 = bval b" "v mod 256 = bval c"
  proof -
    show "v mod 256 = bval c" unfolding v_def by (rule byte_digit)
    have "v div 256 = bval a * 256 + bval b" unfolding v_def by (rule byte_digit)
    then have d: "v div 2 ^ 8 = bval a * 256 + bval b" by simp
    then show "v div 2 ^ 8 mod 256 = bval b" by (simp only: byte_digit)
    have "v div 2 ^ 16 = v div 2 ^ 8 div 256" by (simp add: div_mult2_eq [symmetric])
    then show "v div 2 ^ 16 = bval a" unfolding d by (simp only: byte_digit)
  qed
  ultimately have "char_of (w * 4 + x div 16) = a" "char_of (x * 16 + y div 4) = b" "char_of (y * 64 + z) = c"
    by (auto simp: char_of_eq_iff take_bit_eq_mod)
  with 1 d n show ?case unfolding e by (auto simp: b64val_char)
next
  case (2 a b)
  define v where "v = (bval a * 256 + bval b) * 4"
  have v: "v < 2 ^ 18" using bval_le [of a] bval_le [of b] by (simp add: v_def)
  define w x y where "w = v div 2 ^ 12" and "x = v div 2 ^ 6 mod 64" and "y = v mod 64"
  have d: "w < 64" "x < 64" "y < 64" using v by (auto simp: w_def x_def y_def)
  have n: "b64char y \<noteq> CHR ''=''" using d by (simp_all add: b64char_neq)
  have e: "EncodeToString [a, b] = [b64char w, b64char x, b64char y, CHR ''='']"
    by (simp add: Let_def v_def w_def x_def y_def)
  have "w * 4 + x div 16 = v div 2 ^ 10" "(x * 16 + y div 4) mod 256 = v div 2 ^ 2 mod 256"
    using b64_first [of "v div 2 ^ 6"] b64_second [of v]
    by (simp_all add: w_def x_def y_def div_mult2_eq [symmetric])
  moreover have "v div 2 ^ 10 = bval a" "v div 2 ^ 2 mod 256 = bval b"
  proof -
    have d: "v div 2 ^ 2 = bval a * 256 + bval b" unfolding v_def by simp
    then show "v div 2 ^ 2 mod 256 = bval b" by (simp only: byte_digit)
    have "v div 2 ^ 10 = v div 2 ^ 2 div 256" by (simp add: div_mult2_eq [symmetric])
    then show "v div 2 ^ 10 = bval a" unfolding d by (simp only: byte_digit)
  qed
  ultimately have "char_of (w * 4 + x div 16) = a" "char_of (x * 16 + y div 4) = b"
    by (auto simp: char_of_eq_iff take_bit_eq_mod)
  with d n show ?case unfolding e by (auto simp: b64val_char)
next
  case (3 a)
  define v where "v = bval a * 16"
  have v: "v < 2 ^ 12" using bval_le [of a] by (simp add: v_def)
  define w x where "w = v div 2 ^ 6" and "x = v mod 64"
  have d: "w < 64" "x < 64" using v by (auto simp: w_def x_def)
  have e: "EncodeToString [a] = [b64char w, b64char x, CHR ''='', CHR ''='']"
    by (simp add: Let_def v_def w_def x_def)
  have "w * 4 + x div 16 = v div 2 ^ 4" using b64_first [of v] by (simp add: w_def x_def)
  moreover have "v div 2 ^ 4 = bval a" by (simp add: v_def)
  ultimately have "char_of (w * 4 + x div 16) = a" by (auto simp: char_of_eq_iff take_bit_eq_mod)
  with d show ?case unfolding e by (auto simp: b64val_char)
qed simp

lemma EncodeToString_avoids: "b64val c = None \<Longrightarrow> c \<noteq> CHR ''='' \<Longrightarrow> c \<notin> set (EncodeToString s)"
  using EncodeToString_cases [THEN conjunct2, THEN subsetD, of c s] by (auto dest: b64char_neq)

lemma DecodeString_EncodeToString [simp]: "DecodeString (EncodeToString s) = Some s"
proof -
  have "filter (\<lambda>c. c \<noteq> CHR 0x0A \<and> c \<noteq> CHR 0x0D) (EncodeToString s) = EncodeToString s"
    using EncodeToString_avoids [of "CHR 0x0A" s] EncodeToString_avoids [of "CHR 0x0D" s]
    by (auto simp: filter_id_conv)
  then show ?thesis using EncodeToString_cases [of s] by (simp add: DecodeString_def)
qed

section \<open>Hexadecimal and decimal\<close>

definition hexDigit :: "nat \<Rightarrow> byte" where
  "hexDigit n = (if n < 10 then char_of (48 + n) else char_of (87 + n))"

definition hexEncode :: "bytes \<Rightarrow> bytes" where
  "hexEncode s = concat (map (\<lambda>c. [hexDigit (bval c div 16), hexDigit (bval c mod 16)]) s)"

fun decimal :: "nat \<Rightarrow> bytes" where
  "decimal n = (if n < 10 then [char_of (48 + n)] else decimal (n div 10) @ [char_of (48 + n mod 10)])"

declare decimal.simps [simp del]

definition formatInt :: "int \<Rightarrow> bytes" where
  "formatInt i = (if i < 0 then CHR ''-'' # decimal (nat (- i)) else decimal (nat i))"

fun digitsVal :: "nat \<Rightarrow> bytes \<Rightarrow> nat option" where
  "digitsVal v [] = Some v"
| "digitsVal v (c # s) = (if 48 \<le> bval c \<and> bval c \<le> 57 then digitsVal (v * 10 + (bval c - 48)) s else None)"

text \<open>An optional sign, at least one digit, and the range of a 64-bit \<^verbatim>\<open>int\<close>.\<close>

definition Atoi :: "bytes \<Rightarrow> int option" where
  "Atoi s =
     (let (neg, ds) = (case s of c # r \<Rightarrow> if c = CHR ''-'' then (True, r) else if c = CHR ''+'' then (False, r) else (False, s)
                       | [] \<Rightarrow> (False, []))
      in if ds = [] then None
         else case digitsVal 0 ds of None \<Rightarrow> None
           | Some v \<Rightarrow> if neg then (if v \<le> 2 ^ 63 then Some (- int v) else None)
                      else (if v < 2 ^ 63 then Some (int v) else None))"

lemma digitsVal_append: "digitsVal v (a @ b) = (case digitsVal v a of None \<Rightarrow> None | Some w \<Rightarrow> digitsVal w b)"
  by (induction a arbitrary: v) auto

lemma bval_digit: "n < 10 \<Longrightarrow> bval (char_of (48 + n)) = 48 + n"
  by (simp add: of_char_of)

lemma digitsVal_decimal: "digitsVal 0 (decimal n) = Some n"
proof (induction n rule: decimal.induct)
  case (1 n)
  then show ?case
    by (subst decimal.simps) (auto simp: digitsVal_append bval_digit)
qed

lemma decimal_digits: "c \<in> set (decimal n) \<Longrightarrow> 48 \<le> bval c \<and> bval c \<le> 57"
proof (induction n rule: decimal.induct)
  case (1 n)
  then show ?case by (subst (asm) decimal.simps) (auto simp: bval_digit split: if_splits)
qed

lemma decimal_nonempty: "decimal n \<noteq> []"
  by (subst decimal.simps) simp

lemma decimal_avoids: "\<not> (48 \<le> bval c \<and> bval c \<le> 57) \<Longrightarrow> c \<notin> set (decimal n)"
  using decimal_digits by blast

lemma Atoi_decimal: "n < 2 ^ 63 \<Longrightarrow> Atoi (decimal n) = Some (int n)"
proof -
  assume n: "n < 2 ^ 63"
  obtain c r where c: "decimal n = c # r" using decimal_nonempty [of n] by (cases "decimal n") auto
  have "c \<noteq> CHR ''-''" "c \<noteq> CHR ''+''" using decimal_digits [of c n] c by auto
  with n c show ?thesis using digitsVal_decimal [of n] by (simp add: Atoi_def Let_def)
qed

section \<open>Splitting\<close>

fun splitOn :: "byte \<Rightarrow> bytes \<Rightarrow> bytes list" where
  "splitOn sep [] = [[]]"
| "splitOn sep (c # s) =
     (if c = sep then [] # splitOn sep s else (case splitOn sep s of p # ps \<Rightarrow> (c # p) # ps | [] \<Rightarrow> [[c]]))"

definition cutByte :: "byte \<Rightarrow> bytes \<Rightarrow> (bytes \<times> bytes) option" where
  "cutByte sep s = (case indexByte s sep of None \<Rightarrow> None | Some i \<Rightarrow> Some (take i s, drop (i + 1) s))"

lemma splitOn_nonempty [simp]: "splitOn sep s \<noteq> []"
  by (induction s) (auto split: list.split)

lemma splitOn_absent [simp]: "sep \<notin> set s \<Longrightarrow> splitOn sep s = [s]"
  by (induction s) auto

lemma splitOn_append [simp]: "sep \<notin> set a \<Longrightarrow> splitOn sep (a @ sep # b) = a # splitOn sep b"
  by (induction a) auto

lemma cutByte_append [simp]: "sep \<notin> set a \<Longrightarrow> cutByte sep (a @ sep # b) = Some (a, b)"
  by (simp add: cutByte_def)

lemma cutByte_absent [simp]: "sep \<notin> set a \<Longrightarrow> cutByte sep a = None"
  by (simp add: cutByte_def)

section \<open>Exclusive or\<close>

definition xorByte :: "byte \<Rightarrow> byte \<Rightarrow> byte" where
  "xorByte a b = char_of (bval a XOR bval b)"

lemma xorByte_cancel [simp]: "xorByte (xorByte a b) b = a"
proof -
  have t: "take_bit 8 (bval c) = bval c" for c using bval_le [of c] by (simp add: take_bit_eq_mod)
  have "bval (xorByte a b) = bval a XOR bval b"
    using t by (simp add: xorByte_def of_char_of take_bit_xor flip: take_bit_eq_mod [of 8, simplified])
  then show ?thesis by (simp add: xorByte_def xor.assoc)
qed

end
