(* ===== verification/Credentials.thy ===== *)
theory Credentials
  imports GoText GoCodec Tables
begin

text \<open>
  Stored credentials and the exchanges that use them: \<^verbatim>\<open>server/internal/credentials\<close>
  (\<^verbatim>\<open>verifier.go\<close>, \<^verbatim>\<open>md5.go\<close>, \<^verbatim>\<open>scram.go\<close>, \<^verbatim>\<open>scram_client.go\<close>, \<^verbatim>\<open>file_store.go\<close>, \<^verbatim>\<open>cache.go\<close>).

  The hash functions are arguments, and every lemma holds for all of them (of the right
  length); random bytes and the clock are arguments too.  The lemmas show that an honest SCRAM
  exchange succeeds on both sides and recovers the client's key, that a successful one proves
  knowledge of it, that verifiers are read back as written, and that the cache stays bounded
  and never answers with something too old.
\<close>

section \<open>Verifiers\<close>

text \<open>\<open>MethodZero\<close> is the empty string: the method of a \<^verbatim>\<open>Verifier{}\<close> that nobody filled in.\<close>

datatype Method = MethodSCRAM | MethodMD5 | MethodNone | MethodZero

record SCRAMVerifier =
  Iterations :: int
  Salt :: bytes
  StoredKey :: bytes
  ServerKey :: bytes

record Verifier =
  Method :: Method
  MD5 :: bytes
  SCRAM :: "SCRAMVerifier option"

definition noVerifier :: Verifier where
  "noVerifier = \<lparr>Method = MethodZero, MD5 = [], SCRAM = None\<rparr>"

datatype cred_error = ErrUnknownUser | ErrUnsupportedVerifier | ErrBadLine | ErrOther

definition isHex :: "bytes \<Rightarrow> bool" where
  "isHex s = list_all (\<lambda>c. 48 \<le> bval c \<and> bval c \<le> 57 \<or> 97 \<le> bval c \<and> bval c \<le> 102 \<or>
     65 \<le> bval c \<and> bval c \<le> 70) s"

definition parseSCRAM :: "bytes \<Rightarrow> cred_error + SCRAMVerifier" where
  "parseSCRAM bd =
     (case cutByte CHR ''$'' bd of None \<Rightarrow> Inl ErrUnsupportedVerifier
      | Some (saltPart, keyPart) \<Rightarrow> (case cutByte CHR '':'' saltPart of None \<Rightarrow> Inl ErrUnsupportedVerifier
      | Some (iterText, saltB64) \<Rightarrow> (case Atoi iterText of None \<Rightarrow> Inl ErrUnsupportedVerifier
      | Some iterations \<Rightarrow>
          if iterations \<le> 0 then Inl ErrUnsupportedVerifier
          else (case cutByte CHR '':'' keyPart of None \<Rightarrow> Inl ErrUnsupportedVerifier
      | Some (storedB64, serverB64) \<Rightarrow>
          (case (DecodeString saltB64, DecodeString storedB64, DecodeString serverB64) of
             (Some salt, Some storedKey, Some serverKey) \<Rightarrow>
               if length storedKey \<noteq> 32 \<or> length serverKey \<noteq> 32 then Inl ErrUnsupportedVerifier
               else Inr \<lparr>Iterations = iterations, Salt = salt, StoredKey = storedKey, ServerKey = serverKey\<rparr>
           | _ \<Rightarrow> Inl ErrUnsupportedVerifier)))))"

definition hasPrefix :: "bytes \<Rightarrow> bytes \<Rightarrow> bool" where
  "hasPrefix s p = (take (length p) s = p)"

definition ParseVerifier :: "bytes \<Rightarrow> cred_error + Verifier" where
  "ParseVerifier stored0 =
     (let stored = TrimSpace stored0 in
      if stored = [] then Inr \<lparr>Method = MethodNone, MD5 = [], SCRAM = None\<rparr>
      else if hasPrefix stored ''SCRAM-SHA-256$'' then
        (case parseSCRAM (drop 14 stored) of
           Inl e \<Rightarrow> Inl e
         | Inr v \<Rightarrow> Inr \<lparr>Method = MethodSCRAM, MD5 = [], SCRAM = Some v\<rparr>)
      else if hasPrefix stored ''md5'' \<and> length stored = 35 then
        (if \<not> isHex (drop 3 stored) then Inl ErrUnsupportedVerifier
         else Inr \<lparr>Method = MethodMD5, MD5 = drop 3 stored, SCRAM = None\<rparr>)
      else Inl ErrUnsupportedVerifier)"

section \<open>The credential file\<close>

definition splitName :: "bytes \<Rightarrow> cred_error + bytes \<times> bytes" where
  "splitName line =
     (if \<not> hasPrefix line [CHR 0x22] then
        (let (name, rest) = (case cutByte CHR '' '' line of Some (n, r) \<Rightarrow> (n, r) | None \<Rightarrow> (line, [])) in
         case cutByte CHR 0x09 name of
           Some (tabbed, tabRest) \<Rightarrow> Inr (tabbed, tabRest @ '' '' @ rest)
         | None \<Rightarrow> Inr (name, rest))
      else (case indexByte (drop 1 line) CHR 0x22 of
              None \<Rightarrow> Inl ErrBadLine
            | Some closing \<Rightarrow> Inr (take closing (drop 1 line), drop (closing + 2) line)))"

definition parseLine :: "bytes \<Rightarrow> cred_error + (bytes \<times> Verifier) option" where
  "parseLine rawLine =
     (let line = TrimSpace rawLine in
      if line = [] \<or> hasPrefix line ''#'' then Inr None
      else case splitName line of Inl e \<Rightarrow> Inl e
        | Inr (name, rest) \<Rightarrow> (case ParseVerifier (TrimSpace rest) of Inl e \<Rightarrow> Inl e
            | Inr v \<Rightarrow> Inr (Some (name, v))))"

fun loadLines :: "(bytes \<times> Verifier) list \<Rightarrow> bytes list \<Rightarrow> cred_error + (bytes \<times> Verifier) list" where
  "loadLines users [] = Inr users"
| "loadLines users (l # ls) =
     (case parseLine l of Inl e \<Rightarrow> Inl e
      | Inr None \<Rightarrow> loadLines users ls
      | Inr (Some (name, v)) \<Rightarrow> loadLines (AList.update name v users) ls)"

text \<open>
  The file as \<^verbatim>\<open>Reload\<close> finds it: \<^const>\<open>None\<close> if it cannot be opened, otherwise its permission
  bits, its lines, and whether reading them ended in an error.  The users held are replaced
  only when the result is \<open>Inr\<close>.
\<close>

definition Reload :: "(nat \<times> bytes list \<times> bool) option \<Rightarrow> (bytes \<times> Verifier) list \<Rightarrow>
    cred_error option \<times> (bytes \<times> Verifier) list" where
  "Reload file users =
     (case file of None \<Rightarrow> (Some ErrOther, users)
      | Some (mode, lines, scanErr) \<Rightarrow>
          if mode AND 63 \<noteq> 0 then (Some ErrOther, users)
          else (case loadLines [] lines of Inl e \<Rightarrow> (Some e, users)
            | Inr users' \<Rightarrow> if scanErr then (Some ErrOther, users) else (None, users')))"

definition FileStore_Lookup :: "(bytes \<times> Verifier) list \<Rightarrow> bytes \<Rightarrow> cred_error + Verifier" where
  "FileStore_Lookup users user = (case map_of users user of None \<Rightarrow> Inl ErrUnknownUser | Some v \<Rightarrow> Inr v)"

section \<open>MD5\<close>

definition MD5Response :: "(bytes \<Rightarrow> bytes) \<Rightarrow> bytes \<Rightarrow> bytes \<Rightarrow> bytes" where
  "MD5Response md5 storedHex salt = ''md5'' @ hexEncode (md5 (storedHex @ salt))"

definition VerifyMD5 :: "(bytes \<Rightarrow> bytes) \<Rightarrow> Verifier \<Rightarrow> bytes \<Rightarrow> bytes \<Rightarrow> bool" where
  "VerifyMD5 md5 verifier salt response =
     (if Method verifier \<noteq> MethodMD5 then False else response = MD5Response md5 (MD5 verifier) salt)"

section \<open>SCRAM\<close>

datatype scram_error = ErrAuthFailed | ErrChannelBindingUnsupported | ErrProtocol

definition attr :: "bytes \<Rightarrow> byte \<Rightarrow> scram_error + bytes" where
  "attr msg key =
     (case find (\<lambda>f. 2 \<le> length f \<and> f ! 0 = key \<and> f ! 1 = CHR ''='') (splitOn CHR '','' msg) of
        None \<Rightarrow> Inl ErrProtocol
      | Some f \<Rightarrow> Inr (drop 2 f))"

definition splitGS2 :: "bytes \<Rightarrow> scram_error + bytes \<times> bytes" where
  "splitGS2 clientFirst =
     (case cutByte CHR '','' clientFirst of None \<Rightarrow> Inl ErrProtocol
      | Some (flag, r) \<Rightarrow> (case cutByte CHR '','' r of None \<Rightarrow> Inl ErrProtocol
          | Some (_, bare) \<Rightarrow> Inr (flag, bare)))"

text \<open>The cut at the last \<^verbatim>\<open>,p=\<close>.\<close>

fun lastProof :: "bytes \<Rightarrow> (bytes \<times> bytes) option" where
  "lastProof [] = None"
| "lastProof (c # s) =
     (case lastProof s of Some (w, p) \<Rightarrow> Some (c # w, p)
      | None \<Rightarrow> if take 3 (c # s) = '',p='' then Some ([], drop 3 (c # s)) else None)"

definition cutProof :: "bytes \<Rightarrow> scram_error + bytes \<times> bytes" where
  "cutProof clientFinal = (case lastProof clientFinal of None \<Rightarrow> Inl ErrProtocol | Some x \<Rightarrow> Inr x)"

definition checkBinding :: "bytes \<Rightarrow> scram_error option" where
  "checkBinding binding =
     (if binding = ''biws'' \<or> binding = ''eSws'' then None
      else if binding = [] then Some ErrProtocol else Some ErrChannelBindingUnsupported)"

definition xorBytes :: "bytes \<Rightarrow> bytes \<Rightarrow> bytes" where
  "xorBytes a b = map2 xorByte a b"

text \<open>\<open>rand\<close> is what the random source delivered: \<^const>\<open>None\<close> if it failed.\<close>

definition newNonce :: "bytes option \<Rightarrow> scram_error + bytes" where
  "newNonce rand = (case rand of None \<Rightarrow> Inl ErrAuthFailed | Some bs \<Rightarrow> Inr (EncodeToString bs))"

record ScramServer =
  verifier :: SCRAMVerifier
  clientFirstBare :: bytes
  serverFirst :: bytes
  nonce :: bytes
  clientKey :: "bytes option"

definition NewScramServer :: "SCRAMVerifier option \<Rightarrow> scram_error + ScramServer" where
  "NewScramServer v =
     (case v of None \<Rightarrow> Inl ErrAuthFailed
      | Some w \<Rightarrow> Inr \<lparr>verifier = w, clientFirstBare = [], serverFirst = [], nonce = [], clientKey = None\<rparr>)"

definition Begin :: "ScramServer \<Rightarrow> bytes option \<Rightarrow> bytes \<Rightarrow> scram_error + bytes \<times> ScramServer" where
  "Begin s rand clientFirst =
     (case splitGS2 clientFirst of Inl e \<Rightarrow> Inl e
      | Inr (gs2, bare) \<Rightarrow>
          if hasPrefix gs2 ''p='' then Inl ErrChannelBindingUnsupported
          else (case attr bare CHR ''r'' of Inl e \<Rightarrow> Inl e
      | Inr clientNonce \<Rightarrow>
          if clientNonce = [] then Inl ErrProtocol
          else (case newNonce rand of Inl e \<Rightarrow> Inl e
      | Inr serverNonce \<Rightarrow>
          let n = clientNonce @ serverNonce;
              sf = ''r='' @ n @ '',s='' @ EncodeToString (Salt (verifier s)) @ '',i='' @ formatInt (Iterations (verifier s))
          in Inr (sf, s\<lparr>clientFirstBare := bare, nonce := n, serverFirst := sf\<rparr>))))"

definition Finish :: "(bytes \<Rightarrow> bytes \<Rightarrow> bytes) \<Rightarrow> (bytes \<Rightarrow> bytes) \<Rightarrow> ScramServer \<Rightarrow> bytes \<Rightarrow>
    scram_error + bytes \<times> ScramServer" where
  "Finish hmac sha s clientFinal =
     (if serverFirst s = [] then Inl ErrProtocol
      else case cutProof clientFinal of Inl e \<Rightarrow> Inl e
      | Inr (withoutProof, proofB64) \<Rightarrow> (case attr withoutProof CHR ''r'' of Inl e \<Rightarrow> Inl e
      | Inr gotNonce \<Rightarrow>
          if gotNonce \<noteq> nonce s then Inl ErrAuthFailed
          else (case attr withoutProof CHR ''c'' of Inl e \<Rightarrow> Inl e
      | Inr binding \<Rightarrow> (case checkBinding binding of Some e \<Rightarrow> Inl e
      | None \<Rightarrow> (case DecodeString proofB64 of None \<Rightarrow> Inl ErrProtocol
      | Some proof \<Rightarrow>
          if length proof \<noteq> 32 then Inl ErrProtocol
          else let authMessage = clientFirstBare s @ '','' @ serverFirst s @ '','' @ withoutProof;
                   clientSignature = hmac (StoredKey (verifier s)) authMessage;
                   key = xorBytes proof clientSignature
            in if sha key \<noteq> StoredKey (verifier s) then Inl ErrAuthFailed
               else Inr (''v='' @ EncodeToString (hmac (ServerKey (verifier s)) authMessage),
                         s\<lparr>clientKey := Some key\<rparr>))))))"

record ScramClient =
  cUser :: bytes
  cClientKey :: bytes
  cStoredKey :: bytes
  cNonce :: bytes
  firstBare :: bytes
  authMsg :: bytes

definition NewScramClient :: "(bytes \<Rightarrow> bytes) \<Rightarrow> bytes \<Rightarrow> bytes \<Rightarrow> scram_error + ScramClient" where
  "NewScramClient sha u key =
     (if length key \<noteq> 32 then Inl ErrAuthFailed
      else Inr \<lparr>cUser = u, cClientKey = key, cStoredKey = sha key, cNonce = [], firstBare = [], authMsg = []\<rparr>)"

fun saslPrep :: "bytes \<Rightarrow> bytes" where
  "saslPrep [] = []"
| "saslPrep (c # s) =
     (if c = CHR ''='' then ''=3D'' else if c = CHR '','' then ''=2C'' else [c]) @ saslPrep s"

definition First :: "ScramClient \<Rightarrow> bytes option \<Rightarrow> scram_error + bytes \<times> ScramClient" where
  "First c rand =
     (case newNonce rand of Inl e \<Rightarrow> Inl e
      | Inr n \<Rightarrow> let bare = ''n='' @ saslPrep (cUser c) @ '',r='' @ n
                in Inr (''n,,'' @ bare, c\<lparr>cNonce := n, firstBare := bare\<rparr>))"

definition Final :: "(bytes \<Rightarrow> bytes \<Rightarrow> bytes) \<Rightarrow> ScramClient \<Rightarrow> bytes \<Rightarrow> scram_error + bytes \<times> ScramClient" where
  "Final hmac c sf =
     (if firstBare c = [] then Inl ErrProtocol
      else case attr sf CHR ''r'' of Inl e \<Rightarrow> Inl e
      | Inr combined \<Rightarrow>
          if length combined \<le> length (cNonce c) \<or> take (length (cNonce c)) combined \<noteq> cNonce c then Inl ErrAuthFailed
          else (case attr sf CHR ''s'' of Inl e \<Rightarrow> Inl e
      | Inr _ \<Rightarrow> (case attr sf CHR ''i'' of Inl e \<Rightarrow> Inl e
      | Inr iterText \<Rightarrow> (case Atoi iterText of None \<Rightarrow> Inl ErrProtocol
      | Some iterations \<Rightarrow>
          if iterations \<le> 0 then Inl ErrProtocol
          else let withoutProof = ''c=biws,r='' @ combined;
                   msg = firstBare c @ '','' @ sf @ '','' @ withoutProof;
                   proof = xorBytes (cClientKey c) (hmac (cStoredKey c) msg)
            in Inr (withoutProof @ '',p='' @ EncodeToString proof, c\<lparr>authMsg := msg\<rparr>)))))"

definition VerifyServer :: "(bytes \<Rightarrow> bytes \<Rightarrow> bytes) \<Rightarrow> ScramClient \<Rightarrow> bytes \<Rightarrow> bytes \<Rightarrow> scram_error option" where
  "VerifyServer hmac c serverFinal serverKey =
     (if authMsg c = [] then Some ErrProtocol
      else case attr serverFinal CHR ''v'' of
        Inl e \<Rightarrow> (case attr serverFinal CHR ''e'' of Inr _ \<Rightarrow> Some ErrAuthFailed | Inl _ \<Rightarrow> Some e)
      | Inr got \<Rightarrow> (case DecodeString got of None \<Rightarrow> Some ErrProtocol
          | Some decoded \<Rightarrow> if decoded \<noteq> hmac serverKey (authMsg c) then Some ErrAuthFailed else None))"

section \<open>Reading SCRAM messages\<close>

abbreviation no_comma :: "bytes \<Rightarrow> bool" where "no_comma s \<equiv> CHR '','' \<notin> set s"

lemma saslPrep_no_comma [simp]: "no_comma (saslPrep u)"
  by (induction u) auto

lemma EncodeToString_no_comma [simp]: "no_comma (EncodeToString s)"
  by (rule EncodeToString_avoids) simp_all

lemma decimal_no_comma [simp]: "no_comma (decimal n)"
  by (rule decimal_avoids) simp

lemma EncodeToString_Nil: "EncodeToString s = [] \<longleftrightarrow> s = []"
  by (cases s rule: EncodeToString.cases) (simp_all add: Let_def)

lemma lastProof_absent: "no_comma p \<Longrightarrow> lastProof p = None"
  by (induction p) auto

lemma lastProof_append: "no_comma p \<Longrightarrow> lastProof (w @ CHR '','' # CHR ''p'' # CHR ''='' # p) = Some (w, p)"
  by (induction w) (simp_all add: lastProof_absent)

lemma cutProof_append: "no_comma p \<Longrightarrow> cutProof (w @ '',p='' @ p) = Inr (w, p)"
  by (simp add: cutProof_def lastProof_append)

lemma attr_here [simp]: "no_comma v \<Longrightarrow> k \<noteq> CHR '','' \<Longrightarrow> attr (k # CHR ''='' # v) k = Inr v"
  by (simp add: attr_def)

lemma attr_first [simp]:
  assumes "no_comma v" "k \<noteq> CHR '',''"
  shows "attr (k # CHR ''='' # v @ CHR '','' # r) k = Inr v"
  using assms splitOn_append [of "CHR '',''" "k # CHR ''='' # v" r] by (simp add: attr_def)

lemma attr_later [simp]:
  assumes "no_comma v" "j \<noteq> k" "j \<noteq> CHR '',''"
  shows "attr (j # CHR ''='' # v @ CHR '','' # r) k = attr r k"
  using assms splitOn_append [of "CHR '',''" "j # CHR ''='' # v" r] by (simp add: attr_def)

lemma xorBytes_cancel: "length a = length b \<Longrightarrow> xorBytes (xorBytes a b) b = a"
  by (induction a b rule: list_induct2) (simp_all add: xorBytes_def)

section \<open>The exchange\<close>

lemma Finish_accepts:
  assumes "\<And>k m. length (hmac k m) = 32" "length key = 32" "sha key = StoredKey (verifier s)"
    and "serverFirst s \<noteq> []" "no_comma (nonce s)" "binding = ''biws'' \<or> binding = ''eSws''"
    and "w = ''c='' @ binding @ '',r='' @ nonce s" "msg = clientFirstBare s @ '','' @ serverFirst s @ '','' @ w"
  shows "Finish hmac sha s (w @ '',p='' @ EncodeToString (xorBytes key (hmac (StoredKey (verifier s)) msg))) =
    Inr (''v='' @ EncodeToString (hmac (ServerKey (verifier s)) msg), s\<lparr>clientKey := Some key\<rparr>)"
proof -
  let ?p = "xorBytes key (hmac (StoredKey (verifier s)) msg)"
  have p: "length ?p = 32" "xorBytes ?p (hmac (StoredKey (verifier s)) msg) = key"
    using assms(1,2) by (simp_all add: xorBytes_cancel) (simp add: xorBytes_def)
  have nb: "no_comma binding" using assms(6) by auto
  have "cutProof (w @ '',p='' @ EncodeToString ?p) = Inr (w, EncodeToString ?p)"
    by (rule cutProof_append) simp
  moreover have "attr w CHR ''r'' = Inr (nonce s)" "attr w CHR ''c'' = Inr binding"
    using assms(5,7) nb by simp_all
  moreover have "checkBinding binding = None" using assms(6) by (auto simp: checkBinding_def)
  ultimately show ?thesis
    using assms(3,4,8) p unfolding Finish_def by (simp only: sum.case prod.case option.case if_False
        DecodeString_EncodeToString Let_def) simp
qed

text \<open>The four messages of an honest run, written out.\<close>

lemma scram_messages:
  assumes "\<And>k m. length (hmac k m) = 32" "length key = 32"
    and "sha key = StoredKey v" "0 < Iterations v" "Iterations v < 2 ^ 63" "r1 \<noteq> []" "r2 \<noteq> []"
    and "NewScramClient sha u key = Inr c" "NewScramServer (Some v) = Inr s"
    and n1_def: "n1 = EncodeToString r1" and n2_def: "n2 = EncodeToString r2"
    and bare_def: "bare = ''n='' @ saslPrep u @ '',r='' @ n1"
    and sf_def: "sf = ''r='' @ (n1 @ n2) @ '',s='' @ EncodeToString (Salt v) @ '',i='' @ decimal (nat (Iterations v))"
    and w_def: "w = ''c='' @ ''biws'' @ '',r='' @ (n1 @ n2)" and msg_def: "msg = bare @ '','' @ sf @ '','' @ w"
  shows "\<exists>c1 s1 c2 s2. First c (Some r1) = Inr (''n,,'' @ bare, c1) \<and> Begin s (Some r2) (''n,,'' @ bare) = Inr (sf, s1) \<and>
    Final hmac c1 sf = Inr (w @ '',p='' @ EncodeToString (xorBytes key (hmac (StoredKey v) msg)), c2) \<and>
    Finish hmac sha s1 (w @ '',p='' @ EncodeToString (xorBytes key (hmac (StoredKey v) msg))) =
      Inr (''v='' @ EncodeToString (hmac (ServerKey v) msg), s2) \<and>
    clientKey s2 = Some key \<and> VerifyServer hmac c2 (''v='' @ EncodeToString (hmac (ServerKey v) msg)) (ServerKey v) = None"
proof -
  have n: "no_comma n1" "no_comma n2" "n1 \<noteq> []" "n2 \<noteq> []"
    using assms(6,7) by (simp_all add: n1_def n2_def EncodeToString_Nil)
  have c: "c = \<lparr>cUser = u, cClientKey = key, cStoredKey = StoredKey v, cNonce = [], firstBare = [], authMsg = []\<rparr>"
    using assms(2,3,8) by (simp add: NewScramClient_def)
  have s: "s = \<lparr>verifier = v, clientFirstBare = [], serverFirst = [], nonce = [], clientKey = None\<rparr>"
    using assms(9) by (simp add: NewScramServer_def)
  let ?c1 = "c\<lparr>cNonce := n1, firstBare := bare\<rparr>" and ?s1 = "s\<lparr>clientFirstBare := bare, nonce := n1 @ n2, serverFirst := sf\<rparr>"
  have first: "First c (Some r1) = Inr (''n,,'' @ bare, ?c1)"
    by (simp add: First_def newNonce_def c bare_def n1_def Let_def)
  have "splitGS2 (''n,,'' @ bare) = Inr (''n'', bare)"
    using cutByte_append [of "CHR '',''" "''n''" "CHR '','' # bare"] cutByte_append [of "CHR '',''" "[]" bare]
    by (simp add: splitGS2_def)
  moreover have "attr bare CHR ''r'' = Inr n1" using n by (simp add: bare_def)
  ultimately have beg: "Begin s (Some r2) (''n,,'' @ bare) = Inr (sf, ?s1)"
    using n assms(4) by (simp add: Begin_def newNonce_def s sf_def n2_def Let_def hasPrefix_def formatInt_def)
  have sfa: "attr sf CHR ''r'' = Inr (n1 @ n2)" "attr sf CHR ''s'' = Inr (EncodeToString (Salt v))"
    "attr sf CHR ''i'' = Inr (decimal (nat (Iterations v)))"
    using n attr_first [of "n1 @ n2" "CHR ''r''"] attr_later [of "n1 @ n2" "CHR ''r''"] by (simp_all add: sf_def)
  have "Atoi (decimal (nat (Iterations v))) = Some (Iterations v)" using assms(4,5) by (simp add: Atoi_decimal nat_less_iff)
  then have final: "Final hmac ?c1 sf = Inr (w @ '',p='' @ EncodeToString (xorBytes key (hmac (StoredKey v) msg)),
      ?c1\<lparr>authMsg := msg\<rparr>)"
    using sfa n assms(4) by (simp add: Final_def c msg_def w_def Let_def) (simp add: bare_def)
  have "Finish hmac sha ?s1 (w @ '',p='' @ EncodeToString (xorBytes key (hmac (StoredKey (verifier ?s1)) msg))) =
      Inr (''v='' @ EncodeToString (hmac (ServerKey (verifier ?s1)) msg), ?s1\<lparr>clientKey := Some key\<rparr>)"
    by (rule Finish_accepts) (use assms n in \<open>simp_all add: s w_def msg_def sf_def\<close>)
  then have finish: "Finish hmac sha ?s1 (w @ '',p='' @ EncodeToString (xorBytes key (hmac (StoredKey v) msg))) =
      Inr (''v='' @ EncodeToString (hmac (ServerKey v) msg), ?s1\<lparr>clientKey := Some key\<rparr>)"
    by (simp add: s)
  have "VerifyServer hmac (?c1\<lparr>authMsg := msg\<rparr>) (''v='' @ EncodeToString (hmac (ServerKey v) msg)) (ServerKey v) = None"
    by (simp add: VerifyServer_def) (simp add: msg_def)
  with first beg final finish show ?thesis by fastforce
qed

lemma scram_run:
  assumes "\<And>k m. length (hmac k m) = 32" "length key = 32"
    and "sha key = StoredKey v" "0 < Iterations v" "Iterations v < 2 ^ 63" "r1 \<noteq> []" "r2 \<noteq> []"
    and "NewScramClient sha u key = Inr c" "NewScramServer (Some v) = Inr s"
  shows "\<exists>m1 c1 m2 s1 m3 c2 m4 s2.
    First c (Some r1) = Inr (m1, c1) \<and> Begin s (Some r2) m1 = Inr (m2, s1) \<and>
    Final hmac c1 m2 = Inr (m3, c2) \<and> Finish hmac sha s1 m3 = Inr (m4, s2) \<and>
    clientKey s2 = Some key \<and> VerifyServer hmac c2 m4 (ServerKey v) = None"
  using scram_messages [of hmac key sha v r1 r2 u c s, OF assms refl refl refl refl refl refl] by blast

lemma cutProof_split: "cutProof m = Inr (w, p) \<Longrightarrow> m = w @ '',p='' @ p"
proof -
  have "lastProof m = Some (w, p) \<Longrightarrow> m = w @ '',p='' @ p"
  proof (induction m arbitrary: w)
    case (Cons c m)
    have "take 3 (c # m) = '',p='' \<Longrightarrow> c # m = '',p='' @ drop 3 (c # m)"
      by (metis append_take_drop_id)
    with Cons show ?case by (auto split: option.splits if_splits)
  qed simp
  then show "cutProof m = Inr (w, p) \<Longrightarrow> m = w @ '',p='' @ p" by (auto simp: cutProof_def split: option.splits)
qed

lemma Finish_key:
  assumes "Finish hmac sha s m = Inr (out, s')" "\<And>k m. length (hmac k m) = 32"
  shows "\<exists>key. clientKey s' = Some key \<and> sha key = StoredKey (verifier s) \<and> length key = 32"
  using assms by (auto simp: Finish_def Let_def xorBytes_def split: if_splits sum.splits option.splits)

lemma Begin_verifier: "Begin s rand m = Inr (sf, s') \<Longrightarrow> verifier s' = verifier s"
  by (auto simp: Begin_def Let_def split: if_splits sum.splits)

text \<open>
  C11.  The SCRAM exchange is sound.  When the server accepts a client-final message, that
  message carries the nonce this exchange issued and no channel binding, and its proof is a
  key that hashes to the stored key, combined with the signature of this exchange's
  transcript; that key is the one handed on.  A client that cannot produce such a key is not
  accepted, whatever it sends.
\<close>

theorem scram_exchange_sound:
  assumes "Finish hmac sha s m = Inr (out, s')" "length (hmac (StoredKey (verifier s)) msg) = 32"
    and "cutProof m = Inr (w, p)" "msg = clientFirstBare s @ '','' @ serverFirst s @ '','' @ w"
  shows "\<exists>key binding. clientKey s' = Some key \<and> sha key = StoredKey (verifier s) \<and> length key = 32 \<and>
    attr w CHR ''r'' = Inr (nonce s) \<and> attr w CHR ''c'' = Inr binding \<and> binding \<in> {''biws'', ''eSws''} \<and>
    DecodeString p = Some (xorBytes key (hmac (StoredKey (verifier s)) msg)) \<and>
    out = ''v='' @ EncodeToString (hmac (ServerKey (verifier s)) msg)"
proof -
  obtain b d where b: "attr w CHR ''r'' = Inr (nonce s)" "attr w CHR ''c'' = Inr b" "checkBinding b = None"
    "DecodeString p = Some d" "length d = 32" "sha (xorBytes d (hmac (StoredKey (verifier s)) msg)) = StoredKey (verifier s)"
    "s' = s\<lparr>clientKey := Some (xorBytes d (hmac (StoredKey (verifier s)) msg))\<rparr>"
    "out = ''v='' @ EncodeToString (hmac (ServerKey (verifier s)) msg)"
    using assms(1,3,4) by (auto simp: Finish_def Let_def split: if_splits sum.splits option.splits)
  moreover have "xorBytes (xorBytes d (hmac (StoredKey (verifier s)) msg)) (hmac (StoredKey (verifier s)) msg) = d"
    using b(5) assms(2) by (simp add: xorBytes_cancel)
  moreover have "b \<in> {''biws'', ''eSws''}" using b(3) by (auto simp: checkBinding_def split: if_splits)
  ultimately show ?thesis using assms(2) by (auto simp: xorBytes_def)
qed

theorem scram_exchange_sound_witness:
  "let z = replicate 32 NUL; k = replicate 32 (CHR ''k'');
       s = \<lparr>verifier = \<lparr>Iterations = 1, Salt = [], StoredKey = z, ServerKey = z\<rparr>, clientFirstBare = ''n=,r=a'',
            serverFirst = ''r=ab,s=,i=1'', nonce = ''ab'', clientKey = None\<rparr>
   in \<exists>out s'. Finish (\<lambda>_ _. z) (\<lambda>_. z) s (''c=biws,r=ab,p='' @ EncodeToString (xorBytes k z)) = Inr (out, s') \<and>
        (\<exists>key. clientKey s' = Some key \<and> length key = 32)"
proof -
  let ?z = "replicate 32 NUL" and ?k = "replicate 32 (CHR ''k'')"
  let ?s = "\<lparr>verifier = \<lparr>Iterations = 1, Salt = [], StoredKey = ?z, ServerKey = ?z\<rparr>, clientFirstBare = ''n=,r=a'',
      serverFirst = ''r=ab,s=,i=1'', nonce = ''ab'', clientKey = None\<rparr>"
  let ?w = "''c='' @ ''biws'' @ '',r='' @ ''ab''"
  let ?m = "?w @ '',p='' @ EncodeToString (xorBytes ?k ?z)"
  have f: "Finish (\<lambda>_ _. ?z) (\<lambda>_. ?z) ?s ?m = Inr (''v='' @ EncodeToString ?z, ?s\<lparr>clientKey := Some ?k\<rparr>)"
    using Finish_accepts [of "\<lambda>_ _. ?z" ?k "\<lambda>_. ?z" ?s "''biws''" ?w, OF _ _ _ _ _ _ _ refl] by simp
  have "cutProof ?m = Inr (?w, EncodeToString (xorBytes ?k ?z))"
    by (rule cutProof_append) simp
  from scram_exchange_sound [OF f _ this refl] f show ?thesis by (simp only: Let_def) auto
qed

text \<open>
  The client's channel-binding flag is not compared with the attribute of its last message:
  an exchange begun with the flag for "no support" is completed with the attribute for
  "support, but the server has none".
\<close>

lemma binding_flag_not_compared:
  assumes "\<And>k m. length (hmac k m) = 32" "length key = 32" "sha key = StoredKey (verifier s)"
    and "no_comma n1" "n1 \<noteq> []" "Begin s (Some r2) (''n,,'' @ ''n=,r='' @ n1) = Inr (m2, s1)"
  shows "\<exists>m out s2. attr m CHR ''c'' = Inr ''eSws'' \<and> Finish hmac sha s1 m = Inr (out, s2)"
proof -
  have g: "splitGS2 (''n,,'' @ ''n=,r='' @ n1) = Inr (''n'', ''n=,r='' @ n1)"
    using cutByte_append [of "CHR '',''" "''n''" "CHR '','' # ''n=,r='' @ n1"]
      cutByte_append [of "CHR '',''" "[]" "''n=,r='' @ n1"] by (simp add: splitGS2_def)
  have a: "attr (''n=,r='' @ n1) CHR ''r'' = Inr n1"
    using assms(4) attr_later [of "[]" "CHR ''n''" "CHR ''r''" "''r='' @ n1"] by simp
  have s1: "nonce s1 = n1 @ EncodeToString r2" "serverFirst s1 \<noteq> []" "verifier s1 = verifier s"
    using assms(5,6) unfolding Begin_def g by (auto simp: newNonce_def Let_def hasPrefix_def a [simplified])
  let ?w = "''c='' @ ''eSws'' @ '',r='' @ nonce s1"
  let ?m = "clientFirstBare s1 @ '','' @ serverFirst s1 @ '','' @ ?w"
  have "Finish hmac sha s1 (?w @ '',p='' @ EncodeToString (xorBytes key (hmac (StoredKey (verifier s1)) ?m))) =
      Inr (''v='' @ EncodeToString (hmac (ServerKey (verifier s1)) ?m), s1\<lparr>clientKey := Some key\<rparr>)"
    by (rule Finish_accepts) (use assms s1 in simp_all)
  moreover have "attr (?w @ '',p='' @ x) CHR ''c'' = Inr ''eSws''" for x
    using attr_first [of "''eSws''" "CHR ''c''"] by simp
  ultimately show ?thesis by blast
qed

section \<open>Stored verifiers are read back\<close>

definition formatSCRAM :: "SCRAMVerifier \<Rightarrow> bytes" where
  "formatSCRAM v = ''SCRAM-SHA-256$'' @ decimal (nat (Iterations v)) @ '':'' @ EncodeToString (Salt v) @ ''$'' @
     EncodeToString (StoredKey v) @ '':'' @ EncodeToString (ServerKey v)"

lemma EncodeToString_plain: "c \<in> set (EncodeToString s) \<Longrightarrow> plain c"
proof -
  assume c: "c \<in> set (EncodeToString s)"
  have "b64val c \<noteq> None \<or> c = CHR ''=''" using EncodeToString_avoids c by blast
  then show ?thesis by (auto simp: plain_def b64val_def Let_def isSpace_def split: if_splits)
qed

text \<open>
  A SCRAM verifier in PostgreSQL's own notation is read as exactly the iteration count,
  salt and keys it holds, and an md5 verifier as its hash.
\<close>

theorem ParseVerifier_roundtrip:
  assumes "0 < Iterations v" "Iterations v < 2 ^ 63" "length (StoredKey v) = 32" "length (ServerKey v) = 32"
    and "length h = 32" "isHex h"
  shows "ParseVerifier (formatSCRAM v) = Inr \<lparr>Method = MethodSCRAM, MD5 = [], SCRAM = Some v\<rparr> \<and>
    ParseVerifier (''md5'' @ h) = Inr \<lparr>Method = MethodMD5, MD5 = h, SCRAM = None\<rparr>"
proof -
  have k: "EncodeToString (ServerKey v) \<noteq> []" using assms(4) by (auto simp: EncodeToString_Nil)
  have "TrimSpace (formatSCRAM v) = formatSCRAM v"
    using k EncodeToString_plain [OF last_in_set [OF k]]
    by (intro TrimSpace_plain) (simp_all add: formatSCRAM_def plain_def isSpace_def)
  moreover have "parseSCRAM (drop 14 (formatSCRAM v)) = Inr v"
  proof -
    have a: "CHR ''$'' \<notin> set (decimal (nat (Iterations v)) @ CHR '':'' # EncodeToString (Salt v))"
      "CHR '':'' \<notin> set (decimal (nat (Iterations v)))" "CHR '':'' \<notin> set (EncodeToString (StoredKey v))"
      by (auto simp: decimal_avoids EncodeToString_avoids)
    have "Atoi (decimal (nat (Iterations v))) = Some (Iterations v)" using assms(1,2) by (simp add: Atoi_decimal nat_less_iff)
    then show ?thesis
      using a assms cutByte_append [OF a(1)] by (simp add: formatSCRAM_def parseSCRAM_def)
  qed
  moreover have "TrimSpace (''md5'' @ h) = ''md5'' @ h"
  proof (rule TrimSpace_plain)
    have "h \<noteq> []" using assms(5) by auto
    then have "48 \<le> bval (last h) \<and> bval (last h) \<le> 57 \<or> 97 \<le> bval (last h) \<and> bval (last h) \<le> 102 \<or>
        65 \<le> bval (last h) \<and> bval (last h) \<le> 70"
      using assms(6) by (simp add: isHex_def list_all_iff)
    with \<open>h \<noteq> []\<close> show "plain (last (''md5'' @ h))" by (auto simp: plain_def isSpace_def)
  qed (simp_all add: plain_def isSpace_def)
  moreover have "hasPrefix (formatSCRAM v) ''SCRAM-SHA-256$''" "formatSCRAM v \<noteq> []"
    "\<not> hasPrefix (''md5'' @ h) ''SCRAM-SHA-256$''" "hasPrefix (''md5'' @ h) ''md5''"
    by (simp_all add: formatSCRAM_def hasPrefix_def)
  ultimately show ?thesis using assms(5,6) by (simp add: ParseVerifier_def Let_def)
qed

theorem ParseVerifier_roundtrip_witness:
  "ParseVerifier (formatSCRAM \<lparr>Iterations = 4096, Salt = ''salt'', StoredKey = replicate 32 NUL, ServerKey = replicate 32 (CHR ''k'')\<rparr>) =
     Inr \<lparr>Method = MethodSCRAM, MD5 = [], SCRAM = Some \<lparr>Iterations = 4096, Salt = ''salt'', StoredKey = replicate 32 NUL,
       ServerKey = replicate 32 (CHR ''k'')\<rparr>\<rparr>"
  using ParseVerifier_roundtrip [of "\<lparr>Iterations = 4096, Salt = ''salt'', StoredKey = replicate 32 NUL,
      ServerKey = replicate 32 (CHR ''k'')\<rparr>" "replicate 32 (CHR ''a'')"] by (simp add: isHex_def list_all_iff)

text \<open>The credential file's documented notation for a role with no password is not accepted.\<close>

lemma no_password_comment_refused: "parseLine ''carol # no password'' = Inl ErrUnsupportedVerifier"
  by code_simp

section \<open>The cache\<close>

text \<open>Times are nanoseconds.  A store's answer is a verifier or an error.\<close>

type_synonym answer = "cred_error + Verifier"

record cache_entry =
  cached :: answer
  expires :: int

record Cache =
  ttl :: int
  negativeTTL :: int
  maxEntries :: int
  entries :: "(bytes \<times> cache_entry) list"

definition DefaultTTL :: int where "DefaultTTL = 5 * 60 * 10 ^ 9"
definition DefaultNegativeTTL :: int where "DefaultNegativeTTL = 30 * 10 ^ 9"
definition DefaultMaxEntries :: int where "DefaultMaxEntries = 1024"

definition NewCache :: "int \<Rightarrow> int \<Rightarrow> int \<Rightarrow> Cache" where
  "NewCache t n m =
     \<lparr>ttl = (if t \<le> 0 then DefaultTTL else t), negativeTTL = (if n \<le> 0 then DefaultNegativeTTL else n),
      maxEntries = (if m \<le> 0 then DefaultMaxEntries else m), entries = []\<rparr>"

definition expiryFor :: "Cache \<Rightarrow> int \<Rightarrow> answer \<Rightarrow> int" where
  "expiryFor c now a = now + (case a of Inl _ \<Rightarrow> negativeTTL c | Inr _ \<Rightarrow> ttl c)"

definition cacheGet :: "Cache \<Rightarrow> int \<Rightarrow> bytes \<Rightarrow> cache_entry option \<times> Cache" where
  "cacheGet c now u =
     (case map_of (entries c) u of
        None \<Rightarrow> (None, c)
      | Some found \<Rightarrow>
          if expires found < now then (None, c\<lparr>entries := AList.delete u (entries c)\<rparr>)
          else (Some found, c))"

text \<open>The entry closest to expiry, the first of them in the map's order.\<close>

fun soonest :: "(bytes \<times> cache_entry) list \<Rightarrow> (bytes \<times> int) option \<Rightarrow> (bytes \<times> int) option" where
  "soonest [] best = best"
| "soonest ((u, e) # es) best =
     soonest es (case best of None \<Rightarrow> Some (u, expires e)
       | Some (v, t) \<Rightarrow> if expires e < t then Some (u, expires e) else best)"

definition evictLocked :: "Cache \<Rightarrow> int \<Rightarrow> Cache" where
  "evictLocked c now =
     (let live = filter (\<lambda>(u, e). \<not> expires e < now) (entries c) in
      if int (length live) < maxEntries c then c\<lparr>entries := live\<rparr>
      else c\<lparr>entries := (case soonest live None of None \<Rightarrow> live | Some (victim, _) \<Rightarrow> AList.delete victim live)\<rparr>)"

definition cachePut :: "Cache \<Rightarrow> int \<Rightarrow> bytes \<Rightarrow> cache_entry \<Rightarrow> Cache" where
  "cachePut c now u e =
     (let c1 = (if int (length (entries c)) \<ge> maxEntries c then evictLocked c now else c)
      in c1\<lparr>entries := AList.update u e (entries c1)\<rparr>)"

definition definite :: "answer \<Rightarrow> bool" where
  "definite a = (case a of Inl e \<Rightarrow> e = ErrUnknownUser \<or> e = ErrUnsupportedVerifier | Inr _ \<Rightarrow> True)"

text \<open>\<open>store\<close> is the wrapped store's answer, asked for when the cache has none.\<close>

definition Cache_Lookup :: "Cache \<Rightarrow> int \<Rightarrow> (bytes \<Rightarrow> answer) \<Rightarrow> bytes \<Rightarrow> answer \<times> Cache" where
  "Cache_Lookup c now store u =
     (case cacheGet c now u of
        (Some found, c1) \<Rightarrow> (cached found, c1)
      | (None, c1) \<Rightarrow>
          let a = store u in
          if \<not> definite a then (a, c1)
          else (a, cachePut c1 now u \<lparr>cached = a, expires = expiryFor c1 now a\<rparr>))"

definition Forget :: "Cache \<Rightarrow> bytes \<Rightarrow> Cache" where
  "Forget c u = c\<lparr>entries := AList.delete u (entries c)\<rparr>"

definition Flush :: "Cache \<Rightarrow> Cache" where "Flush c = c\<lparr>entries := []\<rparr>"

definition remembered :: "(bytes \<times> answer \<times> int) set \<Rightarrow> Cache \<Rightarrow> bytes \<times> cache_entry \<Rightarrow> bool" where
  "remembered H c = (\<lambda>(u, e). definite (cached e) \<and> (\<exists>t. (u, cached e, t) \<in> H \<and> expires e = expiryFor c t (cached e)))"

text \<open>
  A cache is in order with respect to the answers \<open>H\<close> a store has given (for whom, what, when):
  within its bound, and every entry one of those answers, to expire in due time.
\<close>

definition cache_ok :: "(bytes \<times> answer \<times> int) set \<Rightarrow> Cache \<Rightarrow> bool" where
  "cache_ok H c = (0 < maxEntries c \<and> 0 < ttl c \<and> 0 < negativeTTL c \<and>
     table_ok (nat (maxEntries c)) (remembered H c) (entries c))"

lemma expiryFor_entries [simp]: "expiryFor (c\<lparr>entries := es\<rparr>) = expiryFor c"
  by (auto simp: expiryFor_def fun_eq_iff split: sum.split)

lemma remembered_entries [simp]: "remembered H (c\<lparr>entries := es\<rparr>) = remembered H c"
  by (simp add: remembered_def)

lemma remembered_mono: "remembered H c e \<Longrightarrow> H \<subseteq> H' \<Longrightarrow> remembered H' c e"
  by (auto simp: remembered_def)

lemma soonest_in: "soonest es best = Some (v, t) \<Longrightarrow> v \<in> fst ` set es \<or> best = Some (v, t)"
proof (induction es arbitrary: best)
  case (Cons e es)
  obtain u x where "e = (u, x)" by (cases e)
  with Cons show ?case by (fastforce split: option.splits if_splits)
qed simp

lemma soonest_Some: "soonest es (Some b) \<noteq> None"
proof (induction es arbitrary: b)
  case (Cons e es)
  then show ?case by (cases e; cases b) simp
qed simp

lemma soonest_None: "soonest es None = None \<Longrightarrow> es = []"
proof (cases es)
  case (Cons e r)
  then show "soonest es None = None \<Longrightarrow> ?thesis" using soonest_Some [of r "(fst e, expires (snd e))"] by (cases e) simp
qed simp

lemma cacheGet_ok: "cache_ok H c \<Longrightarrow> cache_ok H (snd (cacheGet c now u))"
  by (auto simp: cacheGet_def cache_ok_def table_ok_delete split: option.split)

lemma evictLocked_ok:
  assumes "cache_ok H c"
  shows "cache_ok H (evictLocked c now) \<and> int (length (entries (evictLocked c now))) < maxEntries c \<and>
    maxEntries (evictLocked c now) = maxEntries c \<and> remembered H (evictLocked c now) = remembered H c"
proof -
  define live where "live = filter (\<lambda>(u, e). \<not> expires e < now) (entries c)"
  have live: "table_ok (nat (maxEntries c)) (remembered H c) live"
    using assms by (simp add: cache_ok_def live_def table_ok_filter)
  show ?thesis
  proof (cases "int (length live) < maxEntries c")
    case True
    with live assms show ?thesis by (simp add: evictLocked_def Let_def live_def [symmetric] cache_ok_def)
  next
    case False
    then have "live \<noteq> []" using assms by (auto simp: cache_ok_def)
    then obtain v t where v: "soonest live None = Some (v, t)" using soonest_None [of live] by (cases "soonest live None") auto
    then have "length (AList.delete v live) < length live" using soonest_in [OF v] by (simp add: length_delete)
    moreover have "length live \<le> nat (maxEntries c)" using live by (simp add: table_ok_def)
    ultimately show ?thesis
      using False assms live v by (simp add: evictLocked_def Let_def live_def [symmetric] cache_ok_def table_ok_delete)
  qed
qed

lemma cachePut_ok:
  assumes "cache_ok H c" "remembered H c (u, e)"
  shows "cache_ok H (cachePut c now u e)"
proof -
  define c1 where "c1 = (if int (length (entries c)) \<ge> maxEntries c then evictLocked c now else c)"
  have c1: "cache_ok H c1" "int (length (entries c1)) < maxEntries c1" "remembered H c1 = remembered H c"
    using assms(1) evictLocked_ok [OF assms(1), of now] by (auto simp: c1_def)
  then have "table_ok (nat (maxEntries c1)) (remembered H c1) (AList.update u e (entries c1))"
    using assms(2) by (intro table_ok_update) (auto simp: cache_ok_def)
  with c1 show ?thesis by (simp add: cachePut_def c1_def [symmetric] cache_ok_def)
qed

lemma cache_ok_mono: "cache_ok H c \<Longrightarrow> H \<subseteq> H' \<Longrightarrow> cache_ok H' c"
  by (auto simp: cache_ok_def intro: table_ok_mono remembered_mono)

text \<open>
  Looking a user up through the cache.  The answer is one the store gave for that user, at
  most its lifetime ago (five minutes for a verifier by default, thirty seconds for a refusal);
  the cache never holds more than its bound of entries, whatever names clients send; and a
  failure to reach the store is never remembered.
\<close>

theorem cache_lookup_fresh:
  assumes "cache_ok H c" "Cache_Lookup c now store u = (a, c')" "H' = insert (u, store u, now) H"
  shows "cache_ok H' c' \<and> int (length (entries c')) \<le> maxEntries c' \<and>
    (\<exists>t. (u, a, t) \<in> H' \<and> now \<le> expiryFor c t a) \<and> list_all (\<lambda>(u, e). definite (cached e)) (entries c')"
proof -
  obtain found c1 where g: "cacheGet c now u = (found, c1)" by (cases "cacheGet c now u")
  have c1: "cache_ok H' c1" "expiryFor c1 = expiryFor c"
    using cacheGet_ok [OF assms(1), of now u] g assms(3) cache_ok_mono [of H c1 H']
    by (auto simp: cacheGet_def split: option.splits if_splits)
  have "cache_ok H' c' \<and> (\<exists>t. (u, a, t) \<in> H' \<and> now \<le> expiryFor c t a)"
  proof (cases found)
    case (Some e)
    then have e: "(u, e) \<in> set (entries c)" "\<not> expires e < now" "c1 = c"
      using g by (auto simp: cacheGet_def split: option.splits if_splits dest: map_of_SomeD)
    then have "remembered H c (u, e)" using assms(1) by (auto simp: cache_ok_def table_ok_def list_all_iff)
    with Some e g c1 assms(2,3) show ?thesis by (auto simp: Cache_Lookup_def remembered_def)
  next
    case None
    have "0 < ttl c" "0 < negativeTTL c" using assms(1) by (auto simp: cache_ok_def)
    then have f: "now \<le> expiryFor c now (store u)" by (auto simp: expiryFor_def split: sum.split)
    have "definite (store u) \<Longrightarrow> remembered H' c1 (u, \<lparr>cached = store u, expires = expiryFor c1 now (store u)\<rparr>)"
      using assms(3) by (auto simp: remembered_def)
    with None g c1 f assms(2,3) cachePut_ok show ?thesis
      by (auto simp: Cache_Lookup_def Let_def split: if_splits)
  qed
  then show ?thesis by (auto simp: cache_ok_def table_ok_def remembered_def list_all_iff)
qed

theorem cache_lookup_fresh_witness:
  "fst (Cache_Lookup (NewCache 0 0 2) 7 (\<lambda>_. Inl ErrUnknownUser) ''eve'') = Inl ErrUnknownUser \<and>
   list_all (\<lambda>(u, e). definite (cached e)) (entries (snd (Cache_Lookup (NewCache 0 0 2) 7 (\<lambda>_. Inl ErrUnknownUser) ''eve'')))"
proof -
  have "cache_ok {} (NewCache 0 0 2)"
    by (simp add: cache_ok_def NewCache_def table_ok_def DefaultTTL_def DefaultNegativeTTL_def)
  moreover have "fst (Cache_Lookup (NewCache 0 0 2) 7 (\<lambda>_. Inl ErrUnknownUser) ''eve'') = Inl ErrUnknownUser"
    by (simp add: Cache_Lookup_def cacheGet_def NewCache_def definite_def Let_def)
  ultimately show ?thesis using cache_lookup_fresh [OF _ _ refl, of "{}"] by (metis prod.collapse)
qed

end
