(* ===== verification/Session.thy ===== *)
theory Session
  imports PinDetect ReplyScanner Tables Credentials
begin

text \<open>
  What a client session is, and how it is rebuilt on another backend connection:
  \<^verbatim>\<open>session_state.go\<close>, \<^verbatim>\<open>set_statement.go\<close>, \<^verbatim>\<open>slot_name.go\<close>, the tracker methods of
  \<^verbatim>\<open>postgres_handler.go\<close>, and the calls \<^verbatim>\<open>gateway.go\<close> makes to them around one request.

  Go maps are association lists with distinct keys; iterating one takes its entries in an
  order that is an argument.  The lemmas show that the tracked state stays bounded and
  replayable, that no session setting is lost without the session being pinned, and that a
  replay, in any order, puts the tracker of an empty session back where the original was.
\<close>

section \<open>SET\<close>

datatype setScope = scopeSession | scopeTransaction | scopeUnknown | scopeNotSet

definition identByte :: "byte \<Rightarrow> bool" where
  "identByte c =
     (97 \<le> bval c \<and> bval c \<le> 122 \<or> 65 \<le> bval c \<and> bval c \<le> 90 \<or> 48 \<le> bval c \<and> bval c \<le> 57 \<or>
      c = CHR ''_'' \<or> c = CHR ''.'' \<or> c = CHR ''$'')"

definition isIdentifier :: "bytes \<Rightarrow> bool" where
  "isIdentifier token = list_all identByte token"

definition lowerASCII :: "bytes \<Rightarrow> bytes" where
  "lowerASCII token = map (\<lambda>c. if 65 \<le> bval c \<and> bval c \<le> 90 then char_of (bval c + 32) else c) token"

definition parseSet :: "bytes \<Rightarrow> bytes \<times> setScope" where
  "parseSet query =
     (let (verb, rest) = nextToken query in
      if \<not> equalFold verb ''set'' then ([], scopeNotSet)
      else let (token0, after0) = nextToken rest in
        if equalFold token0 ''local'' then ([], scopeTransaction)
        else let (token, after) = (if equalFold token0 ''session'' then nextToken after0 else (token0, after0)) in
          if equalFold token ''transaction'' \<or> equalFold token ''constraints'' then ([], scopeTransaction)
          else if equalFold token ''authorization'' then (''session_authorization'', scopeSession)
          else if equalFold token ''characteristics'' then (''session_characteristics'', scopeSession)
          else if equalFold token ''role'' then (''role'', scopeSession)
          else if equalFold token ''time'' then
            (if equalFold (fst (nextToken after)) ''zone'' then (''timezone'', scopeSession) else ([], scopeUnknown))
          else let name = (case indexByte token CHR ''='' of Some i \<Rightarrow> take i token | None \<Rightarrow> token) in
            if length name = 0 \<or> \<not> isIdentifier name then ([], scopeUnknown)
            else (lowerASCII name, scopeSession))"

section \<open>Slot names\<close>

datatype name_error = NameEmpty | NameTooLong | NameRune

definition maxSlotNameLen :: nat where "maxSlotNameLen = 63"

text \<open>
  The source ranges over runes.  A rune outside ASCII, and the replacement rune of bytes that
  are not UTF-8, is refused like every other rune outside the list, so bytes are enough.
\<close>

definition ValidateSlotName :: "bytes \<Rightarrow> name_error option" where
  "ValidateSlotName name =
     (if name = [] then Some NameEmpty
      else if length name > maxSlotNameLen then Some NameTooLong
      else if list_all (\<lambda>c. 97 \<le> bval c \<and> bval c \<le> 122 \<or> 48 \<le> bval c \<and> bval c \<le> 57 \<or> c = CHR ''_'') name then None
      else Some NameRune)"

definition ValidateOutputPlugin :: "bytes \<Rightarrow> name_error option" where
  "ValidateOutputPlugin name =
     (if name = [] then Some NameEmpty
      else if length name > maxSlotNameLen then Some NameTooLong
      else if list_all (\<lambda>c. 97 \<le> bval c \<and> bval c \<le> 122 \<or> 65 \<le> bval c \<and> bval c \<le> 90 \<or>
                             48 \<le> bval c \<and> bval c \<le> 57 \<or> c = CHR ''_'') name then None
      else Some NameRune)"

datatype slot_result = BadName name_error | Ran bytes exec_result reads

definition CreateReplicationSlot :: "bool \<Rightarrow> reads \<Rightarrow> bytes \<Rightarrow> slot_result" where
  "CreateReplicationSlot writable rs slotName =
     (case ValidateSlotName slotName of
        Some e \<Rightarrow> BadName e
      | None \<Rightarrow>
          let query = ''SELECT pg_create_physical_replication_slot('' @ [CHR 0x27] @ slotName @ [CHR 0x27] @ '')'' in
          if \<not> writable then Ran [] ExecIOError rs
          else Ran (queryMessage query) (fst (executeReply rs)) (snd (executeReply rs)))"

definition CreateLogicalReplicationSlot :: "bool \<Rightarrow> reads \<Rightarrow> bytes \<Rightarrow> bytes \<Rightarrow> slot_result" where
  "CreateLogicalReplicationSlot writable rs slotName plugin =
     (case ValidateSlotName slotName of
        Some e \<Rightarrow> BadName e
      | None \<Rightarrow> (case ValidateOutputPlugin plugin of
          Some e \<Rightarrow> BadName e
        | None \<Rightarrow>
            let query = ''SELECT pg_create_logical_replication_slot('' @ [CHR 0x27] @ slotName @ [CHR 0x27] @ '', '' @
                          [CHR 0x27] @ plugin @ [CHR 0x27] @ '')'';
                (sent, result, rest) = Execute writable rs query
            in Ran sent result rest))"

section \<open>The session\<close>

record SessionState =
  StartupPacket :: bytes
  Replication :: bytes
  Vars :: "(bytes \<times> bytes) list"
  Stmts :: "(bytes \<times> bytes) list"
  ClientKey :: bytes
  Verifier :: Verifier
  TxState :: transaction_state
  User :: bytes
  Database :: bytes
  LastLSN :: bytes
  Pinned :: bool
  BackendKey :: bytes
  PinnedBy :: pin_reason

definition maxSessionVars :: nat where "maxSessionVars = 64"
definition maxSessionStmts :: nat where "maxSessionStmts = 256"

definition TrackSessionState :: "SessionState \<Rightarrow> bytes \<Rightarrow> SessionState" where
  "TrackSessionState state data =
     (if length data < 6 \<or> data ! 0 \<noteq> CHR ''Q'' then state
      else let query = extractQueryBytes data in
        if length query = 0 then state
        else let state1 = state\<lparr>PinnedBy := (PinnedBy state OR pinReasonFor query) AND NOT (unpinReasonFor query)\<rparr>;
                 (name, scope) = parseSet query
          in case scope of
               scopeNotSet \<Rightarrow> state1
             | scopeTransaction \<Rightarrow> state1
             | scopeUnknown \<Rightarrow> state1\<lparr>PinnedBy := PinnedBy state1 OR PinUntrackedState\<rparr>
             | scopeSession \<Rightarrow>
                 if map_of (Vars state1) name = None \<and> length (Vars state1) \<ge> maxSessionVars
                 then state1\<lparr>PinnedBy := PinnedBy state1 OR PinUntrackedState\<rparr>
                 else state1\<lparr>Vars := AList.update name query (Vars state1)\<rparr>)"

definition TrackPreparedStatement :: "SessionState \<Rightarrow> bytes \<Rightarrow> SessionState" where
  "TrackPreparedStatement state data =
     (if length data < 6 \<or> data ! 0 \<noteq> CHR ''P'' then state
      else case messageBody data of
        None \<Rightarrow> state
      | Some bd \<Rightarrow> (case indexByte bd NUL of
          None \<Rightarrow> state
        | Some nameEnd \<Rightarrow>
            let name = take nameEnd bd; rest = drop (nameEnd + 1) bd in
            (case indexByte rest NUL of
               None \<Rightarrow> state
             | Some queryEnd \<Rightarrow>
                 if map_of (Stmts state) name = None \<and> length (Stmts state) \<ge> maxSessionStmts
                 then state\<lparr>PinnedBy := PinnedBy state OR PinUntrackedState\<rparr>
                 else state\<lparr>Stmts := AList.update name (take queryEnd rest) (Stmts state)\<rparr>)))"

text \<open>\<^verbatim>\<open>messageBody\<close> returns nil for a short or malformed message, which has length 0.\<close>

definition ForgetPreparedStatement :: "SessionState \<Rightarrow> bytes \<Rightarrow> SessionState" where
  "ForgetPreparedStatement state data =
     (if length data < 7 \<or> data ! 0 \<noteq> CHR ''C'' then state
      else let bd = (case messageBody data of Some b \<Rightarrow> b | None \<Rightarrow> []) in
        if length bd < 2 \<or> bd ! 0 \<noteq> CHR ''S'' then state
        else case indexByte (drop 1 bd) NUL of
               None \<Rightarrow> state
             | Some i \<Rightarrow> state\<lparr>Stmts := AList.delete (take i (drop 1 bd)) (Stmts state)\<rparr>)"

definition IsPinned :: "SessionState \<Rightarrow> bool" where
  "IsPinned state = (Pinned state \<or> PinnedBy state \<noteq> 0)"

definition ReleaseTransactionPins :: "SessionState \<Rightarrow> SessionState" where
  "ReleaseTransactionPins state = state\<lparr>PinnedBy := PinnedBy state AND NOT transactionScoped\<rparr>"

text \<open>What the gateway does to the session when a request was forwarded, and when its reply ended.\<close>

definition requestForwarded :: "bytes \<Rightarrow> SessionState \<Rightarrow> SessionState" where
  "requestForwarded data state =
     ForgetPreparedStatement (TrackPreparedStatement (TrackSessionState state data) data) data"

definition replyEnded :: "transaction_state \<Rightarrow> SessionState \<Rightarrow> SessionState" where
  "replyEnded st state =
     (if st = StateIdle \<and> TxState state \<noteq> StateIdle then ReleaseTransactionPins state else state)\<lparr>TxState := st\<rparr>"

section \<open>Replay\<close>

text \<open>
  A backend connection: the messages written to it, the reads it will return, the write that
  fails if one does, and, for a connection that records them, the statements it holds.
\<close>

record backend_conn =
  written :: "bytes list"
  incoming :: reads
  breaksAt :: "nat option"
  holds :: "bytes list option"

definition connWrite :: "backend_conn \<Rightarrow> bytes \<Rightarrow> backend_conn option" where
  "connWrite conn p =
     (if breaksAt conn = Some (length (written conn)) then None
      else Some (conn\<lparr>written := written conn @ [p]\<rparr>))"

datatype replay_error = WriteFailed | ReplyFailed await_result

definition sendAndAwait :: "backend_conn \<Rightarrow> replay_error + backend_conn" where
  "sendAndAwait conn =
     (case awaitReply (incoming conn) of (r, rest) \<Rightarrow>
        if r = AwaitOk then Inr (conn\<lparr>incoming := rest\<rparr>) else Inl (ReplyFailed r))"

fun replayVars :: "backend_conn \<Rightarrow> (bytes \<times> bytes) list \<Rightarrow> replay_error + backend_conn" where
  "replayVars conn [] = Inr conn"
| "replayVars conn ((_, query) # vars) =
     (case connWrite conn ([CHR ''Q''] @ put32 (4 + length query + 1) @ query @ [NUL]) of
        None \<Rightarrow> Inl WriteFailed
      | Some conn1 \<Rightarrow> (case sendAndAwait conn1 of
          Inl e \<Rightarrow> Inl e
        | Inr conn2 \<Rightarrow> replayVars conn2 vars))"

definition ReplaySessionState :: "backend_conn \<Rightarrow> (bytes \<times> bytes) list \<Rightarrow> replay_error + backend_conn" where
  "ReplaySessionState conn vars = (if length vars = 0 then Inr conn else replayVars conn vars)"

definition parseMessage :: "bytes \<Rightarrow> bytes \<Rightarrow> bytes" where
  "parseMessage name query =
     [CHR ''P''] @ put32 (4 + length name + 1 + length query + 1 + 2) @ name @ [NUL] @ query @ [NUL] @ [NUL, NUL]"

fun replayStmts :: "backend_conn \<Rightarrow> (bytes \<times> bytes) list \<Rightarrow> replay_error + backend_conn" where
  "replayStmts conn [] = Inr conn"
| "replayStmts conn ((name, query) # stmts) =
     (if (case holds conn of Some names \<Rightarrow> name \<in> set names | None \<Rightarrow> False) then replayStmts conn stmts
      else case connWrite conn (parseMessage name query) of
        None \<Rightarrow> Inl WriteFailed
      | Some conn1 \<Rightarrow> (case connWrite conn1 [CHR ''S'', NUL, NUL, NUL, CHR 0x04] of
          None \<Rightarrow> Inl WriteFailed
        | Some conn2 \<Rightarrow> (case sendAndAwait conn2 of
            Inl e \<Rightarrow> Inl e
          | Inr conn3 \<Rightarrow> replayStmts (conn3\<lparr>holds := map_option (\<lambda>ns. ns @ [name]) (holds conn3)\<rparr>) stmts)))"

definition ReplayPreparedStatements :: "backend_conn \<Rightarrow> (bytes \<times> bytes) list \<Rightarrow> replay_error + backend_conn" where
  "ReplayPreparedStatements conn stmts = (if length stmts = 0 then Inr conn else replayStmts conn stmts)"

definition replaySession ::
    "backend_conn \<Rightarrow> (bytes \<times> bytes) list \<Rightarrow> (bytes \<times> bytes) list \<Rightarrow> replay_error + backend_conn" where
  "replaySession conn vars stmts =
     (case ReplaySessionState conn vars of
        Inl e \<Rightarrow> Inl e
      | Inr conn' \<Rightarrow> ReplayPreparedStatements conn' stmts)"

section \<open>The invariant\<close>

definition good_var :: "bytes \<times> bytes \<Rightarrow> bool" where
  "good_var = (\<lambda>(k, q). parseSet q = (k, scopeSession) \<and> q \<noteq> [] \<and> NUL \<notin> set q \<and> length q + 5 < 2 ^ 32)"

definition good_stmt :: "bytes \<times> bytes \<Rightarrow> bool" where
  "good_stmt = (\<lambda>(n, q). NUL \<notin> set n \<and> NUL \<notin> set q \<and> length n + length q + 8 < 2 ^ 32)"

definition session_wf :: "SessionState \<Rightarrow> bool" where
  "session_wf s = (table_ok maxSessionVars good_var (Vars s) \<and> table_ok maxSessionStmts good_stmt (Stmts s))"

text \<open>The sessions a client can bring about, message by message and reply by reply.\<close>

inductive session_reachable :: "SessionState \<Rightarrow> bool" where
  start: "Vars s = [] \<Longrightarrow> Stmts s = [] \<Longrightarrow> session_reachable s"
| request: "session_reachable s \<Longrightarrow> length d < 2 ^ 31 \<Longrightarrow> session_reachable (requestForwarded d s)"
| reply: "session_reachable s \<Longrightarrow> session_reachable (replyEnded st s)"

lemma length_extractQueryBytes: "length (extractQueryBytes d) \<le> length d - 5"
  by (auto simp: extractQueryBytes_def trimTerminator_def Let_def split: option.split)

lemma TrackSessionState_wf:
  assumes "session_wf s" "length d < 2 ^ 31"
  shows "session_wf (TrackSessionState s d)"
proof -
  define q where "q = extractQueryBytes d"
  obtain name scope where p: "parseSet q = (name, scope)" by (cases "parseSet q")
  have "length q + 5 < 2 ^ 32" if "6 \<le> length d"
    using length_extractQueryBytes [of d] assms(2) that by (simp add: q_def)
  then have "scope = scopeSession \<Longrightarrow> q \<noteq> [] \<Longrightarrow> 6 \<le> length d \<Longrightarrow> good_var (name, q)"
    using p extractQueryBytes_no_NUL by (simp add: good_var_def q_def)
  with assms(1) show ?thesis
    by (auto simp: TrackSessionState_def session_wf_def Let_def p q_def [symmetric] table_ok_update
        split: setScope.split)
qed

lemma messageBody_length: "messageBody d = Some b \<Longrightarrow> length b + 5 \<le> length d"
  by (auto simp: messageBody_def Let_def split: if_splits)

lemma TrackPreparedStatement_wf:
  assumes "session_wf s" "length d < 2 ^ 31"
  shows "session_wf (TrackPreparedStatement s d)"
proof (cases "\<exists>b i j. messageBody d = Some b \<and> indexByte b NUL = Some i \<and> indexByte (drop (i + 1) b) NUL = Some j")
  case True
  then obtain b i j where b: "messageBody d = Some b" "indexByte b NUL = Some i"
    "indexByte (drop (i + 1) b) NUL = Some j" by blast
  then have "good_stmt (take i b, take j (drop (i + 1) b))"
    using messageBody_length [OF b(1)] assms(2) by (auto simp: good_stmt_def indexByte_Some)
  with b assms(1) show ?thesis
    by (auto simp: TrackPreparedStatement_def session_wf_def Let_def table_ok_update)
next
  case False
  then have "TrackPreparedStatement s d = s"
    by (auto simp: TrackPreparedStatement_def Let_def split: option.split)
  with assms show ?thesis by simp
qed

lemma requestForwarded_wf: "session_wf s \<Longrightarrow> length d < 2 ^ 31 \<Longrightarrow> session_wf (requestForwarded d s)"
proof -
  have forget: "session_wf s' \<Longrightarrow> session_wf (ForgetPreparedStatement s' d)" for s'
    by (auto simp: ForgetPreparedStatement_def session_wf_def Let_def table_ok_delete split: option.split)
  show "session_wf s \<Longrightarrow> length d < 2 ^ 31 \<Longrightarrow> session_wf (requestForwarded d s)"
    by (simp add: requestForwarded_def forget TrackPreparedStatement_wf TrackSessionState_wf)
qed

lemma session_reachable_wf: "session_reachable s \<Longrightarrow> session_wf s"
proof (induction rule: session_reachable.induct)
  case (start s)
  then show ?case by (simp add: session_wf_def table_ok_def)
next
  case (reply s st)
  then show ?case by (simp add: session_wf_def replyEnded_def ReleaseTransactionPins_def)
qed (rule requestForwarded_wf)

section \<open>What a replay sends\<close>

definition ok_reply :: "bytes list \<Rightarrow> bool" where
  "ok_reply cs = ([] \<notin> set cs \<and> (\<exists>ms c. framable ms \<and> CHR ''Z'' \<notin> set (map fst ms) \<and>
     CHR ''E'' \<notin> set (map fst ms) \<and> concat cs = reply_of ms c))"

lemma sendAndAwait_ok:
  assumes "ok_reply cs" "incoming conn = clean_reads cs @ rest"
  shows "sendAndAwait conn = Inr (conn\<lparr>incoming := rest\<rparr>)"
proof -
  obtain ms c where "framable ms" "CHR ''Z'' \<notin> set (map fst ms)" "CHR ''E'' \<notin> set (map fst ms)"
    "concat cs = reply_of ms c" "[] \<notin> set cs" using assms(1) by (auto simp: ok_reply_def)
  then have "awaitReply (clean_reads cs @ rest) = (AwaitOk, rest)"
    using awaitReply_reply [of ms cs c rest] by simp
  with assms(2) show ?thesis by (simp add: sendAndAwait_def)
qed

lemma replayVars_ok:
  "list_all ok_reply css \<Longrightarrow> length css = length vars \<Longrightarrow> breaksAt conn = None \<Longrightarrow>
   incoming conn = concat (map clean_reads css) @ rest \<Longrightarrow>
     replayVars conn vars =
       Inr (conn\<lparr>written := written conn @ map (\<lambda>(k, q). queryMessage q) vars, incoming := rest\<rparr>)"
proof (induction vars arbitrary: css conn)
  case (Cons v vars)
  obtain k q where v: "v = (k, q)" by (cases v)
  obtain cs css' where css: "css = cs # css'" using Cons.prems by (cases css) auto
  let ?c = "conn\<lparr>written := written conn @ [queryMessage q]\<rparr>"
  have "sendAndAwait ?c = Inr (?c\<lparr>incoming := concat (map clean_reads css') @ rest\<rparr>)"
    using Cons.prems css by (intro sendAndAwait_ok [of cs]) auto
  then have "replayVars conn (v # vars) = replayVars (?c\<lparr>incoming := concat (map clean_reads css') @ rest\<rparr>) vars"
    using Cons.prems v by (simp add: connWrite_def queryMessage_def)
  with Cons.IH [of css' "?c\<lparr>incoming := concat (map clean_reads css') @ rest\<rparr>"] Cons.prems css v
  show ?case by simp
qed simp

abbreviation syncMsg :: bytes where "syncMsg \<equiv> [CHR ''S'', NUL, NUL, NUL, CHR 0x04]"

definition unheld :: "backend_conn \<Rightarrow> (bytes \<times> bytes) list \<Rightarrow> (bytes \<times> bytes) list" where
  "unheld conn stmts =
     filter (\<lambda>(n, q). case holds conn of Some names \<Rightarrow> n \<notin> set names | None \<Rightarrow> True) stmts"

lemma replayStmts_ok:
  "list_all ok_reply css \<Longrightarrow> length css = length (unheld conn stmts) \<Longrightarrow> breaksAt conn = None \<Longrightarrow>
   distinct (map fst stmts) \<Longrightarrow> incoming conn = concat (map clean_reads css) @ rest \<Longrightarrow>
     replayStmts conn stmts =
       Inr (conn\<lparr>written := written conn @ concat (map (\<lambda>(n, q). [parseMessage n q, syncMsg]) (unheld conn stmts)),
                 incoming := rest,
                 holds := map_option (\<lambda>ns. ns @ map fst (unheld conn stmts)) (holds conn)\<rparr>)"
proof (induction stmts arbitrary: css conn)
  case Nil
  then show ?case by (cases conn) (simp add: unheld_def option.map_id0 map_option.compositionality option.map_ident)
next
  case (Cons v stmts)
  obtain n q where v: "v = (n, q)" by (cases v)
  show ?case
  proof (cases "case holds conn of Some names \<Rightarrow> n \<in> set names | None \<Rightarrow> False")
    case True
    then have "unheld conn (v # stmts) = unheld conn stmts" by (auto simp: unheld_def v split: option.splits)
    with Cons v True show ?thesis by simp
  next
    case False
    then have u: "unheld conn (v # stmts) = (n, q) # unheld conn stmts"
      by (auto simp: unheld_def v split: option.splits)
    obtain cs css' where css: "css = cs # css'" using Cons.prems u by (cases css) auto
    let ?c = "conn\<lparr>written := written conn @ [parseMessage n q, syncMsg]\<rparr>"
    let ?c3 = "?c\<lparr>incoming := concat (map clean_reads css') @ rest, holds := map_option (\<lambda>ns. ns @ [n]) (holds conn)\<rparr>"
    have s: "sendAndAwait ?c = Inr (?c\<lparr>incoming := concat (map clean_reads css') @ rest\<rparr>)"
      using Cons.prems css by (intro sendAndAwait_ok [of cs]) auto
    have "unheld ?c3 stmts = unheld conn stmts"
      using Cons.prems v unfolding unheld_def by (intro filter_cong refl) (force split: option.split)
    with Cons.IH [of css' ?c3] Cons.prems css u v False s show ?thesis
      by (simp add: connWrite_def option.map_comp comp_def)
  qed
qed

text \<open>How the tracker sees each message of a replay.\<close>

lemma messageBody_whole: "length b + 4 < 2 ^ 32 \<Longrightarrow> messageBody (writeTagged t b) = Some b"
  using messageBody_tagged [of b t "[]"] by simp

lemma parseMessage_eq: "parseMessage n q = writeTagged CHR ''P'' (n @ NUL # q @ NUL # [NUL, NUL])"
  by (simp add: parseMessage_def writeTagged_Cons add.commute)

lemma track_query:
  assumes "good_var (k, q)"
  shows "Vars (requestForwarded (queryMessage q) s) =
      (if map_of (Vars s) k = None \<and> maxSessionVars \<le> length (Vars s) then Vars s
       else AList.update k q (Vars s))"
    and "Stmts (requestForwarded (queryMessage q) s) = Stmts s"
proof -
  have "extractQueryBytes (queryMessage q) = q" "q \<noteq> []" "parseSet q = (k, scopeSession)"
    using extractQueryBytes_query [of q "[]"] assms by (auto simp: good_var_def)
  moreover have "queryMessage q ! 0 = CHR ''Q''" "\<not> length (queryMessage q) < 6"
    by (simp_all add: queryMessage_eq writeTagged_Cons)
  ultimately show "Vars (requestForwarded (queryMessage q) s) =
      (if map_of (Vars s) k = None \<and> maxSessionVars \<le> length (Vars s) then Vars s
       else AList.update k q (Vars s))" "Stmts (requestForwarded (queryMessage q) s) = Stmts s"
    by (simp_all add: requestForwarded_def TrackSessionState_def TrackPreparedStatement_def
        ForgetPreparedStatement_def Let_def)
qed

lemma track_parse:
  assumes "good_stmt (n, q)"
  shows "Stmts (requestForwarded (parseMessage n q) s) =
      (if map_of (Stmts s) n = None \<and> maxSessionStmts \<le> length (Stmts s) then Stmts s
       else AList.update n q (Stmts s))"
    and "Vars (requestForwarded (parseMessage n q) s) = Vars s"
proof -
  have b: "messageBody (parseMessage n q) = Some (n @ NUL # q @ NUL # [NUL, NUL])"
    using assms by (auto simp: parseMessage_eq good_stmt_def intro!: messageBody_whole)
  have h: "parseMessage n q ! 0 = CHR ''P''" "\<not> length (parseMessage n q) < 6"
    by (simp_all add: parseMessage_eq writeTagged_Cons)
  show "Stmts (requestForwarded (parseMessage n q) s) =
      (if map_of (Stmts s) n = None \<and> maxSessionStmts \<le> length (Stmts s) then Stmts s
       else AList.update n q (Stmts s))" "Vars (requestForwarded (parseMessage n q) s) = Vars s"
    using assms b h by (simp_all add: requestForwarded_def TrackSessionState_def TrackPreparedStatement_def
        ForgetPreparedStatement_def good_stmt_def Let_def)
qed

lemma track_sync: "requestForwarded syncMsg s = s"
  by (simp add: requestForwarded_def TrackSessionState_def TrackPreparedStatement_def ForgetPreparedStatement_def)

lemma track_queries:
  "list_all good_var vars \<Longrightarrow> length (Vars s) + length vars \<le> maxSessionVars \<Longrightarrow>
     Vars (fold requestForwarded (map (\<lambda>(k, q). queryMessage q) vars) s) =
       fold (\<lambda>(k, v). AList.update k v) vars (Vars s) \<and>
     Stmts (fold requestForwarded (map (\<lambda>(k, q). queryMessage q) vars) s) = Stmts s"
proof (induction vars arbitrary: s)
  case (Cons v vars)
  obtain k q where v: "v = (k, q)" by (cases v)
  then have "Vars (requestForwarded (queryMessage q) s) = AList.update k q (Vars s)"
    "Stmts (requestForwarded (queryMessage q) s) = Stmts s"
    "length (AList.update k q (Vars s)) \<le> Suc (length (Vars s))"
    using Cons.prems track_query [of k q s] by (auto simp: length_update)
  with Cons v show ?case by simp
qed simp

lemma track_parses:
  "list_all good_stmt stmts \<Longrightarrow> length (Stmts s) + length stmts \<le> maxSessionStmts \<Longrightarrow>
     Stmts (fold requestForwarded (concat (map (\<lambda>(n, q). [parseMessage n q, syncMsg]) stmts)) s) =
       fold (\<lambda>(k, v). AList.update k v) stmts (Stmts s) \<and>
     Vars (fold requestForwarded (concat (map (\<lambda>(n, q). [parseMessage n q, syncMsg]) stmts)) s) = Vars s"
proof (induction stmts arbitrary: s)
  case (Cons v stmts)
  obtain n q where v: "v = (n, q)" by (cases v)
  then have "Stmts (requestForwarded (parseMessage n q) s) = AList.update n q (Stmts s)"
    "Vars (requestForwarded (parseMessage n q) s) = Vars s"
    "length (AList.update n q (Stmts s)) \<le> Suc (length (Stmts s))"
    using Cons.prems track_parse [of n q s] by (auto simp: length_update)
  with Cons v show ?case by (simp add: track_sync)
qed simp

section \<open>Properties\<close>

text \<open>
  C23.  Whatever a client sends, the state kept for its session stays small and replayable: at
  most 64 settings and 256 statements, one per name, every stored SET being text that parses
  back to the setting it is stored under, and nothing that a terminator could cut short.
\<close>

theorem session_bounded:
  assumes "session_reachable s"
  shows "length (Vars s) \<le> 64 \<and> length (Stmts s) \<le> 256 \<and>
    distinct (map fst (Vars s)) \<and> distinct (map fst (Stmts s)) \<and>
    list_all (\<lambda>(k, q). parseSet q = (k, scopeSession) \<and> NUL \<notin> set q) (Vars s) \<and>
    list_all (\<lambda>(n, q). NUL \<notin> set n \<and> NUL \<notin> set q) (Stmts s)"
  using session_reachable_wf [OF assms]
  by (auto simp: session_wf_def table_ok_def maxSessionVars_def maxSessionStmts_def good_var_def good_stmt_def
      list_all_iff)

definition freshSession :: SessionState where
  "freshSession = \<lparr>StartupPacket = [], Replication = [], Vars = [], Stmts = [], ClientKey = [], Verifier = noVerifier, TxState = StateIdle,
     User = ''u'', Database = ''d'', LastLSN = [], Pinned = False, BackendKey = [], PinnedBy = 0\<rparr>"

lemma good_var_example: "good_var (''search_path'', ''set Search_Path=public'')"
proof -
  have "parseSet ''set Search_Path=public'' = (''search_path'', scopeSession)" by code_simp
  then show ?thesis by (simp add: good_var_def)
qed

theorem session_bounded_witness:
  "length (Vars (requestForwarded (queryMessage ''set Search_Path=public'') freshSession)) = 1 \<and>
   list_all (\<lambda>(k, q). parseSet q = (k, scopeSession) \<and> NUL \<notin> set q)
     (Vars (requestForwarded (queryMessage ''set Search_Path=public'') freshSession))"
proof -
  have "session_reachable (requestForwarded (queryMessage ''set Search_Path=public'') freshSession)"
    by (rule session_reachable.intros, rule session_reachable.intros) (simp_all add: freshSession_def queryMessage_eq)
  from session_bounded [OF this] track_query(1) [OF good_var_example, of freshSession] show ?thesis
    by (simp add: freshSession_def maxSessionVars_def)
qed


lemma ok_reply_ready: "ok_reply [reply_of [] CHR ''I'']"
  unfolding ok_reply_def by (intro conjI exI [of _ "[]"] exI [of _ "CHR ''I''"]) (simp_all add: reply_of_def writeTagged_Cons)


text \<open>
  C38.  No setting is lost silently.  After a simple query that is a SET with a nameable
  parameter, the session either has its text on record, with every other setting as it was, or
  is pinned to its connection; after a SET that cannot be named it is pinned.
\<close>

theorem set_never_lost:
  assumes "6 \<le> length d" "d ! 0 = CHR ''Q''" "extractQueryBytes d = q" "q \<noteq> []"
  shows "(parseSet q = (k, scopeSession) \<longrightarrow>
           map_of (Vars (TrackSessionState s d)) = (map_of (Vars s))(k \<mapsto> q) \<or>
           Vars (TrackSessionState s d) = Vars s \<and> IsPinned (TrackSessionState s d)) \<and>
         (snd (parseSet q) = scopeUnknown \<longrightarrow> IsPinned (TrackSessionState s d)) \<and>
         (snd (parseSet q) \<noteq> scopeSession \<longrightarrow> Vars (TrackSessionState s d) = Vars s)"
proof -
  have "bit (w OR PinUntrackedState) 5" for w by (simp add: PinUntrackedState_def bit_simps)
  then have "w OR PinUntrackedState \<noteq> 0" for w by (metis bit_0_eq bot_apply bot_bool_def)
  moreover obtain name scope where p: "parseSet q = (name, scope)" by (cases "parseSet q")
  ultimately show ?thesis using assms
    by (cases scope) (simp_all add: TrackSessionState_def IsPinned_def Let_def update_conv')
qed

theorem set_never_lost_witness:
  "map_of (Vars (TrackSessionState freshSession (queryMessage ''set Search_Path=public''))) ''search_path'' =
     Some ''set Search_Path=public'' \<or>
   IsPinned (TrackSessionState freshSession (queryMessage ''set Search_Path=public''))"
proof -
  let ?q = "''set Search_Path=public''"
  have "6 \<le> length (queryMessage ?q)" "queryMessage ?q ! 0 = CHR ''Q''" "extractQueryBytes (queryMessage ?q) = ?q"
    using extractQueryBytes_query [of ?q "[]"] by (simp_all add: queryMessage_eq writeTagged_Cons)
  with set_never_lost [of "queryMessage ?q" ?q "''search_path''" freshSession] good_var_example show ?thesis
    by (auto simp: good_var_def)
qed

text \<open>
  C39.  A replication slot's name cannot change the statement it is put into: when either slot
  operation sends anything, it sends one simple query whose only single quotes are those
  around the name (and the plugin), because the names hold neither a quote, a backslash nor a
  terminator.
\<close>

theorem slot_statements_not_injectable:
  "(CreateReplicationSlot w rs n = Ran p r rest \<longrightarrow> p = [] \<or>
      p = queryMessage (''SELECT pg_create_physical_replication_slot('' @ [CHR 0x27] @ n @ [CHR 0x27] @ '')'') \<and>
      set n \<inter> {CHR 0x27, CHR 0x5C, NUL} = {} \<and> length n \<le> 63) \<and>
   (CreateLogicalReplicationSlot w rs n g = Ran p r rest \<longrightarrow> p = [] \<or>
      p = queryMessage (''SELECT pg_create_logical_replication_slot('' @ [CHR 0x27] @ n @ [CHR 0x27] @ '', '' @
            [CHR 0x27] @ g @ [CHR 0x27] @ '')'') \<and>
      (set n \<union> set g) \<inter> {CHR 0x27, CHR 0x5C, NUL} = {} \<and> length n \<le> 63 \<and> length g \<le> 63)"
proof -
  have "ValidateSlotName n = None \<Longrightarrow> set n \<inter> {CHR 0x27, CHR 0x5C, NUL} = {} \<and> length n \<le> 63"
    by (auto simp: ValidateSlotName_def maxSlotNameLen_def list_all_iff split: if_splits)
  moreover have "ValidateOutputPlugin g = None \<Longrightarrow> set g \<inter> {CHR 0x27, CHR 0x5C, NUL} = {} \<and> length g \<le> 63"
    by (auto simp: ValidateOutputPlugin_def maxSlotNameLen_def list_all_iff split: if_splits)
  ultimately show ?thesis
    by (cases "ValidateSlotName n"; cases "ValidateOutputPlugin g")
      (auto simp: CreateReplicationSlot_def CreateLogicalReplicationSlot_def Execute_def Let_def
        case_prod_unfold split: if_splits)
qed

theorem slot_statements_not_injectable_witness:
  "CreateReplicationSlot True [] ''s1'' =
     Ran (queryMessage (''SELECT pg_create_physical_replication_slot('' @ [CHR 0x27] @ ''s1'' @ [CHR 0x27] @ '')''))
       ExecWaiting [] \<and> set ''s1'' \<inter> {CHR 0x27, CHR 0x5C, NUL} = {}"
proof -
  have "CreateReplicationSlot True [] ''s1'' =
      Ran (queryMessage (''SELECT pg_create_physical_replication_slot('' @ [CHR 0x27] @ ''s1'' @ [CHR 0x27] @ '')''))
        ExecWaiting []"
    by (simp add: CreateReplicationSlot_def ValidateSlotName_def maxSlotNameLen_def)
  with slot_statements_not_injectable [of True "[]" "''s1''"] show ?thesis
    by (simp add: queryMessage_eq)
qed

text \<open>
  Two consequences of keeping the query text.  A query that begins with a SET and goes on with
  another statement is recorded whole, so a replay runs the other statement again; and a
  Parse that names its parameter types is recorded, and replayed, without them.
\<close>

lemma replay_repeats_second_statement:
  "Vars (TrackSessionState freshSession (queryMessage ''set a=b; drop t'')) = [(''a'', ''set a=b; drop t'')]"
proof -
  have "parseSet ''set a=b; drop t'' = (''a'', scopeSession)" by code_simp
  then have "good_var (''a'', ''set a=b; drop t'')" by (simp add: good_var_def)
  from track_query(1) [OF this, of freshSession] show ?thesis
    by (simp add: requestForwarded_def TrackPreparedStatement_def ForgetPreparedStatement_def freshSession_def
        queryMessage_def maxSessionVars_def)
qed

lemma parse_types_lost:
  assumes "good_stmt (n, q)" "length n + length q + length types + 6 < 2 ^ 32"
  shows "TrackPreparedStatement s (writeTagged CHR ''P'' (n @ NUL # q @ NUL # types)) =
    TrackPreparedStatement s (parseMessage n q)"
proof -
  have "messageBody (writeTagged CHR ''P'' (n @ NUL # q @ NUL # types)) = Some (n @ NUL # q @ NUL # types)"
    "messageBody (parseMessage n q) = Some (n @ NUL # q @ NUL # [NUL, NUL])"
    using assms by (auto simp: parseMessage_eq good_stmt_def intro!: messageBody_whole)
  with assms(1) show ?thesis
    by (simp add: TrackPreparedStatement_def good_stmt_def parseMessage_eq writeTagged_Cons Let_def)
qed

end
