(* ===== verification/ResultCache.thy ===== *)
theory ResultCache
  imports Session Tables "HOL-Library.List_Lexorder" "HOL-Library.Char_ord"
begin

text \<open>
  The result cache: \<^verbatim>\<open>server/internal/cache/cache.go\<close>, the bounded store with its index by table.

  A Go map is an association list with distinct keys.  Where the code ranges over a map, the
  order is an argument (\<open>ord\<close>, any list with the map's entries), because Go leaves it open.
  Times are nanoseconds since the zero \<^verbatim>\<open>time.Time\<close>, and each call's clock readings are
  arguments.
\<close>

section \<open>The store\<close>

definition DefaultMaxSize :: nat where "DefaultMaxSize = 10000"

record Item =
  itemValue :: bytes
  itemExpiration :: int
  itemStaleUntil :: int
  itemTables :: "bytes list"

type_synonym items = "(bytes \<times> Item) list"
type_synonym tableIndex = "(bytes \<times> bytes list) list"

record Manager =
  cmItems :: items
  cmTables :: tableIndex
  cmMaxSize :: nat
  cmHits :: nat
  cmMisses :: nat
  cmEvicted :: nat

definition NewManagerWithSize :: "int \<Rightarrow> Manager" where
  "NewManagerWithSize n =
     \<lparr>cmItems = [], cmTables = [], cmMaxSize = (if n \<le> 0 then DefaultMaxSize else nat n),
      cmHits = 0, cmMisses = 0, cmEvicted = 0\<rparr>"

definition NewManager :: Manager where "NewManager = NewManagerWithSize (int DefaultMaxSize)"

text \<open>The value, whether it is a hit, and whether it needs a refresh.\<close>

definition Manager_Get :: "int \<Rightarrow> bytes \<Rightarrow> Manager \<Rightarrow> (bytes \<times> bool \<times> bool) \<times> Manager" where
  "Manager_Get now key m =
     (case map_of (cmItems m) key of
        None \<Rightarrow> (([], False, False), m\<lparr>cmMisses := cmMisses m + 1\<rparr>)
      | Some i \<Rightarrow>
          if now > itemExpiration i then
            (if now < itemStaleUntil i then ((itemValue i, True, True), m\<lparr>cmHits := cmHits m + 1\<rparr>)
             else (([], False, False), m\<lparr>cmMisses := cmMisses m + 1\<rparr>))
          else ((itemValue i, True, False), m\<lparr>cmHits := cmHits m + 1\<rparr>))"

definition unindexTable :: "bytes \<Rightarrow> bytes \<Rightarrow> tableIndex \<Rightarrow> tableIndex" where
  "unindexTable key table idx =
     (case map_of idx table of
        None \<Rightarrow> idx
      | Some keys \<Rightarrow>
          let keys' = removeAll key keys in
          if keys' = [] then AList.delete table idx else AList.update table keys' idx)"

definition unindex :: "bytes \<Rightarrow> bytes list \<Rightarrow> tableIndex \<Rightarrow> tableIndex" where
  "unindex key tables idx = fold (unindexTable key) tables idx"

definition indexTable :: "bytes \<Rightarrow> bytes \<Rightarrow> tableIndex \<Rightarrow> tableIndex" where
  "indexTable key table idx =
     AList.update table (List.insert key (case map_of idx table of None \<Rightarrow> [] | Some keys \<Rightarrow> keys)) idx"

text \<open>An entry goes together with its places in the index.\<close>

definition dropItem :: "bytes \<Rightarrow> Manager \<Rightarrow> Manager" where
  "dropItem key m =
     (case map_of (cmItems m) key of
        None \<Rightarrow> m
      | Some i \<Rightarrow> m\<lparr>cmTables := unindex key (itemTables i) (cmTables m), cmItems := AList.delete key (cmItems m)\<rparr>)"

fun firstStale :: "int \<Rightarrow> items \<Rightarrow> bytes option" where
  "firstStale now [] = None"
| "firstStale now ((key, i) # es) = (if now > itemStaleUntil i then Some key else firstStale now es)"

fun oldestLoop :: "items \<Rightarrow> bytes \<Rightarrow> int \<Rightarrow> bytes" where
  "oldestLoop [] oldestKey oldest = oldestKey"
| "oldestLoop ((key, i) # es) oldestKey oldest =
     (if oldest = 0 \<or> itemExpiration i < oldest then oldestLoop es key (itemExpiration i)
      else oldestLoop es oldestKey oldest)"

definition Manager_evictLocked :: "items \<Rightarrow> items \<Rightarrow> int \<Rightarrow> Manager \<Rightarrow> Manager" where
  "Manager_evictLocked ord ord' now m =
     (case firstStale now ord of
        Some key \<Rightarrow> (dropItem key m)\<lparr>cmEvicted := cmEvicted m + 1\<rparr>
      | None \<Rightarrow>
          let oldestKey = oldestLoop ord' [] 0 in
          if oldestKey \<noteq> [] then (dropItem oldestKey m)\<lparr>cmEvicted := cmEvicted m + 1\<rparr> else m)"

definition Manager_Set :: "items \<Rightarrow> items \<Rightarrow> int \<Rightarrow> int \<Rightarrow> bytes \<Rightarrow> bytes \<Rightarrow> int \<Rightarrow> bytes list \<Rightarrow> Manager \<Rightarrow> Manager" where
  "Manager_Set ord ord' evictNow now key value life tables m =
     (let m1 = (case map_of (cmItems m) key of
                  Some old \<Rightarrow> m\<lparr>cmTables := unindex key (itemTables old) (cmTables m)\<rparr>
                | None \<Rightarrow> m);
          m2 = (if length (cmItems m1) \<ge> cmMaxSize m1 then Manager_evictLocked ord ord' evictNow m1 else m1)
      in m2\<lparr>cmItems := AList.update key \<lparr>itemValue = value, itemExpiration = now + life, itemStaleUntil = now + life * 2,
                                         itemTables = tables\<rparr> (cmItems m2),
            cmTables := fold (indexTable key) tables (cmTables m2)\<rparr>)"

definition invalidateTable :: "bytes \<Rightarrow> Manager \<Rightarrow> Manager" where
  "invalidateTable table m =
     (case map_of (cmTables m) table of
        None \<Rightarrow> m
      | Some keys \<Rightarrow>
          let m' = fold dropItem keys m in m'\<lparr>cmTables := AList.delete table (cmTables m')\<rparr>)"

definition Invalidate :: "bytes list \<Rightarrow> Manager \<Rightarrow> Manager" where
  "Invalidate tables m = fold invalidateTable tables m"

definition Cleanup :: "items \<Rightarrow> int \<Rightarrow> Manager \<Rightarrow> Manager" where
  "Cleanup ord now m = fold (\<lambda>(key, i). if now > itemStaleUntil i then dropItem key else id) ord m"

section \<open>The index\<close>

definition indexed :: "tableIndex \<Rightarrow> bytes \<Rightarrow> bytes \<Rightarrow> bool" where
  "indexed idx t k \<longleftrightarrow> (case map_of idx t of None \<Rightarrow> False | Some ks \<Rightarrow> k \<in> set ks)"

definition index_ok :: "tableIndex \<Rightarrow> bool" where
  "index_ok idx \<longleftrightarrow> distinct (map fst idx) \<and> list_all (\<lambda>(t, ks). ks \<noteq> [] \<and> distinct ks) idx"

lemma removeAll_Nil_iff: "removeAll x xs = [] \<longleftrightarrow> set xs \<subseteq> {x}"
  by (induction xs) auto

lemma unindexTable_indexed:
  "indexed (unindexTable key t idx) t' k \<longleftrightarrow> indexed idx t' k \<and> \<not> (k = key \<and> t' = t)"
proof (cases "map_of idx t")
  case (Some keys)
  then show ?thesis
    by (cases "set keys \<subseteq> {key}"; cases "t' = t")
      (auto simp: unindexTable_def indexed_def delete_conv' update_conv' removeAll_Nil_iff split: option.splits)
qed (auto simp: unindexTable_def indexed_def)

lemma unindex_indexed: "indexed (unindex key ts idx) t' k \<longleftrightarrow> indexed idx t' k \<and> \<not> (k = key \<and> t' \<in> set ts)"
  unfolding unindex_def by (induction ts arbitrary: idx) (auto simp: unindexTable_indexed)

lemma indexTable_indexed: "indexed (indexTable key t idx) t' k \<longleftrightarrow> indexed idx t' k \<or> k = key \<and> t' = t"
  by (auto simp: indexTable_def indexed_def update_conv' split: option.splits)

lemma indexTables_indexed: "indexed (fold (indexTable key) ts idx) t' k \<longleftrightarrow> indexed idx t' k \<or> k = key \<and> t' \<in> set ts"
  by (induction ts arbitrary: idx) (auto simp: indexTable_indexed)

lemma index_ok_update: "index_ok idx \<Longrightarrow> ks \<noteq> [] \<Longrightarrow> distinct ks \<Longrightarrow> index_ok (AList.update t ks idx)"
  using set_update_subset [of t ks idx] by (auto simp: index_ok_def distinct_update list_all_iff)

lemma index_ok_delete: "index_ok idx \<Longrightarrow> index_ok (AList.delete t idx)"
  by (auto simp: index_ok_def distinct_map_filter list_all_iff AList.delete_eq)

lemma index_ok_entry: "index_ok idx \<Longrightarrow> map_of idx t = Some ks \<Longrightarrow> ks \<noteq> [] \<and> distinct ks"
  by (auto simp: index_ok_def list_all_iff dest!: map_of_SomeD)

lemma unindex_ok: "index_ok idx \<Longrightarrow> index_ok (unindex key ts idx)"
proof -
  have "index_ok idx \<Longrightarrow> index_ok (unindexTable key t idx)" for t idx
    by (auto simp: unindexTable_def Let_def index_ok_delete intro!: index_ok_update dest: index_ok_entry
        distinct_removeAll split: option.splits)
  then show "index_ok idx \<Longrightarrow> index_ok (unindex key ts idx)"
    unfolding unindex_def by (induction ts arbitrary: idx) auto
qed

lemma indexTables_ok: "index_ok idx \<Longrightarrow> index_ok (fold (indexTable key) ts idx)"
proof -
  have "index_ok idx \<Longrightarrow> index_ok (indexTable key t idx)" for t idx
    by (auto simp: indexTable_def List.insert_def intro!: index_ok_update dest: index_ok_entry split: option.splits)
  then show "index_ok idx \<Longrightarrow> index_ok (fold (indexTable key) ts idx)"
    by (induction ts arbitrary: idx) auto
qed

section \<open>The store's invariant\<close>

text \<open>
  The index lists exactly the entries that read a table, apart from the keys \<open>X\<close> (an entry that
  is being replaced has left the index already).
\<close>

definition manager_but :: "bytes set \<Rightarrow> Manager \<Rightarrow> bool" where
  "manager_but X m \<longleftrightarrow> distinct (map fst (cmItems m)) \<and> [] \<notin> fst ` set (cmItems m) \<and> index_ok (cmTables m) \<and>
     0 < cmMaxSize m \<and> length (cmItems m) \<le> cmMaxSize m \<and>
     (\<forall>t k. indexed (cmTables m) t k \<longleftrightarrow> (\<exists>i. map_of (cmItems m) k = Some i \<and> t \<in> set (itemTables i)) \<and> k \<notin> X)"

abbreviation manager_ok :: "Manager \<Rightarrow> bool" where "manager_ok \<equiv> manager_but {}"

lemma dropItem_items: "map_of (cmItems (dropItem k m)) = (map_of (cmItems m))(k := None)"
  by (auto simp: dropItem_def delete_conv' split: option.splits)

lemma length_delete_le: "length (AList.delete k t) \<le> length t"
  by (simp add: AList.delete_eq)

lemma distinct_fst_delete: "distinct (map fst t) \<Longrightarrow> distinct (map fst (AList.delete k t))"
  by (simp add: AList.delete_eq distinct_map_filter)

lemma dropItem_but:
  assumes "manager_but X m"
  shows "manager_but X (dropItem k m)"
proof (cases "map_of (cmItems m) k")
  case None
  then show ?thesis using assms by (simp add: dropItem_def)
next
  case (Some i)
  then have d: "cmItems (dropItem k m) = AList.delete k (cmItems m)" "cmMaxSize (dropItem k m) = cmMaxSize m"
    "cmTables (dropItem k m) = unindex k (itemTables i) (cmTables m)" by (simp_all add: dropItem_def)
  have "indexed (cmTables m) t k' \<longleftrightarrow> (\<exists>i. map_of (cmItems m) k' = Some i \<and> t \<in> set (itemTables i)) \<and> k' \<notin> X" for t k'
    using assms unfolding manager_but_def by blast
  then have "indexed (unindex k (itemTables i) (cmTables m)) t k' \<longleftrightarrow>
      (\<exists>i. map_of (AList.delete k (cmItems m)) k' = Some i \<and> t \<in> set (itemTables i)) \<and> k' \<notin> X" for t k'
    using Some unfolding unindex_indexed delete_conv' by (cases "k' = k") auto
  moreover have "length (AList.delete k (cmItems m)) \<le> cmMaxSize m"
    using assms length_delete_le [of k "cmItems m"] unfolding manager_but_def by linarith
  moreover have "[] \<notin> fst ` set (AList.delete k (cmItems m))" "distinct (map fst (AList.delete k (cmItems m)))"
    using assms distinct_fst_delete unfolding manager_but_def by (auto simp: AList.delete_eq)
  ultimately show ?thesis using assms unindex_ok unfolding manager_but_def d by blast
qed

lemma dropItem_size: "cmMaxSize (dropItem k m) = cmMaxSize m"
  by (simp add: dropItem_def split: option.splits)

lemma dropItem_shrinks: "k \<in> fst ` set (cmItems m) \<Longrightarrow> length (cmItems (dropItem k m)) < length (cmItems m)"
  using length_delete [of k "cmItems m"] by (auto simp: dropItem_def map_of_eq_None_iff split: option.splits)

lemma manager_but_evicted: "manager_but X (m\<lparr>cmEvicted := n\<rparr>) = manager_but X m"
  by (simp add: manager_but_def)

lemma firstStale_in: "firstStale now ord = Some k \<Longrightarrow> k \<in> fst ` set ord"
  by (induction now ord rule: firstStale.induct) (auto split: if_splits)

lemma oldestLoop_in: "oldestLoop es k t \<in> insert k (fst ` set es)"
  by (induction es k t rule: oldestLoop.induct) auto

lemma oldestLoop_found:
  assumes "es \<noteq> []" "[] \<notin> fst ` set es"
  shows "oldestLoop es [] 0 \<in> fst ` set es"
proof -
  obtain k i es' where es: "es = (k, i) # es'" using assms(1) by (cases es) auto
  then show ?thesis using oldestLoop_in [of es' k "itemExpiration i"] by auto
qed

text \<open>Making room: one entry of the store goes, whatever order the map is ranged over in.\<close>

lemma evict_one:
  assumes "set ord = set (cmItems m)" "set ord' = set (cmItems m)" "cmItems m \<noteq> []" "[] \<notin> fst ` set (cmItems m)"
  obtains k where "k \<in> fst ` set (cmItems m)" "Manager_evictLocked ord ord' now m = (dropItem k m)\<lparr>cmEvicted := cmEvicted m + 1\<rparr>"
proof (cases "firstStale now ord")
  case (Some k)
  with that [of k] firstStale_in [OF Some] assms(1) show ?thesis by (simp add: Manager_evictLocked_def)
next
  case None
  have "ord' \<noteq> []" using assms(2,3) by auto
  with oldestLoop_found [of ord'] assms(2,4) have "oldestLoop ord' [] 0 \<in> fst ` set (cmItems m)" by simp
  moreover from this assms(4) have "oldestLoop ord' [] 0 \<noteq> []" by metis
  ultimately show ?thesis using None that [of "oldestLoop ord' [] 0"] by (simp add: Manager_evictLocked_def Let_def)
qed

lemma Set_ok:
  assumes "manager_ok m" "set ord = set (cmItems m)" "set ord' = set (cmItems m)" "key \<noteq> []"
  shows "manager_ok (Manager_Set ord ord' t0 now key v life ts m)"
    and "\<exists>gone. (length (cmItems m) < cmMaxSize m \<longrightarrow> gone = None) \<and> map_of (cmItems (Manager_Set ord ord' t0 now key v life ts m)) =
      ((map_of (cmItems m)) |` (- set_option gone))(key \<mapsto> \<lparr>itemValue = v, itemExpiration = now + life, itemStaleUntil = now + life * 2, itemTables = ts\<rparr>)"
proof -
  let ?i = "\<lparr>itemValue = v, itemExpiration = now + life, itemStaleUntil = now + life * 2, itemTables = ts\<rparr>"
  define m1 where "m1 = (case map_of (cmItems m) key of
    Some old \<Rightarrow> m\<lparr>cmTables := unindex key (itemTables old) (cmTables m)\<rparr> | None \<Rightarrow> m)"
  have i1: "cmItems m1 = cmItems m" "cmMaxSize m1 = cmMaxSize m" by (simp_all add: m1_def split: option.split)
  have b1: "manager_but {key} m1" using assms(1)
    by (cases "map_of (cmItems m) key") (auto simp: m1_def manager_but_def unindex_indexed unindex_ok simp del: map_of_eq_Some_iff)
  define m2 where "m2 = (if length (cmItems m1) \<ge> cmMaxSize m1 then Manager_evictLocked ord ord' t0 m1 else m1)"
  have s: "Manager_Set ord ord' t0 now key v life ts m =
      m2\<lparr>cmItems := AList.update key ?i (cmItems m2), cmTables := fold (indexTable key) ts (cmTables m2)\<rparr>"
    by (simp add: Manager_Set_def Let_def m1_def m2_def)
  have "manager_but {key} m2 \<and> length (cmItems m2) < cmMaxSize m2 \<and> 
      (\<exists>gone. (length (cmItems m) < cmMaxSize m \<longrightarrow> gone = None) \<and> map_of (cmItems m2) = (map_of (cmItems m)) |` (- set_option gone))"
  proof (cases "length (cmItems m1) \<ge> cmMaxSize m1")
    case True
    then have "cmItems m1 \<noteq> []" "[] \<notin> fst ` set (cmItems m1)" using b1 by (auto simp: manager_but_def)
    then obtain k where k: "k \<in> fst ` set (cmItems m1)" "m2 = (dropItem k m1)\<lparr>cmEvicted := cmEvicted m1 + 1\<rparr>"
      using evict_one [of ord m1 ord' t0] assms(2,3) i1 True by (metis m2_def)
    have "length (cmItems (dropItem k m1)) < cmMaxSize m1"
      using dropItem_shrinks [OF k(1)] b1 by (auto simp: manager_but_def)
    moreover have "map_of (cmItems m2) = (map_of (cmItems m)) |` (- set_option (Some k))"
      by (auto simp: k(2) dropItem_items i1 restrict_map_def fun_eq_iff)
    ultimately show ?thesis using dropItem_but [OF b1, of k] True
      by (intro conjI exI [of _ "Some k"]) (simp_all add: k(2) i1 manager_but_evicted dropItem_size)
  next
    case False
    then have "map_of (cmItems m2) = (map_of (cmItems m)) |` (- set_option None)" by (simp add: m2_def i1 restrict_map_def)
    with False b1 show ?thesis by (intro conjI exI [of _ None]) (simp_all add: m2_def i1)
  qed
  then obtain gone where m2: "manager_but {key} m2" "length (cmItems m2) < cmMaxSize m2" and
    g: "length (cmItems m) < cmMaxSize m \<longrightarrow> gone = None" "map_of (cmItems m2) = (map_of (cmItems m)) |` (- set_option gone)"
    by blast
  from g show "\<exists>gone. (length (cmItems m) < cmMaxSize m \<longrightarrow> gone = None) \<and>
      map_of (cmItems (Manager_Set ord ord' t0 now key v life ts m)) = ((map_of (cmItems m)) |` (- set_option gone))(key \<mapsto> ?i)"
    by (intro exI [of _ gone]) (simp add: s update_conv')
  have "distinct (map fst (AList.update key ?i (cmItems m2)))" "[] \<notin> fst ` set (AList.update key ?i (cmItems m2))"
    using m2(1) assms(4) by (auto simp: manager_but_def distinct_update dom_update)
  moreover have "indexed (fold (indexTable key) ts (cmTables m2)) t k \<longleftrightarrow>
      (\<exists>i. map_of (AList.update key ?i (cmItems m2)) k = Some i \<and> t \<in> set (itemTables i))" for t k
    using m2(1) unfolding indexTables_indexed update_conv' manager_but_def by (cases "k = key") auto
  ultimately show "manager_ok (Manager_Set ord ord' t0 now key v life ts m)"
    using m2 indexTables_ok by (auto simp: s manager_but_def length_update)
qed

section \<open>Invalidation\<close>

text \<open>What a write to the tables \<open>ts\<close> leaves of a store that forgets nothing on its own.\<close>

definition withoutTables :: "bytes list \<Rightarrow> (bytes \<Rightarrow> Item option) \<Rightarrow> bytes \<Rightarrow> Item option" where
  "withoutTables ts f k =
     (case f k of Some i \<Rightarrow> if set (itemTables i) \<inter> set ts = {} then Some i else None | None \<Rightarrow> None)"

lemma fold_dropItem:
  "manager_but X m \<Longrightarrow> manager_but X (fold dropItem ks m) \<and>
     map_of (cmItems (fold dropItem ks m)) = (map_of (cmItems m)) |` (- set ks)"
proof (induction ks arbitrary: m)
  case (Cons k ks)
  from Cons.IH [OF dropItem_but [OF Cons.prems, of k]] show ?case
    by (auto simp: dropItem_items restrict_map_def fun_eq_iff)
qed (simp add: restrict_map_def)

lemma not_indexed: "index_ok idx \<Longrightarrow> map_of idx t = None \<longleftrightarrow> (\<forall>k. \<not> indexed idx t k)"
  using index_ok_entry [of idx t] by (cases "map_of idx t") (auto simp: indexed_def neq_Nil_conv)

lemma invalidateTable_ok:
  assumes "manager_ok m"
  shows "manager_ok (invalidateTable t m) \<and> map_of (cmItems (invalidateTable t m)) = withoutTables [t] (map_of (cmItems m))"
proof -
  have reads: "indexed (cmTables m) t k \<longleftrightarrow> (\<exists>i. map_of (cmItems m) k = Some i \<and> t \<in> set (itemTables i))" for t k
    using assms unfolding manager_but_def by blast
  show ?thesis
  proof (cases "map_of (cmTables m) t")
    case None
    then have "\<not> indexed (cmTables m) t k" for k by (simp add: indexed_def)
    then have "withoutTables [t] (map_of (cmItems m)) = map_of (cmItems m)"
      using reads by (auto simp: withoutTables_def fun_eq_iff split: option.splits)
    with None assms show ?thesis by (simp add: invalidateTable_def)
  next
    case (Some ks)
    define m' where "m' = fold dropItem ks m"
    have m': "manager_ok m'" "map_of (cmItems m') = (map_of (cmItems m)) |` (- set ks)"
      using fold_dropItem [OF assms] by (simp_all add: m'_def)
    have ks: "k \<in> set ks \<longleftrightarrow> (\<exists>i. map_of (cmItems m) k = Some i \<and> t \<in> set (itemTables i))" for k
      using reads [of t k] Some by (simp add: indexed_def)
    then have "\<not> indexed (cmTables m') t k" for k
      using m' unfolding manager_but_def by (auto simp: restrict_map_def simp del: map_of_eq_Some_iff split: if_splits)
    then have "AList.delete t (cmTables m') = cmTables m'"
      using not_indexed [of "cmTables m'" t] m'(1) by (auto simp: manager_but_def map_of_eq_None_iff intro: delete_idem)
    then have "invalidateTable t m = m'" using Some by (simp add: invalidateTable_def m'_def Let_def)
    moreover have "(map_of (cmItems m)) |` (- set ks) = withoutTables [t] (map_of (cmItems m))"
    proof
      show "((map_of (cmItems m)) |` (- set ks)) k = withoutTables [t] (map_of (cmItems m)) k" for k
        using ks [of k] by (cases "map_of (cmItems m) k") (simp_all add: restrict_map_def withoutTables_def)
    qed
    ultimately show ?thesis using m' by simp
  qed
qed

lemma withoutTables_Cons: "withoutTables (t # ts) f = withoutTables ts (withoutTables [t] f)"
  by (auto simp: withoutTables_def fun_eq_iff split: option.splits)

lemma Invalidate_ok:
  "manager_ok m \<Longrightarrow> manager_ok (Invalidate ts m) \<and> map_of (cmItems (Invalidate ts m)) = withoutTables ts (map_of (cmItems m))"
  unfolding Invalidate_def
proof (induction ts arbitrary: m)
  case (Cons t ts)
  with invalidateTable_ok [OF Cons.prems, of t] show ?case by (simp add: withoutTables_Cons [of t ts])
qed (simp add: withoutTables_def fun_eq_iff split: option.split)

lemma Cleanup_drops: "Cleanup ord now m = fold dropItem (map fst (filter (\<lambda>(k, i). now > itemStaleUntil i) ord)) m"
  unfolding Cleanup_def by (induction ord arbitrary: m) auto

lemma Cleanup_ok:
  assumes "manager_ok m" "set ord = set (cmItems m)"
  shows "manager_ok (Cleanup ord now m)"
    and "map_of (cmItems (Cleanup ord now m)) = (\<lambda>k. case map_of (cmItems m) k of
      Some i \<Rightarrow> if now > itemStaleUntil i then None else Some i | None \<Rightarrow> None)"
proof -
  let ?ks = "map fst (filter (\<lambda>(k, i). now > itemStaleUntil i) ord)"
  note f = fold_dropItem [OF assms(1), of ?ks, folded Cleanup_drops]
  from f show "manager_ok (Cleanup ord now m)" by blast
  have d: "distinct (map fst (cmItems m))" using assms(1) by (simp add: manager_but_def)
  have "k \<in> set ?ks \<longleftrightarrow> (\<exists>i. map_of (cmItems m) k = Some i \<and> now > itemStaleUntil i)" for k
    using assms(2) d by (auto simp: image_iff)
  then show "map_of (cmItems (Cleanup ord now m)) = (\<lambda>k. case map_of (cmItems m) k of
      Some i \<Rightarrow> if now > itemStaleUntil i then None else Some i | None \<Rightarrow> None)"
    using f by (auto simp: restrict_map_def fun_eq_iff simp del: map_of_eq_Some_iff split: option.splits)
qed

section \<open>The store against its specification\<close>

text \<open>
  Runs of the store, each with the contents of a store of unlimited size that forgets only what
  a write invalidates.
\<close>

inductive cache_reach :: "Manager \<Rightarrow> (bytes \<Rightarrow> Item option) \<Rightarrow> bool" where
  new: "cache_reach (NewManagerWithSize n) Map.empty"
| get: "cache_reach m f \<Longrightarrow> cache_reach (snd (Manager_Get now key m)) f"
| set_item: "cache_reach m f \<Longrightarrow> set ord = set (cmItems m) \<Longrightarrow> set ord' = set (cmItems m) \<Longrightarrow> key \<noteq> [] \<Longrightarrow>
    cache_reach (Manager_Set ord ord' evictNow now key v life ts m)
      (f(key \<mapsto> \<lparr>itemValue = v, itemExpiration = now + life, itemStaleUntil = now + life * 2, itemTables = ts\<rparr>))"
| invalidate: "cache_reach m f \<Longrightarrow> cache_reach (Invalidate ts m) (withoutTables ts f)"
| cleanup: "cache_reach m f \<Longrightarrow> set ord = set (cmItems m) \<Longrightarrow> cache_reach (Cleanup ord now m) f"

lemma Get_items: "cmItems (snd (Manager_Get now key m)) = cmItems m" "manager_but X (snd (Manager_Get now key m)) = manager_but X m"
  by (auto simp: Manager_Get_def manager_but_def split: option.splits)

lemma cache_reach_ok: "cache_reach m f \<Longrightarrow> manager_ok m \<and> map_of (cmItems m) \<subseteq>\<^sub>m f"
proof (induction rule: cache_reach.induct)
  case (new n)
  then show ?case by (auto simp: NewManagerWithSize_def manager_but_def index_ok_def indexed_def DefaultMaxSize_def)
next
  case (get m f now key)
  then show ?case by (simp add: Get_items)
next
  case (set_item m f ord ord' key evictNow now v life ts)
  let ?m = "Manager_Set ord ord' evictNow now key v life ts m"
  obtain gone where "map_of (cmItems ?m) = ((map_of (cmItems m)) |` (- set_option gone))
      (key \<mapsto> \<lparr>itemValue = v, itemExpiration = now + life, itemStaleUntil = now + life * 2, itemTables = ts\<rparr>)"
    using Set_ok(2) [of m ord ord' key] set_item by blast
  with set_item Set_ok(1) [of m ord ord' key] show ?case
    by (auto simp: map_le_def restrict_map_def simp del: map_of_eq_Some_iff split: if_splits)
next
  case (invalidate m f ts)
  then show ?case using Invalidate_ok [of m ts]
    by (force simp: map_le_def withoutTables_def dom_def split: option.splits if_splits)
next
  case (cleanup m f ord now)
  then show ?case using Cleanup_ok [of m ord now]
    by (fastforce simp: map_le_def dom_def split: option.splits if_splits)
qed

lemma cache_hit_last:
  assumes "cache_reach m f" "fst (Manager_Get now key m) = (v, True, refresh)"
  shows "\<exists>i. f key = Some i \<and> v = itemValue i \<and> (if refresh then itemExpiration i < now \<and> now < itemStaleUntil i else now \<le> itemExpiration i)"
proof -
  obtain i where i: "map_of (cmItems m) key = Some i" "v = itemValue i"
    "if refresh then itemExpiration i < now \<and> now < itemStaleUntil i else now \<le> itemExpiration i"
    using assms(2) by (auto simp: Manager_Get_def split: option.splits if_splits)
  moreover from i cache_reach_ok [OF assms(1)] have "f key = Some i" by (metis domI map_le_def)
  ultimately show ?thesis by blast
qed

text \<open>
  C9.  Whatever was stored, read, invalidated, evicted and cleaned up before, the result cache
  refines a store that forgets nothing: it never holds more than its bound, and a hit returns
  the value stored last under that very key, no write to one of its tables having come in
  between, and no more than its lifetime old, or twice that when it is flagged for a refresh.
\<close>

theorem cache_hit_is_last_stored:
  assumes "cache_reach m f" "fst (Manager_Get now key m) = (v, True, refresh)"
  shows "length (cmItems m) \<le> cmMaxSize m \<and>
    (\<exists>i. f key = Some i \<and> v = itemValue i \<and> (if refresh then itemExpiration i < now \<and> now < itemStaleUntil i else now \<le> itemExpiration i))"
  using cache_hit_last [OF assms] cache_reach_ok [OF assms(1)] by (auto simp: manager_but_def)

text \<open>
  A write evicts exactly what it makes stale: after \<^verbatim>\<open>Invalidate\<close> no entry that reads one
  of the tables is left under any key, every other entry is still there unchanged, and the
  index again lists each remaining entry under each of its tables and nothing else.
\<close>

theorem invalidate_exact:
  assumes "cache_reach m f"
  shows "map_of (cmItems (Invalidate ts m)) k =
      (case map_of (cmItems m) k of None \<Rightarrow> None | Some i \<Rightarrow> if set (itemTables i) \<inter> set ts = {} then Some i else None) \<and>
    (indexed (cmTables (Invalidate ts m)) t k \<longleftrightarrow>
       (\<exists>i. map_of (cmItems (Invalidate ts m)) k = Some i \<and> t \<in> set (itemTables i)))"
  using Invalidate_ok [of m ts] cache_reach_ok [OF assms] by (simp add: withoutTables_def manager_but_def split: option.split)

text \<open>
  What is stored can be read back: right after \<^verbatim>\<open>Set\<close>, even into a full store, a lookup
  within the lifetime is a hit with the stored bytes, and \<^verbatim>\<open>Set\<close> removes at most one other
  entry, and none while there is room.
\<close>

theorem set_then_get:
  assumes "cache_reach m f" "set ord = set (cmItems m)" "set ord' = set (cmItems m)" "key \<noteq> []" "now' \<le> now + life"
    and "m' = Manager_Set ord ord' evictNow now key v life ts m"
  shows "fst (Manager_Get now' key m') = (v, True, False) \<and> length (cmItems m') \<le> cmMaxSize m' \<and>
    (\<exists>gone. (\<forall>k. k \<noteq> key \<and> Some k \<noteq> gone \<longrightarrow> map_of (cmItems m') k = map_of (cmItems m) k) \<and>
       (length (cmItems m) < cmMaxSize m \<longrightarrow> gone = None))"
proof -
  have ok: "manager_ok m" using cache_reach_ok [OF assms(1)] by blast
  obtain gone where g: "length (cmItems m) < cmMaxSize m \<longrightarrow> gone = None"
    "map_of (cmItems m') = ((map_of (cmItems m)) |` (- set_option gone))
      (key \<mapsto> \<lparr>itemValue = v, itemExpiration = now + life, itemStaleUntil = now + life * 2, itemTables = ts\<rparr>)"
    using Set_ok(2) [OF ok assms(2-4)] assms(6) by blast
  have "length (cmItems m') \<le> cmMaxSize m'" using Set_ok(1) [OF ok assms(2-4)] assms(6) by (simp add: manager_but_def)
  moreover have "fst (Manager_Get now' key m') = (v, True, False)" using g(2) assms(5) by (simp add: Manager_Get_def)
  moreover have "\<forall>k. k \<noteq> key \<and> Some k \<noteq> gone \<longrightarrow> map_of (cmItems m') k = map_of (cmItems m) k"
    using g(2) by (auto simp: restrict_map_def elem_set)
  ultimately show ?thesis using g(1) by blast
qed

text \<open>A store of two entries: a third drops the one that expires first, then a write its table.\<close>

definition exStore :: Manager where
  "exStore = (let set1 = (\<lambda>k t m. Manager_Set (cmItems m) (cmItems m) 5 t k (k @ ''!'') 100 [''t'' @ k] m)
    in set1 ''b'' 2 (set1 ''a'' 1 (NewManagerWithSize 2)))"

lemma exStore_reach: "\<exists>f. cache_reach exStore f"
  unfolding exStore_def Let_def using cache_reach.new cache_reach.set_item by (metis list.distinct(1))

theorem cache_hit_is_last_stored_witness:
  "fst (Manager_Get 150 ''a'' exStore) = (''a!'', True, True) \<and>
   (\<exists>f i. cache_reach exStore f \<and> f ''a'' = Some i \<and> itemValue i = ''a!'' \<and> 150 < itemStaleUntil i)"
proof -
  have g: "fst (Manager_Get 150 ''a'' exStore) = (''a!'', True, True)" by code_simp
  obtain f where "cache_reach exStore f" using exStore_reach by blast
  with cache_hit_is_last_stored [OF this g] g show ?thesis by auto
qed

theorem invalidate_exact_witness:
  "map (\<lambda>k. map_of (cmItems (Invalidate [''ta''] exStore)) k \<noteq> None) [''a'', ''b''] = [False, True] \<and>
   \<not> indexed (cmTables (Invalidate [''ta''] exStore)) ''ta'' ''a''"
proof -
  obtain f where r: "cache_reach exStore f" using exStore_reach by blast
  have "map_option itemTables (map_of (cmItems exStore) ''a'') = Some [''ta'']"
    "map_option itemTables (map_of (cmItems exStore) ''b'') = Some [''tb'']" by code_simp+
  then show ?thesis using invalidate_exact [OF r, of "[''ta'']" "''a''" "''ta''"] invalidate_exact [OF r, of "[''ta'']" "''b''"]
    by auto
qed

theorem set_then_get_witness:
  "fst (Manager_Get 50 ''c'' (Manager_Set (cmItems exStore) (cmItems exStore) 5 3 ''c'' ''c!'' 100 [] exStore)) = (''c!'', True, False) \<and>
   length (cmItems exStore) = cmMaxSize exStore"
proof -
  obtain f where r: "cache_reach exStore f" using exStore_reach by blast
  have "length (cmItems exStore) = cmMaxSize exStore" by code_simp
  with set_then_get [OF r refl refl, of "''c''" 50 3 100 _ 5 "''c!''" "[]"] show ?thesis by simp
qed

end
