(* ===== verification/Middleware.thy ===== *)
theory Middleware
  imports ResultCache
begin

text \<open>
  The caching middleware of \<^verbatim>\<open>server/proxy/middleware\<close>: the key a reply is stored under
  (\<^verbatim>\<open>cache_key.go\<close>), what is served from the store and what is put there (\<^verbatim>\<open>cache.go\<close>).

  SHA-256 is an argument.  The rest of the chain is the argument \<open>next\<close>; it returns the
  session and the store as it left them, so other sessions may have used the store meanwhile.
\<close>

section \<open>A request in its session\<close>

record QueryInfo =
  ReadOnly :: bool
  InTransaction :: bool
  AffectedTables :: "bytes list"

record MSession =
  sBackend :: "bytes option"
  sState :: SessionState
  Normalized :: bytes
  sQueryInfo :: QueryInfo
  sData :: bytes
  ResponseCapture :: "bytes option"
  ReplyFailed :: bool

section \<open>The key\<close>

definition keyPart :: "bytes \<Rightarrow> bytes" where "keyPart p = put64 (length p) @ p"

definition keyParts :: "'a MSession_scheme \<Rightarrow> bytes list" where
  "keyParts s =
     [case sBackend s of None \<Rightarrow> [] | Some addr \<Rightarrow> addr, Database (sState s), User (sState s)] @
     concat (map (\<lambda>k. [k, the (map_of (Vars (sState s)) k)]) (sort (map fst (Vars (sState s))))) @
     [sData s]"

definition keyBytes :: "'a MSession_scheme \<Rightarrow> bytes" where
  "keyBytes s = concat (map keyPart (keyParts s))"

definition CacheKey :: "(bytes \<Rightarrow> bytes) \<Rightarrow> 'a MSession_scheme \<Rightarrow> bytes" where
  "CacheKey sha s = sha (keyBytes s)"

section \<open>Serving and storing\<close>

definition inTransaction :: "'a MSession_scheme \<Rightarrow> bool" where
  "inTransaction s = (TxState (sState s) \<noteq> StateIdle \<and> TxState (sState s) \<noteq> StatePartial)"

text \<open>
  The clock readings of one pass, and the order in which the store is ranged over if an entry
  has to go.
\<close>

record cache_env =
  getNow :: int
  evictNow :: int
  setNow :: int
  order1 :: "Manager \<Rightarrow> items"
  order2 :: "Manager \<Rightarrow> items"

definition cacheStore :: "cache_env \<Rightarrow> int \<Rightarrow> bytes \<Rightarrow> bool \<Rightarrow> 'a MSession_scheme \<Rightarrow> Manager \<Rightarrow> Manager" where
  "cacheStore env life key ok s m =
     (case ResponseCapture s of
        None \<Rightarrow> m
      | Some reply \<Rightarrow>
          if ok \<and> \<not> ReplyFailed s \<and> length reply > 0
          then Manager_Set (order1 env m) (order2 env m) (evictNow env) (setNow env) key reply life
                 (AffectedTables (sQueryInfo s)) m
          else m)"

text \<open>
  The result: the error, the session and the store afterwards, what was written to the client
  from the store, and whether a refresh was asked for.
\<close>

definition Cache_Handle :: "(bytes \<Rightarrow> bytes) \<Rightarrow> cache_env \<Rightarrow> bool \<Rightarrow> int \<Rightarrow> bool \<Rightarrow> 'e \<Rightarrow>
    ('a MSession_scheme \<Rightarrow> Manager \<Rightarrow> 'e option \<times> 'a MSession_scheme \<times> Manager) \<Rightarrow> 'a MSession_scheme \<Rightarrow> Manager \<Rightarrow>
    'e option \<times> 'a MSession_scheme \<times> Manager \<times> bytes option \<times> bool" where
  "Cache_Handle sha env enabled life clientOk writeError next s m =
     (let pass = (case next s m of (e, s', m') \<Rightarrow> (e, s', m', None, False)) in
      if \<not> enabled \<or> Normalized s = [] then pass
      else if \<not> Cacheable (sData s) then pass
      else if \<not> ReadOnly (sQueryInfo s) then
        (case next s m of (e, s', m') \<Rightarrow>
           (e, s', if e = None \<and> AffectedTables (sQueryInfo s') \<noteq> [] then Invalidate (AffectedTables (sQueryInfo s')) m' else m',
            None, False))
      else if InTransaction (sQueryInfo s) \<or> inTransaction s then pass
      else let key = CacheKey sha s in
        (case Manager_Get (getNow env) key m of ((reply, hit, refresh), m1) \<Rightarrow>
           if hit then
             (if clientOk then (None, s, m1, Some reply, refresh) else (Some writeError, s, m1, None, False))
           else
             (case next (s\<lparr>ResponseCapture := Some [], ReplyFailed := False\<rparr>) m1 of (e, s', m2) \<Rightarrow>
                (e, s', cacheStore env life key (e = None) s' m2, None, False))))"

section \<open>What a key tells apart\<close>

lemma put32_inj: "put32 a = put32 b \<Longrightarrow> a mod 2 ^ 32 = b mod 2 ^ 32"
  by (metis be32_put32')

lemma put64_inj:
  assumes "put64 a = put64 b" "a < 2 ^ 64" "b < 2 ^ 64"
  shows "a = b"
proof -
  have "put32 (a div 2 ^ 32) = put32 (b div 2 ^ 32)" "put32 a = put32 b" using assms(1) by (simp_all add: put64_def)
  then have "a div 2 ^ 32 mod 2 ^ 32 = b div 2 ^ 32 mod 2 ^ 32" "a mod 2 ^ 32 = b mod 2 ^ 32" using put32_inj by blast+
  moreover have "a div 2 ^ 32 < 2 ^ 32" "b div 2 ^ 32 < 2 ^ 32" using assms(2,3) by (simp_all add: less_mult_imp_div_less)
  ultimately have "a div 2 ^ 32 = b div 2 ^ 32" by (simp only: mod_less)
  with \<open>a mod 2 ^ 32 = b mod 2 ^ 32\<close> show ?thesis by (metis div_mult_mod_eq)
qed

lemma keyPart_inj:
  assumes "keyPart p @ r = keyPart q @ r'" "length p < 2 ^ 64" "length q < 2 ^ 64"
  shows "p = q \<and> r = r'"
proof -
  have "put64 (length p) = put64 (length q)" using assms(1) by (simp add: keyPart_def)
  then have "length p = length q" using put64_inj assms(2,3) by blast
  then show ?thesis using assms(1) by (simp add: keyPart_def)
qed

lemma keyParts_inj:
  "concat (map keyPart ps) = concat (map keyPart qs) \<Longrightarrow> \<forall>p\<in>set ps \<union> set qs. length p < 2 ^ 64 \<Longrightarrow> ps = qs"
proof (induction ps arbitrary: qs)
  case Nil
  then show ?case by (cases qs) (auto simp: keyPart_def put64_def put32_def)
next
  case (Cons p ps)
  then obtain q qs' where q: "qs = q # qs'" by (cases qs) (auto simp: keyPart_def put64_def put32_def)
  with Cons.prems keyPart_inj [of p "concat (map keyPart ps)" q "concat (map keyPart qs')"]
  have "p = q" "concat (map keyPart ps) = concat (map keyPart qs')" by simp_all
  with Cons.IH [of qs'] Cons.prems(2) q show ?case by simp
qed

text \<open>The two requests ask the same question, of the same data, as the same user.\<close>

definition sameQuestion :: "'a MSession_scheme \<Rightarrow> 'a MSession_scheme \<Rightarrow> bool" where
  "sameQuestion s s' \<longleftrightarrow> sData s = sData s' \<and> Database (sState s) = Database (sState s') \<and>
     User (sState s) = User (sState s') \<and> map_of (Vars (sState s)) = map_of (Vars (sState s')) \<and>
     (case sBackend s of None \<Rightarrow> [] | Some a \<Rightarrow> a) = (case sBackend s' of None \<Rightarrow> [] | Some a \<Rightarrow> a)"

definition keyable :: "'a MSession_scheme \<Rightarrow> bool" where
  "keyable s \<longleftrightarrow> distinct (map fst (Vars (sState s))) \<and> list_all (\<lambda>p. length p < 2 ^ 64) (keyParts s)"

lemma pairs_inj:
  "concat (map (\<lambda>k. [k, f k]) ks) = concat (map (\<lambda>k. [k, g k]) ks') \<Longrightarrow> ks = ks' \<and> (\<forall>k\<in>set ks. f k = g k)"
proof (induction ks arbitrary: ks')
  case Nil
  then show ?case by (cases ks') auto
next
  case (Cons k ks)
  then show ?case by (cases ks') auto
qed

lemma keyBytes_separates:
  assumes "keyable s" "keyable s'" "keyBytes s = keyBytes s'"
  shows "sameQuestion s s'"
proof -
  have "keyParts s = keyParts s'"
    using assms keyParts_inj [of "keyParts s" "keyParts s'"] by (auto simp: keyable_def keyBytes_def list_all_iff)
  then have k: "sData s = sData s'" "Database (sState s) = Database (sState s')" "User (sState s) = User (sState s')"
    "(case sBackend s of None \<Rightarrow> [] | Some a \<Rightarrow> a) = (case sBackend s' of None \<Rightarrow> [] | Some a \<Rightarrow> a)"
    "concat (map (\<lambda>k. [k, the (map_of (Vars (sState s)) k)]) (sort (map fst (Vars (sState s))))) =
     concat (map (\<lambda>k. [k, the (map_of (Vars (sState s')) k)]) (sort (map fst (Vars (sState s')))))"
    by (simp_all add: keyParts_def)
  from pairs_inj [OF k(5)] have v: "set (map fst (Vars (sState s))) = set (map fst (Vars (sState s')))"
    "\<forall>x\<in>set (map fst (Vars (sState s))). the (map_of (Vars (sState s)) x) = the (map_of (Vars (sState s')) x)"
    by (metis set_sort, simp)
  have "map_of (Vars (sState s)) x = map_of (Vars (sState s')) x" for x
  proof (cases "x \<in> set (map fst (Vars (sState s)))")
    case True
    then obtain a b where "map_of (Vars (sState s)) x = Some a" "map_of (Vars (sState s')) x = Some b"
      using v(1) by (metis map_of_eq_None_iff not_None_eq set_map)
    with v(2) True show ?thesis by auto
  next
    case False
    with v(1) show ?thesis by (metis map_of_eq_None_iff set_map)
  qed
  with k show ?thesis by (simp add: sameQuestion_def fun_eq_iff)
qed

section \<open>The store as the middleware uses it\<close>

text \<open>
  Any number of sessions share the store.  A run is a sequence of lookups, stores,
  invalidations and cleanups in any order; the log holds the requests whose replies were
  stored, with the reply.
\<close>

definition cachedRead :: "'a MSession_scheme \<Rightarrow> bool" where
  "cachedRead s \<longleftrightarrow> Cacheable (sData s) \<and> ReadOnly (sQueryInfo s) \<and> \<not> InTransaction (sQueryInfo s) \<and> \<not> inTransaction s"

definition goodOrder :: "cache_env \<Rightarrow> bool" where
  "goodOrder env \<longleftrightarrow> (\<forall>m. set (order1 env m) = set (cmItems m) \<and> set (order2 env m) = set (cmItems m))"

definition logStore :: "bool \<Rightarrow> 'a MSession_scheme \<Rightarrow> 'a MSession_scheme \<Rightarrow> ('a MSession_scheme \<times> bytes) list \<Rightarrow>
    ('a MSession_scheme \<times> bytes) list" where
  "logStore ok s s' log =
     (case ResponseCapture s' of
        None \<Rightarrow> log
      | Some reply \<Rightarrow> if ok \<and> \<not> ReplyFailed s' \<and> length reply > 0 then (s, reply) # log else log)"

inductive mw_reach :: "(bytes \<Rightarrow> bytes) \<Rightarrow> Manager \<Rightarrow> ('a MSession_scheme \<times> bytes) list \<Rightarrow> bool"
  for sha :: "bytes \<Rightarrow> bytes" where
  fresh: "mw_reach sha (NewManagerWithSize n) []"
| lookup: "mw_reach sha m log \<Longrightarrow> mw_reach sha (snd (Manager_Get now key m)) log"
| store: "mw_reach sha m log \<Longrightarrow> cachedRead s \<Longrightarrow> goodOrder env \<Longrightarrow>
    mw_reach sha (cacheStore env life (CacheKey sha s) ok s' m) (logStore ok s s' log)"
| wrote_tables: "mw_reach sha m log \<Longrightarrow> mw_reach sha (Invalidate ts m) log"
| janitor: "mw_reach sha m log \<Longrightarrow> set ord = set (cmItems m) \<Longrightarrow> mw_reach sha (Cleanup ord now m) log"

text \<open>Whatever the middleware does to the store is such a run, if the rest of the chain is.\<close>

lemma Cache_Handle_reach:
  fixes log :: "('a MSession_scheme \<times> bytes) list" and s :: "'a MSession_scheme"
  assumes "mw_reach sha m log" "goodOrder env"
    and rest: "\<And>s m (log :: ('a MSession_scheme \<times> bytes) list) e s' m'. mw_reach sha m log \<Longrightarrow> next s m = (e, s', m') \<Longrightarrow>
      \<exists>log' :: ('a MSession_scheme \<times> bytes) list. mw_reach sha m' log'"
    and "Cache_Handle sha env enabled life ok we next s m = (e, s', m', served, refresh)"
  shows "\<exists>log' :: ('a MSession_scheme \<times> bytes) list. mw_reach sha m' log'"
proof -
  obtain e1 s1 m1 where n1: "next s m = (e1, s1, m1)" by (metis prod_cases3)
  from rest [OF assms(1) n1] obtain l1 :: "('a MSession_scheme \<times> bytes) list" where l1: "mw_reach sha m1 l1" by blast
  obtain reply hit rv m2 where g: "Manager_Get (getNow env) (CacheKey sha s) m = ((reply, hit, rv), m2)" by (metis prod_cases3 prod.exhaust)
  have l2: "mw_reach sha m2 log" using lookup [OF assms(1), of "getNow env" "CacheKey sha s"] g by simp
  obtain e3 s3 m3 where n3: "next (s\<lparr>ResponseCapture := Some [], ReplyFailed := False\<rparr>) m2 = (e3, s3, m3)" by (metis prod_cases3)
  from rest [OF l2 n3] obtain l3 :: "('a MSession_scheme \<times> bytes) list" where l3: "mw_reach sha m3 l3" by blast
  consider (pass) "m' = m1" | (wrote) "m' = Invalidate (AffectedTables (sQueryInfo s1)) m1" | (hit) "m' = m2"
    | (miss) "m' = cacheStore env life (CacheKey sha s) (e3 = None) s3 m3" "cachedRead s"
    using assms(4) n1 g n3 by (auto simp: Cache_Handle_def Let_def cachedRead_def split: if_splits)
  then show ?thesis
  proof cases
    case miss
    then show ?thesis using store [OF l3 _ assms(2)] by blast
  qed (use l1 l2 wrote_tables [OF l1] in blast)+
qed

lemma mw_reach_store:
  assumes "mw_reach sha m log" "\<And>x. sha x \<noteq> []"
  shows "\<exists>f. cache_reach m f \<and> (\<forall>k i. f k = Some i \<longrightarrow> (\<exists>s. (s, itemValue i) \<in> set log \<and> cachedRead s \<and> k = CacheKey sha s))"
  using assms
proof (induction rule: mw_reach.induct)
  case (fresh n)
  then show ?case using cache_reach.new by (metis option.distinct(1))
next
  case (lookup m log now key)
  then show ?case using cache_reach.get by blast
next
  case (store m log s env life ok s')
  then obtain f where f: "cache_reach m f" "\<forall>k i. f k = Some i \<longrightarrow> (\<exists>s. (s, itemValue i) \<in> set log \<and> cachedRead s \<and> k = CacheKey sha s)"
    by blast
  show ?case
  proof (cases "\<exists>reply. ResponseCapture s' = Some reply \<and> ok \<and> \<not> ReplyFailed s' \<and> length reply > 0")
    case True
    then obtain reply where r: "ResponseCapture s' = Some reply" ok "\<not> ReplyFailed s'" "length reply > 0" by blast
    have "CacheKey sha s \<noteq> []" using store.prems by (simp add: CacheKey_def)
    moreover have "cacheStore env life (CacheKey sha s) ok s' m =
        Manager_Set (order1 env m) (order2 env m) (evictNow env) (setNow env) (CacheKey sha s) reply life (AffectedTables (sQueryInfo s')) m"
      using r by (simp add: cacheStore_def)
    moreover have "set (order1 env m) = set (cmItems m)" "set (order2 env m) = set (cmItems m)"
      using store.hyps(3) by (simp_all add: goodOrder_def)
    ultimately obtain i where i: "cache_reach (cacheStore env life (CacheKey sha s) ok s' m) (f(CacheKey sha s \<mapsto> i))" "itemValue i = reply"
      using set_item [OF f(1)] by (metis Item.select_convs(1))
    have "logStore ok s s' log = (s, reply) # log" using r by (simp add: logStore_def)
    with i(2) f(2) store.hyps(2) have "\<forall>k i'. (f(CacheKey sha s \<mapsto> i)) k = Some i' \<longrightarrow>
        (\<exists>s0. (s0, itemValue i') \<in> set (logStore ok s s' log) \<and> cachedRead s0 \<and> k = CacheKey sha s0)" by auto
    with i(1) show ?thesis by blast
  next
    case False
    then show ?thesis using f by (auto simp: cacheStore_def logStore_def split: option.splits)
  qed
next
  case (wrote_tables m log ts)
  then obtain f where f: "cache_reach m f" "\<forall>k i. f k = Some i \<longrightarrow> (\<exists>s. (s, itemValue i) \<in> set log \<and> cachedRead s \<and> k = CacheKey sha s)"
    by blast
  moreover have "f k = Some i" if "withoutTables ts f k = Some i" for k i
    using that by (auto simp: withoutTables_def split: option.splits if_splits)
  ultimately show ?case using cache_reach.invalidate [OF f(1), of ts] by blast
next
  case (janitor m log ord now)
  then show ?case using cache_reach.cleanup by blast
qed


definition exEnv :: cache_env where
  "exEnv = \<lparr>getNow = 20, evictNow = 10, setNow = 10, order1 = cmItems, order2 = cmItems\<rparr>"

definition exRead :: MSession where
  "exRead = \<lparr>sBackend = None, sState = freshSession, Normalized = ''SELECT ?'',
     sQueryInfo = \<lparr>ReadOnly = True, InTransaction = False, AffectedTables = []\<rparr>, sData = ''Q1234SELECT 1'',
     ResponseCapture = Some ''reply'', ReplyFailed = False\<rparr>"

abbreviation exSha :: "bytes \<Rightarrow> bytes" where "exSha x \<equiv> CHR ''#'' # x"

abbreviation exNext :: "MSession \<Rightarrow> Manager \<Rightarrow> unit option \<times> MSession \<times> Manager" where "exNext s m \<equiv> (Some (), s, m)"

lemma exRead_cached: "cachedRead exRead" "keyable exRead"
  by (simp_all add: exRead_def cachedRead_def Cacheable_def inTransaction_def freshSession_def keyable_def keyParts_def)


section \<open>What the key leaves out\<close>

text \<open>
  Settings the session tracker cannot follow are kept off the key: a session that shadowed a
  table with a temporary one, or set a variable in a way only its pin records, shares its
  entries with sessions that did not.
\<close>

lemma key_ignores_pins:
  "CacheKey sha (s\<lparr>sState := (sState s)\<lparr>PinnedBy := p, Pinned := b\<rparr>\<rparr>) = CacheKey sha s"
  by (simp add: CacheKey_def keyBytes_def keyParts_def)

section \<open>Refreshing a stale entry\<close>

definition maxRefreshBytes :: nat where "maxRefreshBytes = 8 * 2 ^ 20"
definition maxConcurrentRefreshes :: nat where "maxConcurrentRefreshes = 8"

text \<open>The keys being refreshed; each holds one of the slots.\<close>

definition revalidate :: "bytes \<Rightarrow> 'a MSession_scheme \<Rightarrow> bytes list \<Rightarrow> bool \<times> bytes list" where
  "revalidate key s busy =
     (if sBackend s = None then (False, busy)
      else if key \<in> set busy then (False, busy)
      else if length busy \<ge> maxConcurrentRefreshes then (False, busy)
      else (True, key # busy))"

definition refreshDone :: "bytes \<Rightarrow> bytes list \<Rightarrow> bytes list" where
  "refreshDone key busy = remove1 key busy"

fun refreshLoop :: "bytes \<Rightarrow> reads \<Rightarrow> bytes option" where
  "refreshLoop capture [] = None"
| "refreshLoop capture ((chunk, err) # rs) =
     (if chunk \<noteq> [] then
        (if length capture + length chunk > maxRefreshBytes then None
         else if PeekTransactionState chunk \<noteq> StatePartial then Some (capture @ chunk)
         else if err then None else refreshLoop (capture @ chunk) rs)
      else if err then None
      else refreshLoop capture rs)"

text \<open>
  What the refresh puts in the store, if anything.  The connection is taken from the pool of
  Pontus's own identity; \<open>acquired\<close> and \<open>replayed\<close> say how far it got.
\<close>

definition backgroundRefresh :: "cache_env \<Rightarrow> int \<Rightarrow> bool \<Rightarrow> bool \<Rightarrow> bool \<Rightarrow> reads \<Rightarrow> bytes \<Rightarrow> bytes list \<Rightarrow> Manager \<Rightarrow> Manager" where
  "backgroundRefresh env life acquired replayed sent rs key tables m =
     (if \<not> acquired \<or> \<not> replayed \<or> \<not> sent then m
      else (case refreshLoop [] rs of
              None \<Rightarrow> m
            | Some reply \<Rightarrow>
                if length reply > 0
                then Manager_Set (order1 env m) (order2 env m) (evictNow env) (setNow env) key reply life tables m
                else m))"

lemma refreshLoop_bounded: "length capture \<le> maxRefreshBytes \<Longrightarrow> refreshLoop capture rs = Some v \<Longrightarrow> length v \<le> maxRefreshBytes"
  by (induction capture rs rule: refreshLoop.induct) (auto split: if_splits)

lemma revalidate_bounded:
  assumes "revalidate key s busy = (go, busy')" "distinct busy" "length busy \<le> maxConcurrentRefreshes"
  shows "distinct busy' \<and> length busy' \<le> maxConcurrentRefreshes \<and> (go \<longrightarrow> key \<notin> set busy)"
  using assms by (auto simp: revalidate_def split: if_splits)

text \<open>
  A refresh does not look at whether the reply is an error, although the foreground path
  refuses to store one: an ErrorResponse becomes the entry every client gets.
\<close>

lemma refresh_stores_errors:
  assumes "PeekTransactionState e \<noteq> StatePartial" "e \<noteq> []" "length e \<le> maxRefreshBytes"
  shows "backgroundRefresh env life True True True ((e, err) # rs) key ts m =
    Manager_Set (order1 env m) (order2 env m) (evictNow env) (setNow env) key e life ts m"
  using assms by (simp add: backgroundRefresh_def)

end
