(* ===== verification/Tokenizer.thy ===== *)
theory Tokenizer
  imports Middleware GoText
begin

text \<open>
  What Pontus makes of a statement's text: \<^verbatim>\<open>protocol/tokenizer.go\<close>, and \<^verbatim>\<open>ClassifyQuery\<close> and
  \<^verbatim>\<open>NormalizeQuery\<close> of \<^verbatim>\<open>protocol/postgres_handler.go\<close>.

  Text is UTF-8, decoded as \<^verbatim>\<open>utf8.DecodeRuneInString\<close> does (an invalid byte is one U+FFFD).
  Unicode's tables of letters and digits beyond Latin-1, and lower case beyond ASCII, are the
  argument \<open>uni\<close>.
\<close>

section \<open>Runes\<close>

record unicode =
  uLetter :: "nat \<Rightarrow> bool"
  uDigit :: "nat \<Rightarrow> bool"
  uLower :: "bytes \<Rightarrow> bytes"

definition runeError :: nat where "runeError = 65533"

abbreviation continuation :: "byte \<Rightarrow> bool" where "continuation b \<equiv> 128 \<le> bval b \<and> bval b \<le> 191"

text \<open>The rune at the front of a text, and how many bytes it takes.\<close>

fun decode2 :: "nat \<Rightarrow> bytes \<Rightarrow> nat \<times> nat" where
  "decode2 x (b # _) = (if continuation b then ((x - 192) * 64 + (bval b - 128), 2) else (runeError, 1))"
| "decode2 x _ = (runeError, 1)"

fun decode3 :: "nat \<Rightarrow> bytes \<Rightarrow> nat \<times> nat" where
  "decode3 x (b # c # _) =
     (if (if x = 224 then 160 else 128) \<le> bval b \<and> bval b \<le> (if x = 237 then 159 else 191) \<and> continuation c
      then ((x - 224) * 4096 + (bval b - 128) * 64 + (bval c - 128), 3) else (runeError, 1))"
| "decode3 x _ = (runeError, 1)"

fun decode4 :: "nat \<Rightarrow> bytes \<Rightarrow> nat \<times> nat" where
  "decode4 x (b # c # d # _) =
     (if (if x = 240 then 144 else 128) \<le> bval b \<and> bval b \<le> (if x = 244 then 143 else 191) \<and> continuation c \<and> continuation d
      then ((x - 240) * 262144 + (bval b - 128) * 4096 + (bval c - 128) * 64 + (bval d - 128), 4) else (runeError, 1))"
| "decode4 x _ = (runeError, 1)"

fun decodeRune :: "bytes \<Rightarrow> nat \<times> nat" where
  "decodeRune [] = (runeError, 0)"
| "decodeRune (a # s) =
     (let x = bval a in
      if x < 128 then (x, 1)
      else if 194 \<le> x \<and> x \<le> 223 then decode2 x s
      else if 224 \<le> x \<and> x \<le> 239 then decode3 x s
      else if 240 \<le> x \<and> x \<le> 244 then decode4 x s
      else (runeError, 1))"

abbreviation runeAt :: "bytes \<Rightarrow> nat" where "runeAt q \<equiv> fst (decodeRune q)"
abbreviation sizeAt :: "bytes \<Rightarrow> nat" where "sizeAt q \<equiv> snd (decodeRune q)"

definition runeSpace :: "nat \<Rightarrow> bool" where
  "runeSpace r \<longleftrightarrow>
     (if r \<le> 255 then (9 \<le> r \<and> r \<le> 13) \<or> r = 32 \<or> r = 133 \<or> r = 160
      else r = 5760 \<or> (8192 \<le> r \<and> r \<le> 8202) \<or> r = 8232 \<or> r = 8233 \<or> r = 8239 \<or> r = 8287 \<or> r = 12288)"

definition runeLetter :: "unicode \<Rightarrow> nat \<Rightarrow> bool" where
  "runeLetter uni r \<longleftrightarrow>
     (if r \<le> 255 then (65 \<le> r \<and> r \<le> 90) \<or> (97 \<le> r \<and> r \<le> 122) \<or> r = 170 \<or> r = 181 \<or> r = 186 \<or>
        (192 \<le> r \<and> r \<noteq> 215 \<and> r \<noteq> 247)
      else uLetter uni r)"

definition runeDigit :: "unicode \<Rightarrow> nat \<Rightarrow> bool" where
  "runeDigit uni r \<longleftrightarrow> (if r \<le> 255 then 48 \<le> r \<and> r \<le> 57 else uDigit uni r)"

text \<open>
  What the three have in common: one byte too few or out of range is one wrong byte; otherwise
  the rune is outside ASCII, and its bytes are too.
\<close>

definition wide :: "bytes \<Rightarrow> nat \<times> nat \<Rightarrow> bool" where
  "wide s p \<longleftrightarrow> p = (runeError, 1) \<or>
     128 \<le> fst p \<and> 1 < snd p \<and> snd p \<le> length s + 1 \<and> list_all (\<lambda>b. 128 \<le> bval b) (take (snd p - 1) s)"

lemma decode2_wide: "194 \<le> x \<Longrightarrow> wide s (decode2 x s)"
  by (cases "(x, s)" rule: decode2.cases) (auto simp: wide_def)

lemma decode3_wide: "224 \<le> x \<Longrightarrow> wide s (decode3 x s)"
  by (cases "(x, s)" rule: decode3.cases) (auto simp: wide_def numeral_3_eq_3)

lemma decode4_wide: "240 \<le> x \<Longrightarrow> wide s (decode4 x s)"
  by (cases "(x, s)" rule: decode4.cases) (auto simp: wide_def)

lemma decodeRune_wide: "128 \<le> bval a \<Longrightarrow> wide s (decodeRune (a # s))"
  using decode2_wide [of "bval a" s] decode3_wide [of "bval a" s] decode4_wide [of "bval a" s]
  by (auto simp: Let_def wide_def)

lemma decodeRune_ascii [simp]: "bval x < 128 \<Longrightarrow> decodeRune (x # t) = (bval x, 1)"
  by simp

declare decodeRune.simps(2) [simp del]

lemma decodeRune_size:
  assumes "s \<noteq> []"
  shows "0 < snd (decodeRune s) \<and> snd (decodeRune s) \<le> length s"
proof -
  obtain a t where s: "s = a # t" using assms by (cases s) auto
  show ?thesis
  proof (cases "bval a < 128")
    case False
    then have "wide t (decodeRune s)" using decodeRune_wide [of a t] s by simp
    then show ?thesis by (auto simp: wide_def s)
  qed (simp add: s)
qed

section \<open>Tokens\<close>

datatype TokenType = TokenUnknown | TokenKeyword | TokenIdentifier | TokenLiteral | TokenOperator | TokenPunctuation

record Token =
  tokType :: TokenType
  tokValue :: bytes

abbreviation quote :: byte where "quote \<equiv> CHR 0x27"

text \<open>The three readers start behind the opening quote; what they return is the text behind the closing one.\<close>

fun skipQuoted :: "bytes \<Rightarrow> bytes" where
  "skipQuoted [] = []"
| "skipQuoted [c] = []"
| "skipQuoted (c # d # s) = (if c \<noteq> quote then skipQuoted (d # s) else if d = quote then skipQuoted s else d # s)"

fun unescapeQuoted :: "bytes \<Rightarrow> bytes" where
  "unescapeQuoted [] = []"
| "unescapeQuoted [c] = (if c \<noteq> quote then [c] else [])"
| "unescapeQuoted (c # d # s) =
     (if c \<noteq> quote then c # unescapeQuoted (d # s) else if d = quote then quote # unescapeQuoted s else [])"

definition readQuoted :: "bytes \<Rightarrow> bytes \<times> bytes" where
  "readQuoted s =
     (case indexByte s quote of
        None \<Rightarrow> (s, [])
      | Some i \<Rightarrow>
          if i + 1 < length s \<and> s ! (i + 1) = quote then (unescapeQuoted s, skipQuoted s)
          else (take i s, drop (i + 1) s))"

definition maxKeywordLen :: nat where "maxKeywordLen = 16"

definition keywordList :: "bytes list" where
  "keywordList =
     [''SELECT'', ''INSERT'', ''UPDATE'', ''DELETE'', ''TRUNCATE'', ''MERGE'',
      ''CREATE'', ''DROP'', ''ALTER'', ''GRANT'', ''REVOKE'', ''COMMENT'',
      ''SHOW'', ''DESCRIBE'', ''DESC'', ''EXPLAIN'', ''ANALYZE'', ''VACUUM'',
      ''CALL'', ''DO'', ''COPY'', ''REFRESH'', ''REINDEX'', ''CLUSTER'',
      ''FROM'', ''WHERE'', ''JOIN'', ''ON'', ''INTO'', ''TABLE'', ''VALUES'', ''SET'',
      ''GROUP'', ''BY'', ''ORDER'', ''LIMIT'', ''OFFSET'', ''HAVING'', ''WITH'', ''AS'',
      ''RETURNING'', ''USING'', ''ONLY'',
      ''BEGIN'', ''COMMIT'', ''ROLLBACK'', ''START'', ''TRANSACTION'', ''SAVEPOINT'',
      ''FOR'', ''SHARE'', ''SKIP'', ''LOCKED'', ''NOWAIT'', ''LOCK'',
      ''UNION'', ''INTERSECT'', ''EXCEPT'', ''OR'', ''AND'', ''NOT'', ''IN'', ''EXISTS'']"

definition upperByte :: "byte \<Rightarrow> byte" where
  "upperByte c = (if 97 \<le> bval c \<and> bval c \<le> 122 then char_of (bval c - 32) else c)"

definition keywordOf :: "bytes \<Rightarrow> bytes option" where
  "keywordOf word =
     (if length word = 0 \<or> length word > maxKeywordLen then None
      else let folded = map upperByte word in if folded \<in> set keywordList then Some folded else None)"

definition isKeyword :: "bytes \<Rightarrow> bool" where "isKeyword s = (s \<in> set keywordList)"

text \<open>The longest run of runes that satisfy \<open>P\<close>, and the text behind it.\<close>

function spanRunes :: "(nat \<Rightarrow> bool) \<Rightarrow> bytes \<Rightarrow> bytes \<times> bytes" where
  "spanRunes P q =
     (if q = [] then ([], [])
      else if P (runeAt q) then
        (let more = spanRunes P (drop (sizeAt q) q) in (take (sizeAt q) q @ fst more, snd more))
      else ([], q))"
  by pat_completeness auto
termination
  by (relation "measure (\<lambda>(_, q). length q)") (auto dest: decodeRune_size)

declare spanRunes.simps [simp del]

lemma spanRunes_Nil [simp]: "spanRunes P [] = ([], [])"
  by (simp add: spanRunes.simps)

abbreviation wordRune :: "unicode \<Rightarrow> nat \<Rightarrow> bool" where
  "wordRune uni r \<equiv> runeLetter uni r \<or> runeDigit uni r \<or> r = 95 \<or> r = 46"

abbreviation numberRune :: "unicode \<Rightarrow> nat \<Rightarrow> bool" where
  "numberRune uni r \<equiv> runeDigit uni r \<or> r = 46"

definition wordToken :: "bytes \<Rightarrow> Token" where
  "wordToken word =
     (case keywordOf word of
        Some keyword \<Rightarrow> \<lparr>tokType = TokenKeyword, tokValue = keyword\<rparr>
      | None \<Rightarrow> \<lparr>tokType = TokenIdentifier, tokValue = word\<rparr>)"

lemma spanRunes_append: "fst (spanRunes P q) @ snd (spanRunes P q) = q"
proof (induction P q rule: spanRunes.induct)
  case (1 P q)
  then show ?case by (cases "q = []"; cases "P (runeAt q)") (simp_all add: spanRunes.simps [of P q] Let_def)
qed

lemma spanRunes_length: "length (snd (spanRunes P q)) \<le> length q"
  by (metis spanRunes_append length_append le_add2)

lemma skipQuoted_length: "length (skipQuoted s) \<le> length s"
  by (induction s rule: skipQuoted.induct) auto

lemma readQuoted_length: "length (snd (readQuoted s)) \<le> length s"
  using skipQuoted_length [of s] by (auto simp: readQuoted_def split: option.splits)

function Tokenize :: "unicode \<Rightarrow> bytes \<Rightarrow> Token list" where
  "Tokenize uni q =
     (if q = [] then []
      else let r = runeAt q; size = sizeAt q in
        if runeSpace r then Tokenize uni (drop size q)
        else if runeLetter uni r \<or> r = 95 then
          (let word = spanRunes (wordRune uni) (drop size q) in
           wordToken (take size q @ fst word) # Tokenize uni (snd word))
        else if r = 39 then
          (let lit = readQuoted (drop 1 q) in
           \<lparr>tokType = TokenLiteral, tokValue = fst lit\<rparr> # Tokenize uni (snd lit))
        else if runeDigit uni r then
          (let num = spanRunes (numberRune uni) (drop size q) in
           \<lparr>tokType = TokenLiteral, tokValue = take size q @ fst num\<rparr> # Tokenize uni (snd num))
        else \<lparr>tokType = TokenPunctuation, tokValue = take size q\<rparr> # Tokenize uni (drop size q))"
  by pat_completeness auto
termination
proof -
  have d: "q \<noteq> [] \<Longrightarrow> length (drop (sizeAt q) q) < length q" for q using decodeRune_size [of q] by auto
  have s: "q \<noteq> [] \<Longrightarrow> length (snd (spanRunes P (drop (sizeAt q) q))) < length q" for P q
    using d [of q] spanRunes_length [of P "drop (sizeAt q) q"] by linarith
  have r: "q \<noteq> [] \<Longrightarrow> length (snd (readQuoted (drop 1 q))) < length q" for q
    using readQuoted_length [of "drop 1 q"] by (cases q) auto
  show ?thesis by (relation "measure (\<lambda>(_, q). length q)") (use d s r in auto)
qed

declare Tokenize.simps [simp del]

lemma Tokenize_Nil [simp]: "Tokenize uni [] = []"
  by (simp add: Tokenize.simps)

section \<open>Classification\<close>

record classifier =
  sawWrite :: bool
  sawRead :: bool
  sawBegin :: bool
  lastKeyword :: bytes
  tablesSeen :: "bytes list"

definition readKeywords :: "bytes list" where
  "readKeywords = [''SELECT'', ''SHOW'', ''DESCRIBE'', ''DESC'', ''EXPLAIN'', ''WITH'']"

definition writeKeywords :: "bytes list" where
  "writeKeywords =
     [''INSERT'', ''DELETE'', ''TRUNCATE'', ''MERGE'', ''DROP'', ''ALTER'', ''GRANT'',
      ''REVOKE'', ''CREATE'', ''COMMENT'', ''COPY'', ''CALL'', ''DO'', ''VACUUM'',
      ''REFRESH'', ''REINDEX'', ''CLUSTER'', ''LOCK'']"

definition tableKeywords :: "bytes list" where
  "tableKeywords = [''FROM'', ''JOIN'', ''UPDATE'', ''INTO'', ''TABLE'', ''ONLY'']"

definition trimQuotes :: "bytes \<Rightarrow> bytes" where
  "trimQuotes s = (let f = dropWhile (\<lambda>c. c = CHR 0x22) in rev (f (rev (f s))))"

definition lowerName :: "unicode \<Rightarrow> bytes \<Rightarrow> bytes" where
  "lowerName uni s = (if list_all (\<lambda>c. bval c < 128) s then map lowerByte s else uLower uni s)"

definition classifyToken :: "unicode \<Rightarrow> Token \<Rightarrow> classifier \<Rightarrow> classifier" where
  "classifyToken uni t c =
     (if tokType t = TokenKeyword then
        (let v = tokValue t;
             c1 = (if v \<in> set readKeywords then c\<lparr>sawRead := True\<rparr>
                   else if v = ''BEGIN'' \<or> v = ''START'' then c\<lparr>sawBegin := True\<rparr>
                   else if v = ''FOR'' then c
                   else if v = ''UPDATE'' \<or> v = ''SHARE'' then
                     (if lastKeyword c = ''FOR'' then c\<lparr>sawWrite := True\<rparr>
                      else if v = ''UPDATE'' then c\<lparr>sawWrite := True\<rparr> else c)
                   else if v \<in> set writeKeywords then c\<lparr>sawWrite := True\<rparr>
                   else c)
         in c1\<lparr>lastKeyword := v\<rparr>)
      else if tokType t \<noteq> TokenIdentifier then c
      else if lastKeyword c \<in> set tableKeywords then c\<lparr>tablesSeen := tablesSeen c @ [lowerName uni (trimQuotes (tokValue t))]\<rparr>
      else c)"

fun dedup :: "bytes list \<Rightarrow> bytes list \<Rightarrow> bytes list" where
  "dedup seen [] = []"
| "dedup seen (t # ts) = (if t \<in> set seen then dedup seen ts else t # dedup (t # seen) ts)"

definition classifyStart :: classifier where
  "classifyStart = \<lparr>sawWrite = False, sawRead = False, sawBegin = False, lastKeyword = [], tablesSeen = []\<rparr>"

definition classifyText :: "unicode \<Rightarrow> bytes \<Rightarrow> classifier" where
  "classifyText uni q = fold (classifyToken uni) (Tokenize uni q) classifyStart"

definition ClassifyQuery :: "unicode \<Rightarrow> bytes \<Rightarrow> QueryInfo" where
  "ClassifyQuery uni data =
     (let query = extractQueryBytes data in
      if query = [] then \<lparr>ReadOnly = False, InTransaction = False, AffectedTables = []\<rparr>
      else let c = classifyText uni query in
        \<lparr>ReadOnly = (sawRead c \<and> \<not> sawWrite c), InTransaction = sawBegin c,
         AffectedTables = (if length (tablesSeen c) > 1 then dedup [] (tablesSeen c) else tablesSeen c)\<rparr>)"

section \<open>Quoted literals\<close>

lemma quoted_prefix:
  "quote \<notin> set p \<Longrightarrow> skipQuoted (p @ r) = (if r = [] then [] else skipQuoted r) \<and> unescapeQuoted (p @ r) = p @ unescapeQuoted r"
proof (induction p)
  case (Cons c p)
  then show ?case by (cases "p @ r") (auto split: if_splits)
qed simp

lemma quoted_end: "skipQuoted (quote # r) = (if r \<noteq> [] \<and> hd r = quote then skipQuoted (tl r) else r)"
  "unescapeQuoted (quote # r) = (if r \<noteq> [] \<and> hd r = quote then quote # unescapeQuoted (tl r) else [])"
  by (cases r; simp)+

lemma readQuoted_eq: "readQuoted s = (unescapeQuoted s, skipQuoted s)"
proof (cases "indexByte s quote")
  case None
  then have "quote \<notin> set s" by (simp add: indexByte_None)
  with None quoted_prefix [of s "[]"] show ?thesis by (simp add: readQuoted_def)
next
  case (Some i)
  define p r where "p = take i s" and "r = drop (i + 1) s"
  have s: "s = p @ quote # r" "quote \<notin> set p" "i = length p"
    using Some id_take_nth_drop [of i s] by (auto simp: p_def r_def indexByte_Some)
  show ?thesis
  proof (cases "r \<noteq> [] \<and> hd r = quote")
    case True
    then have "i + 1 < length s \<and> s ! (i + 1) = quote" by (cases r) (simp_all add: s nth_append)
    with Some show ?thesis by (simp add: readQuoted_def)
  next
    case False
    then have "\<not> (i + 1 < length s \<and> s ! (i + 1) = quote)" by (cases r) (simp_all add: s nth_append)
    moreover have "unescapeQuoted s = p" "skipQuoted s = r"
      using False quoted_prefix [OF s(2), of "quote # r"] quoted_end [of r] by (auto simp: s(1))
    ultimately show ?thesis using Some by (simp add: readQuoted_def p_def r_def)
  qed
qed

section \<open>Statements side by side\<close>

lemma decodeRune_before:
  assumes "s \<noteq> []" "bval x < 128"
  shows "decodeRune (s @ x # t) = decodeRune s"
proof -
  have 2: "decode2 v (s @ x # t) = decode2 v s" for v s using assms(2) by (cases "(v, s)" rule: decode2.cases) auto
  have 3: "decode3 v (s @ x # t) = decode3 v s" for v s
    using assms(2) by (cases "(v, s)" rule: decode3.cases; cases t) (auto split: list.splits)
  consider "t = []" | y where "t = [y]" | y z u where "t = y # z # u" by (metis neq_Nil_conv)
  then have 4: "decode4 v (s @ x # t) = decode4 v s" for v s
    using assms(2) by cases (cases "(v, s)" rule: decode4.cases; auto)+
  obtain a r where s: "s = a # r" using assms(1) by (cases s) auto
  show ?thesis by (simp add: s decodeRune.simps Let_def 2 3 4)
qed

lemma spanRunes_before:
  assumes "\<not> P (bval x)" "bval x < 128"
  shows "spanRunes P (q @ x # t) = (fst (spanRunes P q), snd (spanRunes P q) @ x # t)"
proof (induction "length q" arbitrary: q rule: less_induct)
  case less
  show ?case
  proof (cases "q = []")
    case True
    then show ?thesis using assms by (simp add: spanRunes.simps [of P "x # t"])
  next
    case False
    note d = decodeRune_before [OF False assms(2), of t] and z = decodeRune_size [OF False]
    from less [of "drop (sizeAt q) q"] z False d show ?thesis
      by (simp add: spanRunes.simps [of P "q @ x # t"] spanRunes.simps [of P q] Let_def)
  qed
qed

lemma rune_no_quote:
  assumes "quote \<in> set (take (sizeAt q) q)"
  shows "runeAt q = 39"
proof (cases q)
  case (Cons a s)
  show ?thesis
  proof (cases "bval a < 128")
    case False
    then have "wide s (decodeRune q)" using decodeRune_wide [of a s] Cons by simp
    then have "list_all (\<lambda>b. 128 \<le> bval b) (take (sizeAt q) q)"
      using False Cons by (auto simp: wide_def take_Cons' numeral_eq_Suc)
    with assms show ?thesis by (fastforce simp: list_all_iff)
  qed (use assms Cons in auto)
qed (use assms in simp)

lemma rune_quote:
  assumes "runeAt q = 39"
  shows "\<exists>s. q = quote # s"
proof (cases q)
  case Nil
  then show ?thesis using assms by (simp add: runeError_def)
next
  case (Cons a s)
  then have "bval a < 128" using decodeRune_wide [of a s] assms by (cases "bval a < 128") (auto simp: wide_def runeError_def)
  then have "bval a = 39" using assms Cons by simp
  then have "bval a = bval quote" by simp
  then have "a = quote" by (simp only: of_char_eq_iff)
  with Cons show ?thesis by blast
qed

lemma spanRunes_no_quote: "\<not> P 39 \<Longrightarrow> quote \<notin> set (fst (spanRunes P q))"
proof (induction P q rule: spanRunes.induct)
  case (1 P q)
  then show ?case using rune_no_quote [of q]
    by (cases "q = []"; cases "P (runeAt q)") (auto simp: spanRunes.simps [of P q] Let_def)
qed

abbreviation quotes :: "bytes \<Rightarrow> nat" where "quotes s \<equiv> count_list s quote"

lemma spanRunes_quotes: "\<not> P 39 \<Longrightarrow> quotes (snd (spanRunes P q)) = quotes q"
  using spanRunes_no_quote [of P q] spanRunes_append [of P q]
  by (metis add_0 count_list_append count_notin)

lemma skipQuoted_before:
  "odd (quotes s) \<Longrightarrow> x \<noteq> quote \<Longrightarrow> skipQuoted (s @ x # t) = skipQuoted s @ x # t \<and>
     unescapeQuoted (s @ x # t) = unescapeQuoted s \<and> even (quotes (skipQuoted s))"
proof (induction s rule: skipQuoted.induct)
  case (2 c)
  then show ?case by (cases t) (auto split: if_splits)
next
  case (3 c d s)
  show ?case
  proof (cases "c = quote")
    case True
    then show ?thesis using 3 by (cases "d = quote") simp_all
  next
    case False
    then show ?thesis using 3 by simp
  qed
qed simp

text \<open>
  A semicolon outside of quotes ends what came before it: the tokens of a batch are the tokens
  of its statements.
\<close>

lemma Tokenize_statements:
  "even (quotes a) \<Longrightarrow> Tokenize uni (a @ CHR '';'' # b) = Tokenize uni a @ \<lparr>tokType = TokenPunctuation, tokValue = '';''\<rparr> # Tokenize uni b"
proof (induction "length a" arbitrary: a rule: less_induct)
  case less
  let ?x = "CHR '';''"
  show ?case
  proof (cases "a = []")
    case True
    then show ?thesis by (simp add: Tokenize.simps [of uni "?x # b"] runeSpace_def runeLetter_def runeDigit_def Let_def)
  next
    case False
    note d = decodeRune_before [OF False, of ?x b, simplified] and z = decodeRune_size [OF False]
    define r n where "r = runeAt a" and "n = sizeAt a"
    have n: "drop n (a @ ?x # b) = drop n a @ ?x # b" "take n (a @ ?x # b) = take n a" "length (drop n a) < length a"
      using z False by (simp_all add: n_def)
    have q: "r \<noteq> 39 \<Longrightarrow> quotes (drop n a) = quotes a"
      using rune_no_quote [of a] by (metis add_0 append_take_drop_id count_list_append count_notin n_def r_def)
    have w: "spanRunes P (drop n a @ ?x # b) = (fst (spanRunes P (drop n a)), snd (spanRunes P (drop n a)) @ ?x # b)" if "\<not> P 59" for P
      using spanRunes_before [of P ?x "drop n a" b] that by simp
    have l: "length (snd (spanRunes P (drop n a))) < length a" for P
      using spanRunes_length [of P "drop n a"] n(3) by linarith
    have c: "\<not> wordRune uni 59" "\<not> wordRune uni 39" "\<not> numberRune uni 59" "\<not> numberRune uni 39"
      by (simp_all add: runeLetter_def runeDigit_def)
    have step: "Tokenize uni (a @ ?x # b) = (if runeSpace r then Tokenize uni (drop n a @ ?x # b)
        else if runeLetter uni r \<or> r = 95 then
          wordToken (take n a @ fst (spanRunes (wordRune uni) (drop n a))) # Tokenize uni (snd (spanRunes (wordRune uni) (drop n a)) @ ?x # b)
        else if r = 39 then
          \<lparr>tokType = TokenLiteral, tokValue = unescapeQuoted (drop 1 (a @ ?x # b))\<rparr> # Tokenize uni (skipQuoted (drop 1 (a @ ?x # b)))
        else if runeDigit uni r then
          \<lparr>tokType = TokenLiteral, tokValue = take n a @ fst (spanRunes (numberRune uni) (drop n a))\<rparr> #
            Tokenize uni (snd (spanRunes (numberRune uni) (drop n a)) @ ?x # b)
        else \<lparr>tokType = TokenPunctuation, tokValue = take n a\<rparr> # Tokenize uni (drop n a @ ?x # b))"
      unfolding Tokenize.simps [of uni "a @ ?x # b"] Let_def d r_def [symmetric] n_def [symmetric] n readQuoted_eq fst_conv snd_conv
        w [of "wordRune uni", OF c(1)] w [of "numberRune uni", OF c(3)] using False by simp
    have step': "Tokenize uni a = (if runeSpace r then Tokenize uni (drop n a)
        else if runeLetter uni r \<or> r = 95 then
          wordToken (take n a @ fst (spanRunes (wordRune uni) (drop n a))) # Tokenize uni (snd (spanRunes (wordRune uni) (drop n a)))
        else if r = 39 then
          \<lparr>tokType = TokenLiteral, tokValue = unescapeQuoted (drop 1 a)\<rparr> # Tokenize uni (skipQuoted (drop 1 a))
        else if runeDigit uni r then
          \<lparr>tokType = TokenLiteral, tokValue = take n a @ fst (spanRunes (numberRune uni) (drop n a))\<rparr> #
            Tokenize uni (snd (spanRunes (numberRune uni) (drop n a)))
        else \<lparr>tokType = TokenPunctuation, tokValue = take n a\<rparr> # Tokenize uni (drop n a))"
      unfolding Tokenize.simps [of uni a] Let_def r_def [symmetric] n_def [symmetric] readQuoted_eq fst_conv snd_conv
      using False by simp
    show ?thesis
    proof (cases "r = 39")
      case True
      then obtain s where s: "a = quote # s" using False rune_quote [of a] by (auto simp: r_def)
      then have o': "odd (quotes s)" using less.prems by simp
      have "length (skipQuoted s) < length a" using skipQuoted_length [of s] s by simp
      from less.hyps [OF this] skipQuoted_before [OF o', of ?x b] True show ?thesis
        unfolding step step' by (simp add: s runeSpace_def runeLetter_def)
    next
      case f: False
      have e: "even (quotes (drop n a))" using q [OF f] less.prems by simp
      have e': "even (quotes (snd (spanRunes (wordRune uni) (drop n a))))" "even (quotes (snd (spanRunes (numberRune uni) (drop n a))))"
        using spanRunes_quotes [of "wordRune uni", OF c(2), of "drop n a"] spanRunes_quotes [of "numberRune uni", OF c(4), of "drop n a"] e by simp_all
      show ?thesis using less.hyps [OF n(3) e] less.hyps [OF l e'(1)] less.hyps [OF l e'(2)] f unfolding step step' by simp
    qed
  qed
qed

section \<open>Classifying a batch\<close>

definition writeToken :: "Token \<Rightarrow> bool" where
  "writeToken t \<longleftrightarrow> tokType t = TokenKeyword \<and> (tokValue t \<in> set writeKeywords \<or> tokValue t = ''UPDATE'')"

definition beginToken :: "Token \<Rightarrow> bool" where
  "beginToken t \<longleftrightarrow> tokType t = TokenKeyword \<and> (tokValue t = ''BEGIN'' \<or> tokValue t = ''START'')"

lemma classify_write: "sawWrite c \<or> (\<exists>t\<in>set ts. writeToken t) \<Longrightarrow> sawWrite (fold (classifyToken uni) ts c)"
proof (induction ts arbitrary: c)
  case (Cons t ts)
  have "sawWrite c \<or> writeToken t \<Longrightarrow> sawWrite (classifyToken uni t c)"
    by (auto simp: classifyToken_def writeToken_def writeKeywords_def readKeywords_def Let_def)
  with Cons show ?case by auto
qed simp

lemma classify_begin: "sawBegin (fold (classifyToken uni) ts c) \<longleftrightarrow> sawBegin c \<or> (\<exists>t\<in>set ts. beginToken t)"
proof (induction ts arbitrary: c)
  case (Cons t ts)
  have "sawBegin (classifyToken uni t c) \<longleftrightarrow> sawBegin c \<or> beginToken t"
    by (auto simp: classifyToken_def beginToken_def readKeywords_def Let_def)
  with Cons show ?case by auto
qed simp

lemma classify_tables:
  assumes "set (tablesSeen c) \<subseteq> set (tablesSeen c')" "lastKeyword c = lastKeyword c' \<or> lastKeyword c \<notin> set tableKeywords"
  shows "set (tablesSeen (fold (classifyToken uni) ts c)) \<subseteq> set (tablesSeen (fold (classifyToken uni) ts c'))"
  using assms
proof (induction ts arbitrary: c c')
  case (Cons t ts)
  have l: "lastKeyword (classifyToken uni t x) = (if tokType t = TokenKeyword then tokValue t else lastKeyword x)" for x
    by (simp add: classifyToken_def Let_def)
  have k: "tablesSeen (classifyToken uni t x) = (if tokType t = TokenIdentifier \<and> lastKeyword x \<in> set tableKeywords
      then tablesSeen x @ [lowerName uni (trimQuotes (tokValue t))] else tablesSeen x)" for x
    by (auto simp: classifyToken_def Let_def)
  have "set (tablesSeen (classifyToken uni t c)) \<subseteq> set (tablesSeen (classifyToken uni t c'))" using Cons.prems by (auto simp: k)
  moreover have "lastKeyword (classifyToken uni t c) = lastKeyword (classifyToken uni t c') \<or>
      lastKeyword (classifyToken uni t c) \<notin> set tableKeywords" using Cons.prems by (simp add: l)
  ultimately show ?case using Cons.IH by simp
qed simp

lemma classify_tables_mono: "set (tablesSeen c) \<subseteq> set (tablesSeen (fold (classifyToken uni) ts c))"
proof (induction ts arbitrary: c)
  case (Cons t ts)
  have "set (tablesSeen c) \<subseteq> set (tablesSeen (classifyToken uni t c))" by (auto simp: classifyToken_def Let_def)
  with Cons [of "classifyToken uni t c"] show ?case by auto
qed simp

lemma set_dedup: "set (dedup seen ts) = set ts - set seen"
  by (induction seen ts rule: dedup.induct) auto

lemma set_affected: "set (if length ts > 1 then dedup [] ts else ts) = set ts"
  by (simp add: set_dedup)

abbreviation textInfo :: "unicode \<Rightarrow> bytes \<Rightarrow> QueryInfo" where
  "textInfo uni q \<equiv> ClassifyQuery uni (queryMessage q)"

lemma textInfo_text:
  assumes "q \<noteq> []" "NUL \<notin> set q" "length q + 5 < 2 ^ 32"
  shows "ReadOnly (textInfo uni q) \<longleftrightarrow> sawRead (classifyText uni q) \<and> \<not> sawWrite (classifyText uni q)"
    and "InTransaction (textInfo uni q) \<longleftrightarrow> sawBegin (classifyText uni q)"
    and "set (AffectedTables (textInfo uni q)) = set (tablesSeen (classifyText uni q))"
  using assms extractQueryBytes_query [of q "[]"] by (simp_all add: ClassifyQuery_def Let_def set_dedup)


definition exUni :: unicode where "exUni = \<lparr>uLetter = (\<lambda>_. False), uDigit = (\<lambda>_. False), uLower = id\<rparr>"


text \<open>
  The quotes have to balance.  An apostrophe in a comment opens a literal for the tokenizer
  alone, which then swallows the write behind it; and so does a backslash-escaped one.  Nor is
  anything behind the first message of a buffer looked at.
\<close>

lemma comment_hides_write: "ReadOnly (textInfo exUni (''SELECT/*'' @ [quote] @ ''*/;DROP t''))"
proof -
  have "sawRead (classifyText exUni (''SELECT/*'' @ [quote] @ ''*/;DROP t''))"
    "\<not> sawWrite (classifyText exUni (''SELECT/*'' @ [quote] @ ''*/;DROP t''))" by code_simp+
  then show ?thesis by (subst textInfo_text) simp_all
qed

lemma select_into_is_read_only: "ReadOnly (textInfo exUni ''SELECT INTO t'')"
proof -
  have "sawRead (classifyText exUni ''SELECT INTO t'')" "\<not> sawWrite (classifyText exUni ''SELECT INTO t'')" by code_simp+
  then show ?thesis by (subst textInfo_text) simp_all
qed

lemma start_column_is_transaction: "InTransaction (textInfo exUni ''SELECT start'')"
proof -
  have "sawBegin (classifyText exUni ''SELECT start'')" by code_simp
  then show ?thesis by (subst textInfo_text) simp_all
qed

lemma later_messages_unclassified:
  assumes "NUL \<notin> set q" "length q < 2 ^ 31"
  shows "ClassifyQuery uni (queryMessage q @ rest) = ClassifyQuery uni (queryMessage q)"
  using extractQueryBytes_query [of q rest] extractQueryBytes_query [of q "[]"] assms by (simp add: ClassifyQuery_def)

section \<open>Normal forms\<close>

text \<open>\<^verbatim>\<open>[]rune(q)\<close> and \<^verbatim>\<open>WriteRune\<close>.\<close>

function runesOf :: "bytes \<Rightarrow> nat list" where
  "runesOf q = (if q = [] then [] else runeAt q # runesOf (drop (sizeAt q) q))"
  by pat_completeness auto
termination by (relation "measure length") (auto dest: decodeRune_size)

declare runesOf.simps [simp del]

definition encodeRune :: "nat \<Rightarrow> bytes" where
  "encodeRune r =
     (if r < 128 then [char_of r]
      else if r < 2048 then [char_of (192 + r div 64), char_of (128 + r mod 64)]
      else if r < 65536 then [char_of (224 + r div 4096), char_of (128 + r div 64 mod 64), char_of (128 + r mod 64)]
      else [char_of (240 + r div 262144), char_of (128 + r div 4096 mod 64), char_of (128 + r div 64 mod 64), char_of (128 + r mod 64)])"

definition isIdentStart :: "nat \<Rightarrow> bool" where
  "isIdentStart r \<longleftrightarrow> r = 95 \<or> 97 \<le> r \<and> r \<le> 122 \<or> 65 \<le> r \<and> r \<le> 90 \<or> r > 127"

definition isIdentPart :: "nat \<Rightarrow> bool" where
  "isIdentPart r \<longleftrightarrow> isIdentStart r \<or> 48 \<le> r \<and> r \<le> 57 \<or> r = 36"

fun skipString :: "nat list \<Rightarrow> nat list" where
  "skipString [] = []"
| "skipString [r] = []"
| "skipString (r # r' # rs) = (if r \<noteq> 39 then skipString (r' # rs) else if r' = 39 then skipString rs else r' # rs)"

lemma skipString_length: "length (skipString rs) \<le> length rs"
  by (induction rs rule: skipString.induct) auto

abbreviation numberPart :: "nat \<Rightarrow> bool" where "numberPart r \<equiv> 48 \<le> r \<and> r \<le> 57 \<or> r = 46"

function basicNormalize :: "nat list \<Rightarrow> nat list" where
  "basicNormalize [] = []"
| "basicNormalize (r # rs) =
     (if r = 39 then 63 # basicNormalize (skipString rs)
      else if r = 34 then 34 # takeWhile (\<lambda>x. x \<noteq> 34) rs @ 34 # basicNormalize (drop 1 (dropWhile (\<lambda>x. x \<noteq> 34) rs))
      else if isIdentStart r then r # takeWhile isIdentPart rs @ basicNormalize (dropWhile isIdentPart rs)
      else if 48 \<le> r \<and> r \<le> 57 then 63 # basicNormalize (dropWhile numberPart rs)
      else r # basicNormalize rs)"
  by pat_completeness auto
termination
proof (relation "measure length", goal_cases)
  case (2 r rs)
  then show ?case using skipString_length [of rs] by simp
next
  case (3 r rs)
  then show ?case using length_dropWhile_le [of "\<lambda>x. x \<noteq> 34" rs] by simp
next
  case (4 r rs)
  then show ?case using length_dropWhile_le [of isIdentPart rs] by simp
next
  case (5 r rs)
  then show ?case using length_dropWhile_le [of numberPart rs] by simp
qed simp_all

definition NormalizeQuery :: "bytes \<Rightarrow> bytes" where
  "NormalizeQuery data =
     (let query = extractQueryBytes data in
      if query = [] then [] else concat (map encodeRune (basicNormalize (runesOf query))))"

lemma not_ident: "\<not> isIdentPart 63" "\<not> isIdentPart 34"
  by (simp_all add: isIdentPart_def isIdentStart_def)

lemma basicNormalize_head:
  assumes "rs = [] \<or> \<not> isIdentPart (hd rs)"
  shows "basicNormalize rs = [] \<or> \<not> isIdentPart (hd (basicNormalize rs))"
proof (cases rs)
  case (Cons r t)
  then have "\<not> isIdentPart r" "\<not> isIdentStart r" using assms by (simp_all add: isIdentPart_def)
  then show ?thesis using Cons not_ident by simp
qed simp

lemma dropWhile_head: "dropWhile P rs = [] \<or> \<not> P (hd (dropWhile P rs))"
  by (metis hd_dropWhile)

text \<open>
  A normalised statement is in normal form: normalising it once more changes nothing, so no
  literal is left in it, and the name of a metric is a fixed point.
\<close>

theorem basicNormalize_idem: "basicNormalize (basicNormalize rs) = basicNormalize rs"
proof (induction rs rule: basicNormalize.induct)
  case (2 r rs)
  consider (str) "r = 39" | (name) "r = 34" | (ident) "r \<noteq> 39" "r \<noteq> 34" "isIdentStart r"
    | (num) "r \<noteq> 39" "r \<noteq> 34" "\<not> isIdentStart r" "48 \<le> r" "r \<le> 57"
    | (other) "r \<noteq> 39" "r \<noteq> 34" "\<not> isIdentStart r" "\<not> (48 \<le> r \<and> r \<le> 57)" by blast
  then show ?case
  proof cases
    case str
    then show ?thesis using 2(1) by (simp add: isIdentStart_def)
  next
    case name
    let ?w = "takeWhile (\<lambda>x. x \<noteq> 34) rs"
    have "takeWhile (\<lambda>x. x \<noteq> 34) (?w @ 34 # t) = ?w" "dropWhile (\<lambda>x. x \<noteq> 34) (?w @ 34 # t) = 34 # t" for t
      by (auto simp: takeWhile_append takeWhile_eq_all_conv dropWhile_append dest: set_takeWhileD)
    with name 2(2) show ?thesis by simp
  next
    case ident
    let ?w = "takeWhile isIdentPart rs" and ?t = "basicNormalize (dropWhile isIdentPart rs)"
    have h: "?t = [] \<or> \<not> isIdentPart (hd ?t)" using basicNormalize_head dropWhile_head by blast
    have "takeWhile isIdentPart (?w @ ?t) = ?w" "dropWhile isIdentPart (?w @ ?t) = ?t"
      using h by (cases ?t; auto simp: takeWhile_append dropWhile_append takeWhile_eq_all_conv dest: set_takeWhileD)+
    with ident 2(3) show ?thesis by simp
  next
    case num
    then show ?thesis using 2(4) by (simp add: isIdentStart_def)
  next
    case other
    then show ?thesis using 2(5) by auto
  qed
qed simp

section \<open>The cost of a statement\<close>

definition maxQueryCost :: nat where "maxQueryCost = 50"

definition keywordCost :: "bytes \<Rightarrow> nat" where
  "keywordCost v =
     (if v = ''JOIN'' then 5 else if v = ''GROUP'' then 3 else if v = ''ORDER'' then 2 else if v = ''UNION'' then 4
      else if v = ''SELECT'' then 1 else if v = ''UPDATE'' \<or> v = ''DELETE'' \<or> v = ''INSERT'' then 2 else 0)"

definition estimateCost :: "unicode \<Rightarrow> bytes \<Rightarrow> nat" where
  "estimateCost uni query =
     (if query = [] then 1
      else min maxQueryCost
        (fold (\<lambda>t cost. if tokType t = TokenKeyword then cost + keywordCost (tokValue t) else cost) (Tokenize uni query) 1))"

lemma estimateCost_bounds: "1 \<le> estimateCost uni q \<and> estimateCost uni q \<le> maxQueryCost"
proof -
  have m: "c \<le> fold (\<lambda>t cost. if tokType t = TokenKeyword then cost + keywordCost (tokValue t) else cost) ts c" for ts c
  proof (induction ts arbitrary: c)
    case (Cons t ts)
    from Cons [of "if tokType t = TokenKeyword then c + keywordCost (tokValue t) else c"] show ?case by (simp split: if_splits)
  qed simp
  show ?thesis using m [of 1 "Tokenize uni q"] by (simp add: estimateCost_def maxQueryCost_def)
qed

end
