(* ===== verification/RateLimit.thy ===== *)
theory RateLimit
  imports Tokenizer
begin

text \<open>
  The middleware chain (\<^verbatim>\<open>middleware/chain.go\<close>), the rate limiter (\<^verbatim>\<open>rate_limit.go\<close>) and the
  bounded table of one limiter per user (\<^verbatim>\<open>tenant_limiters.go\<close>).

  The token bucket itself is \<^verbatim>\<open>golang.org/x/time/rate\<close>: a limiter is a value of any type, with
  its limit, its burst and its \<^verbatim>\<open>WaitN\<close> as arguments.
\<close>

section \<open>The chain\<close>

fun Chain_Handle :: "('s \<Rightarrow> ('s \<Rightarrow> 'r) \<Rightarrow> 'r) list \<Rightarrow> 's \<Rightarrow> ('s \<Rightarrow> 'r) \<Rightarrow> 'r" where
  "Chain_Handle [] s final = final s"
| "Chain_Handle (m # ms) s final = m s (\<lambda>s'. Chain_Handle ms s' final)"

lemma Chain_Handle_append: "Chain_Handle (ms @ ns) s final = Chain_Handle ms s (\<lambda>s'. Chain_Handle ns s' final)"
  by (induction ms arbitrary: s) simp_all

section \<open>One limiter per user\<close>

definition DefaultMaxTenants :: nat where "DefaultMaxTenants = 4096"
definition tenantIdleTimeout :: int where "tenantIdleTimeout = 600 * 10 ^ 9"

record 'l tenantEntry =
  limiter :: 'l
  lastSeen :: int

type_synonym 'l tenants = "(bytes \<times> 'l tenantEntry) list"

record 'l TenantLimiters =
  tlEntries :: "'l tenants"
  tlCount :: int
  tlMax :: nat

definition NewTenantLimiters :: "int \<Rightarrow> 'l TenantLimiters" where
  "NewTenantLimiters n = \<lparr>tlEntries = [], tlCount = 0, tlMax = (if n \<le> 0 then DefaultMaxTenants else nat n)\<rparr>"

text \<open>The loop of \<^verbatim>\<open>evictLocked\<close> over the table in some order: how many were removed, and the oldest kept.\<close>

fun evictRange :: "int \<Rightarrow> 'l tenants \<Rightarrow> 'l tenants \<Rightarrow> int \<Rightarrow> int \<Rightarrow> bytes option \<Rightarrow> 'l tenants \<times> int \<times> bytes option" where
  "evictRange cutoff [] es removed oldest oldestKey = (es, removed, oldestKey)"
| "evictRange cutoff ((key, e) # ord) es removed oldest oldestKey =
     (if lastSeen e < cutoff then evictRange cutoff ord (AList.delete key es) (removed + 1) oldest oldestKey
      else if oldestKey = None \<or> lastSeen e < oldest then evictRange cutoff ord es removed (lastSeen e) (Some key)
      else evictRange cutoff ord es removed oldest oldestKey)"

definition tenants_evictLocked :: "'l tenants \<Rightarrow> int \<Rightarrow> 'l TenantLimiters \<Rightarrow> 'l TenantLimiters" where
  "tenants_evictLocked ord now t =
     (case evictRange (now - tenantIdleTimeout) ord (tlEntries t) 0 0 None of (es, removed, oldestKey) \<Rightarrow>
        let (es', removed') = (case oldestKey of
              Some k \<Rightarrow> if removed = 0 then (AList.delete k es, removed + 1) else (es, removed)
            | None \<Rightarrow> (es, removed));
            count = tlCount t - removed'
        in t\<lparr>tlEntries := es', tlCount := (if count < 0 then 0 else count)\<rparr>)"

definition admit :: "'l tenants \<Rightarrow> 'l \<Rightarrow> bytes \<Rightarrow> int \<Rightarrow> 'l TenantLimiters \<Rightarrow> 'l \<times> 'l TenantLimiters" where
  "admit ord fresh tenant now t =
     (case map_of (tlEntries t) tenant of
        Some e \<Rightarrow> (limiter e, t\<lparr>tlEntries := AList.update tenant (e\<lparr>lastSeen := now\<rparr>) (tlEntries t)\<rparr>)
      | None \<Rightarrow>
          let t1 = (if tlCount t \<ge> int (tlMax t) then tenants_evictLocked ord now t else t) in
          (fresh, t1\<lparr>tlEntries := AList.update tenant \<lparr>limiter = fresh, lastSeen = now\<rparr> (tlEntries t1), tlCount := tlCount t1 + 1\<rparr>))"

definition tenants_Get :: "'l tenants \<Rightarrow> 'l \<Rightarrow> bytes \<Rightarrow> int \<Rightarrow> 'l TenantLimiters \<Rightarrow> 'l \<times> 'l TenantLimiters" where
  "tenants_Get ord fresh tenant now t =
     (case map_of (tlEntries t) tenant of
        Some e \<Rightarrow> (limiter e, t\<lparr>tlEntries := AList.update tenant (e\<lparr>lastSeen := now\<rparr>) (tlEntries t)\<rparr>)
      | None \<Rightarrow> admit ord fresh tenant now t)"

section \<open>Charging a statement\<close>

text \<open>What a limiter is asked for, if it is asked at all.\<close>

definition waitCost :: "bool \<Rightarrow> int \<Rightarrow> nat \<Rightarrow> int option" where
  "waitCost unlimited burst cost =
     (if unlimited then None
      else Some (if burst > 0 \<and> int cost > burst then burst else int cost))"

record 'l limiterOps =
  unlimited :: "'l \<Rightarrow> bool"
  burst :: "'l \<Rightarrow> int"
  waitN :: "'l \<Rightarrow> int \<Rightarrow> bool"

definition charge :: "'l limiterOps \<Rightarrow> nat \<Rightarrow> 'l \<Rightarrow> bool" where
  "charge ops cost l = (case waitCost (unlimited ops l) (burst ops l) cost of None \<Rightarrow> True | Some n \<Rightarrow> waitN ops l n)"

definition RateLimit_Handle :: "unicode \<Rightarrow> 'l limiterOps \<Rightarrow> 'l option \<Rightarrow> 'l TenantLimiters option \<Rightarrow> 'l tenants \<Rightarrow> 'l \<Rightarrow> int \<Rightarrow> 'r \<Rightarrow>
    'a MSession_scheme \<Rightarrow> ('a MSession_scheme \<Rightarrow> 'r) \<Rightarrow> 'r \<times> 'l TenantLimiters option" where
  "RateLimit_Handle uni ops global tenants ord fresh now refused s next =
     (let cost = estimateCost uni (Normalized s) in
      if (case global of None \<Rightarrow> True | Some l \<Rightarrow> charge ops cost l) then
        (case tenants of
           None \<Rightarrow> (next s, None)
         | Some t \<Rightarrow>
             if User (sState s) = [] then (next s, Some t)
             else (case tenants_Get ord fresh (User (sState s)) now t of (l, t') \<Rightarrow>
                     (if charge ops cost l then next s else refused, Some t')))
      else (refused, tenants))"

lemma waitCost_bounded:
  "0 < b \<Longrightarrow> waitCost u b (estimateCost uni q) = Some n \<Longrightarrow> 0 < n \<and> n \<le> b"
  using estimateCost_bounds [of uni q] by (auto simp: waitCost_def split: if_splits)

section \<open>The table stays bounded\<close>

definition tenants_ok :: "'l TenantLimiters \<Rightarrow> bool" where
  "tenants_ok t \<longleftrightarrow> distinct (map fst (tlEntries t)) \<and> tlCount t = int (length (tlEntries t)) \<and>
     0 < tlMax t \<and> length (tlEntries t) \<le> tlMax t"

lemma length_delete_distinct:
  assumes "distinct (map fst t)" "k \<in> fst ` set t"
  shows "int (length (AList.delete k t)) = int (length t) - 1"
  using assms
proof (induction t)
  case (Cons e t)
  show ?case
  proof (cases "fst e = k")
    case True
    then have "AList.delete k t = t" using Cons.prems by simp
    with True show ?thesis by (cases e) simp
  next
    case False
    with Cons show ?thesis by (cases e) auto
  qed
qed simp

lemma keys_delete: "fst ` set (AList.delete k t) = fst ` set t - {k}"
  by (auto simp: AList.delete_eq)

lemma evictRange_counts:
  assumes "distinct (map fst ord)" "fst ` set ord \<subseteq> fst ` set es" "distinct (map fst es)"
    and "set_option key \<subseteq> fst ` set es - fst ` set ord"
    and "evictRange cutoff ord es r oldest key = (es', r', key')"
  shows "distinct (map fst es') \<and> int (length es') = int (length es) - (r' - r) \<and> r \<le> r' \<and>
    set_option key' \<subseteq> fst ` set es' \<and> fst ` set es' \<subseteq> fst ` set es \<and> (ord \<noteq> [] \<or> key \<noteq> None \<longrightarrow> r < r' \<or> key' \<noteq> None)"
  using assms
proof (induction cutoff ord es r oldest key rule: evictRange.induct)
  case (2 cutoff k e ord es r oldest key)
  have k: "k \<in> fst ` set es" "k \<notin> fst ` set ord" "distinct (map fst ord)" using 2(4,5) by auto
  show ?case
  proof (cases "lastSeen e < cutoff")
    case True
    have "set_option key \<subseteq> fst ` set (AList.delete k es) - fst ` set ord" using 2(7) by (auto simp: keys_delete)
    moreover have "fst ` set ord \<subseteq> fst ` set (AList.delete k es)" unfolding keys_delete using 2(5) k(2) by (simp add: subset_Diff_insert)
    moreover have "evictRange cutoff ord (AList.delete k es) (r + 1) oldest key = (es', r', key')" using 2(8) True by simp
    ultimately have "distinct (map fst es') \<and> int (length es') = int (length (AList.delete k es)) - (r' - (r + 1)) \<and> r + 1 \<le> r' \<and>
        set_option key' \<subseteq> fst ` set es' \<and> fst ` set es' \<subseteq> fst ` set (AList.delete k es)"
      using 2(1) [OF True k(3)] distinct_fst_delete [OF 2(6)] by blast
    then show ?thesis using length_delete_distinct [OF 2(6) k(1)] by (auto simp: keys_delete)
  next
    case False
    then show ?thesis using 2 k by (auto split: if_splits)
  qed
qed auto

lemma evict_frees:
  assumes "tenants_ok t" "set ord = set (tlEntries t)" "distinct ord" "tlEntries t \<noteq> []"
  shows "tenants_ok (tenants_evictLocked ord now t) \<and> length (tlEntries (tenants_evictLocked ord now t)) < length (tlEntries t) \<and>
    fst ` set (tlEntries (tenants_evictLocked ord now t)) \<subseteq> fst ` set (tlEntries t)"
proof -
  have d: "distinct (map fst (tlEntries t))" using assms(1) by (simp add: tenants_ok_def)
  then have o': "distinct (map fst ord)" "fst ` set ord = fst ` set (tlEntries t)" "ord \<noteq> []"
    using assms(2-4) by (auto simp: distinct_map)
  obtain es r key where e: "evictRange (now - tenantIdleTimeout) ord (tlEntries t) 0 0 None = (es, r, key)" by (metis prod_cases3)
  from evictRange_counts [OF o'(1) _ d _ e] o'(2,3)
  have c: "distinct (map fst es)" "int (length es) = int (length (tlEntries t)) - r" "0 \<le> r" "set_option key \<subseteq> fst ` set es" "0 < r \<or> key \<noteq> None"
    "fst ` set es \<subseteq> fst ` set (tlEntries t)" by auto
  have n: "tlCount t = int (length (tlEntries t))" "0 < tlMax t" "length (tlEntries t) \<le> tlMax t"
    using assms(1) by (simp_all add: tenants_ok_def)
  show ?thesis
  proof (cases "r = 0")
    case True
    with c(5) obtain k where k: "key = Some k" by auto
    then have "int (length (AList.delete k es)) = int (length es) - 1" using c(1,4) length_delete_distinct by simp
    then show ?thesis using True k e c n assms(4) by (auto simp: tenants_evictLocked_def tenants_ok_def distinct_fst_delete keys_delete)
  next
    case False
    then show ?thesis using e c n by (cases key) (auto simp: tenants_evictLocked_def tenants_ok_def)
  qed
qed

text \<open>Any sequence of requests by any users, at any times.\<close>

inductive tenants_reach :: "'l TenantLimiters \<Rightarrow> bool" where
  none_yet: "tenants_reach (NewTenantLimiters n)"
| asked: "tenants_reach t \<Longrightarrow> set ord = set (tlEntries t) \<Longrightarrow> distinct ord \<Longrightarrow> tenants_reach (snd (tenants_Get ord fresh tenant now t))"

lemma tenants_Get_ok:
  assumes "tenants_ok t" "set ord = set (tlEntries t)" "distinct ord"
  shows "tenants_ok (snd (tenants_Get ord fresh tenant now t))"
proof (cases "map_of (tlEntries t) tenant")
  case (Some e)
  then show ?thesis using assms(1) by (simp add: tenants_Get_def tenants_ok_def distinct_update length_update)
next
  case None
  define t1 where "t1 = (if tlCount t \<ge> int (tlMax t) then tenants_evictLocked ord now t else t)"
  have t1: "tenants_ok t1 \<and> length (tlEntries t1) < tlMax t1 \<and> fst ` set (tlEntries t1) \<subseteq> fst ` set (tlEntries t)"
  proof (cases "tlCount t \<ge> int (tlMax t)")
    case True
    then have "tlEntries t \<noteq> []" using assms(1) by (auto simp: tenants_ok_def)
    moreover have "tlMax (tenants_evictLocked ord now t) = tlMax t" by (simp add: tenants_evictLocked_def split: prod.split option.split)
    ultimately show ?thesis using evict_frees [OF assms, of now] True assms(1) by (auto simp: t1_def tenants_ok_def)
  qed (use assms(1) in \<open>simp add: t1_def tenants_ok_def\<close>)
  then have "map_of (tlEntries t1) tenant = None" using None by (auto simp: map_of_eq_None_iff)
  with t1 None show ?thesis
    by (simp add: tenants_Get_def admit_def t1_def [symmetric] Let_def tenants_ok_def distinct_update length_update)
qed

lemma tenants_reach_ok: "tenants_reach t \<Longrightarrow> tenants_ok t"
proof (induction rule: tenants_reach.induct)
  case (none_yet n)
  then show ?case by (simp add: NewTenantLimiters_def tenants_ok_def DefaultMaxTenants_def)
qed (rule tenants_Get_ok)



end
