(* ===== verification/Startup.thy ===== *)
theory Startup
  imports Session GoText
begin

text \<open>
  Opening a session: \<^verbatim>\<open>postgres_startup.go\<close>, \<^verbatim>\<open>startup_rewrite.go\<close>, \<^verbatim>\<open>cancel_key.go\<close>,
  \<^verbatim>\<open>client_tls.go\<close>, the startup methods of \<^verbatim>\<open>postgres_handler.go\<close> and the StartupMessage
  writer of \<^verbatim>\<open>backend_auth.go\<close>.

  Connections are byte streams read to a count.  The TLS handshake is an argument that takes
  the encrypted stream to the stream inside it.  The lemmas show that packets are read back as
  written and never beyond their bound, that rewriting the database of a startup packet
  changes that parameter and no other, and that the authentication exchange is relayed
  message for message until the backend is ready.
\<close>

section \<open>Packets\<close>

definition sslRequestCode :: nat where "sslRequestCode = 80877103"
definition gssEncRequestCode :: nat where "gssEncRequestCode = 80877104"
definition cancelRequestCode :: nat where "cancelRequestCode = 80877102"
definition maxStartupLen :: nat where "maxStartupLen = 10 * 2 ^ 10"

record startupPacket =
  pktRaw :: bytes
  code :: nat

datatype startup_error =
    StartupIO io_error
  | StartupLength nat
  | StartupWrite
  | TLSHandshake
  | NoStartupMessage

definition readStartupPacket :: "bytes \<Rightarrow> startup_error + startupPacket \<times> bytes" where
  "readStartupPacket s =
     (case readFull 4 s of Inl e \<Rightarrow> Inl (StartupIO e)
      | Inr (lenBuf, s1) \<Rightarrow>
          let len = be32 lenBuf in
          if len < 8 \<or> len > maxStartupLen then Inl (StartupLength len)
          else (case readFull (len - 4) s1 of Inl e \<Rightarrow> Inl (StartupIO e)
                | Inr (rest, r) \<Rightarrow> Inr (\<lparr>pktRaw = lenBuf @ rest, code = be32 rest\<rparr>, r)))"

function startupParams :: "bytes \<times> bytes \<times> bytes \<Rightarrow> bytes \<Rightarrow> bytes \<times> bytes \<times> bytes" where
  "startupParams (user, database, replication) payload =
     (case indexByte payload NUL of
        None \<Rightarrow> (user, database, replication)
      | Some idx \<Rightarrow>
          if idx = 0 then (user, database, replication)
          else let key = take idx payload; payload1 = drop (idx + 1) payload in
            (case indexByte payload1 NUL of
               None \<Rightarrow> (user, database, replication)
             | Some idx1 \<Rightarrow>
                 let value = take idx1 payload1 in
                 startupParams
                   (if key = ''user'' then (value, database, replication)
                    else if key = ''database'' then (user, value, replication)
                    else if key = ''replication'' then (user, database, value)
                    else (user, database, replication))
                   (drop (idx1 + 1) payload1)))"
  by pat_completeness auto
termination
  by (relation "measure (\<lambda>(_, p). length p)") (auto simp: indexByte_Some)

declare startupParams.simps [simp del]

definition extractStartupParams :: "bytes \<Rightarrow> bytes \<times> bytes \<times> bytes" where
  "extractStartupParams packet =
     (if length packet \<le> 8 then ([], [], []) else startupParams ([], [], []) (drop 8 packet))"

definition IsReplication :: "bytes \<Rightarrow> bool" where
  "IsReplication v = (ToLower (TrimSpace v) \<notin> {[], ''false'', ''off'', ''no'', ''0''})"

datatype rewrite_error = TooShort | NoValue bytes

text \<open>The loop over the parameters: what is appended to \<open>out\<close>, and whether one was replaced.\<close>

function rewriteLoop :: "bytes \<Rightarrow> bytes \<Rightarrow> bool \<Rightarrow> bytes \<Rightarrow> rewrite_error + bytes \<times> bool" where
  "rewriteLoop database out replaced payload =
     (case indexByte payload NUL of
        None \<Rightarrow> Inr (out, replaced)
      | Some idx \<Rightarrow>
          if idx = 0 then Inr (out, replaced)
          else let key = take idx payload; payload1 = drop (idx + 1) payload in
            (case indexByte payload1 NUL of
               None \<Rightarrow> Inl (NoValue key)
             | Some idx1 \<Rightarrow>
                 let value0 = take idx1 payload1;
                     value = (if key = ''database'' then database else value0) in
                 rewriteLoop database (out @ key @ [NUL] @ value @ [NUL])
                   (replaced \<or> key = ''database'') (drop (idx1 + 1) payload1)))"
  by pat_completeness auto
termination
  by (relation "measure (\<lambda>(_, _, _, p). length p)") (auto simp: indexByte_Some)

declare rewriteLoop.simps [simp del]

definition RewriteStartupDatabase :: "bytes \<Rightarrow> bytes \<Rightarrow> rewrite_error + bytes" where
  "RewriteStartupDatabase packet database =
     (if length packet \<le> 8 then Inl TooShort
      else case rewriteLoop database (take 4 (drop 4 packet)) False (drop 8 packet) of
        Inl e \<Rightarrow> Inl e
      | Inr (out, replaced) \<Rightarrow>
          let out1 = (if \<not> replaced then out @ ''database'' @ [NUL] @ database @ [NUL] else out) @ [NUL]
          in Inr (put32 (length out1 + 4) @ out1))"

definition writeStartup :: "bytes \<Rightarrow> bytes \<Rightarrow> (bytes \<times> bytes) list \<Rightarrow> bytes" where
  "writeStartup user database params =
     (let appendParam = (\<lambda>body key value. body @ key @ [NUL] @ value @ [NUL]);
          body0 = appendParam (put32 196608) ''user'' user;
          body1 = (if database \<noteq> [] then appendParam body0 ''database'' database else body0);
          body2 = fold (\<lambda>(key, value) body.
                    if key = ''user'' \<or> key = ''database'' then body else appendParam body key value) params body1;
          body3 = body2 @ [NUL]
      in put32 (length body3 + 4) @ body3)"

section \<open>Cancel keys\<close>

record CancelKey =
  ProcessID :: nat
  Secret :: nat
  cancelRaw :: bytes

definition cancelKeyLen :: nat where "cancelKeyLen = 16"

definition parseCancelKey :: "bytes \<Rightarrow> CancelKey option" where
  "parseCancelKey packet =
     (if length packet < cancelKeyLen then None
      else Some \<lparr>ProcessID = be32 (drop 8 packet), Secret = be32 (drop 12 packet), cancelRaw = take cancelKeyLen packet\<rparr>)"

definition BackendKeyProcessID :: "bytes \<Rightarrow> nat option" where
  "BackendKeyProcessID payload = (if length payload < 8 then None else Some (be32 payload))"

section \<open>Reading a client's startup\<close>

text \<open>
  The client's side: the bytes it will send, the bytes sent to it, and whether writes succeed.
  \<open>tls\<close> is \<^const>\<open>None\<close> when no certificate is configured, and otherwise the handshake.
\<close>

record client_io =
  inbox :: bytes
  outbox :: bytes
  writable :: bool

type_synonym tls_config = "(bytes \<Rightarrow> bytes option) option"

definition clientWrite :: "client_io \<Rightarrow> bytes \<Rightarrow> client_io option" where
  "clientWrite c p = (if writable c then Some (c\<lparr>outbox := outbox c @ p\<rparr>) else None)"

definition negotiateTLS :: "tls_config \<Rightarrow> client_io \<Rightarrow> startup_error + client_io" where
  "negotiateTLS tls c =
     (case tls of
        None \<Rightarrow> (case clientWrite c ''N'' of None \<Rightarrow> Inl StartupWrite | Some c' \<Rightarrow> Inr c')
      | Some handshake \<Rightarrow> (case clientWrite c ''S'' of
          None \<Rightarrow> Inl StartupWrite
        | Some c' \<Rightarrow> (case handshake (inbox c') of
            None \<Rightarrow> Inl TLSHandshake
          | Some inner \<Rightarrow> Inr (c'\<lparr>inbox := inner\<rparr>))))"

fun startupAttempts :: "nat \<Rightarrow> tls_config \<Rightarrow> client_io \<Rightarrow> startup_error + startupPacket \<times> client_io" where
  "startupAttempts 0 tls c = Inl NoStartupMessage"
| "startupAttempts (Suc n) tls c =
     (case readStartupPacket (inbox c) of
        Inl e \<Rightarrow> Inl e
      | Inr (pkt, rest) \<Rightarrow>
          let c1 = c\<lparr>inbox := rest\<rparr> in
          if code pkt = sslRequestCode then
            (case negotiateTLS tls c1 of Inl e \<Rightarrow> Inl e | Inr c2 \<Rightarrow> startupAttempts n tls c2)
          else if code pkt = gssEncRequestCode then
            (case clientWrite c1 ''N'' of None \<Rightarrow> Inl StartupWrite | Some c2 \<Rightarrow> startupAttempts n tls c2)
          else Inr (pkt, c1))"

definition readClientStartup :: "tls_config \<Rightarrow> client_io \<Rightarrow> startup_error + startupPacket \<times> client_io" where
  "readClientStartup tls c = startupAttempts 2 tls c"

record StartupRequest =
  reqRaw :: bytes
  reqUser :: bytes
  reqDatabase :: bytes
  reqReplication :: bytes
  Cancel :: "CancelKey option"

datatype startup_result =
    StartupFailed startup_error
  | ReplicationRequested SessionState
  | Started StartupRequest client_io SessionState

definition ReadStartup :: "tls_config \<Rightarrow> client_io \<Rightarrow> SessionState \<Rightarrow> startup_result" where
  "ReadStartup tls c state =
     (case readClientStartup tls c of
        Inl e \<Rightarrow> StartupFailed e
      | Inr (startup, c') \<Rightarrow>
          let (user, database0, replication) = extractStartupParams (pktRaw startup);
              database = (if database0 = [] then user else database0);
              state1 = state\<lparr>User := user, Database := database, Replication := replication\<rparr>
          in if code startup = cancelRequestCode then
               Started \<lparr>reqRaw = [], reqUser = [], reqDatabase = [], reqReplication = [],
                        Cancel = parseCancelKey (pktRaw startup)\<rparr> c' state1
             else if IsReplication replication then
               ReplicationRequested (state1\<lparr>StartupPacket := pktRaw startup\<rparr>)
             else
               Started \<lparr>reqRaw = pktRaw startup, reqUser = user, reqDatabase = database,
                        reqReplication = replication, Cancel = None\<rparr> c' state1)"

section \<open>Relaying authentication\<close>

definition authRequest :: "message \<Rightarrow> nat \<times> bool" where
  "authRequest m =
     (if kind m \<noteq> CHR ''R'' \<or> length (body m) < 4 then (0, False)
      else let subtype = be32 (body m) in (subtype, subtype \<in> {2, 3, 5, 7, 8, 9, 10, 11}))"

datatype auth_outcome = AuthReady | AuthRejected | AuthReadServer wire_error | AuthReadClient wire_error
  | AuthWriteClient | AuthWriteServer

text \<open>
  The exchange: what both sides have still to send, what each was sent, and the key the
  session remembers.  \<open>clientOk n\<close> and \<open>serverOk n\<close> say whether the write after \<open>n\<close> bytes works.
\<close>

record auth_relay =
  fromServer :: bytes
  fromClient :: bytes
  toClient :: bytes
  toServer :: bytes
  relayKey :: bytes

function relayAuth :: "(nat \<Rightarrow> bool) \<Rightarrow> (nat \<Rightarrow> bool) \<Rightarrow> auth_relay \<Rightarrow> auth_outcome \<times> auth_relay" where
  "relayAuth clientOk serverOk x =
     (case readMessage (fromServer x) of
        Inl e \<Rightarrow> (AuthReadServer e, x)
      | Inr (msg, rest) \<Rightarrow>
          let x1 = x\<lparr>fromServer := rest\<rparr> in
          if \<not> clientOk (length (toClient x)) then (AuthWriteClient, x1)
          else let x2 = x1\<lparr>toClient := toClient x @ raw msg\<rparr> in
            if kind msg = CHR ''K'' then
              relayAuth clientOk serverOk (if 5 \<le> length (raw msg) then x2\<lparr>relayKey := drop 5 (raw msg)\<rparr> else x2)
            else if kind msg = CHR ''Z'' then (AuthReady, x2)
            else if kind msg = CHR ''E'' then (AuthRejected, x2)
            else if kind msg = CHR ''R'' then
              (if \<not> snd (authRequest msg) then relayAuth clientOk serverOk x2
               else case readMessage (fromClient x2) of
                 Inl e \<Rightarrow> (AuthReadClient e, x2)
               | Inr (reply, crest) \<Rightarrow>
                   if \<not> serverOk (length (toServer x2)) then (AuthWriteServer, x2\<lparr>fromClient := crest\<rparr>)
                   else relayAuth clientOk serverOk
                          (x2\<lparr>fromClient := crest, toServer := toServer x2 @ raw reply\<rparr>))
            else relayAuth clientOk serverOk x2)"
  by pat_completeness auto
termination
  by (relation "measure (\<lambda>(_, _, x). length (fromServer x))") (auto dest: startup_wire.dec_consumes)

declare relayAuth.simps [simp del]

definition CompleteHandshake ::
    "(nat \<Rightarrow> bool) \<Rightarrow> (nat \<Rightarrow> bool) \<Rightarrow> StartupRequest \<Rightarrow> auth_relay \<Rightarrow> auth_outcome \<times> auth_relay" where
  "CompleteHandshake clientOk serverOk req x =
     (if \<not> serverOk (length (toServer x)) then (AuthWriteServer, x)
      else relayAuth clientOk serverOk (x\<lparr>toServer := toServer x @ reqRaw req\<rparr>))"

definition StartReplication ::
    "(nat \<Rightarrow> bool) \<Rightarrow> (nat \<Rightarrow> bool) \<Rightarrow> SessionState \<Rightarrow> auth_relay \<Rightarrow> (auth_outcome \<times> auth_relay) option" where
  "StartReplication clientOk serverOk state x =
     (if length (StartupPacket state) = 0 then None
      else if \<not> serverOk (length (toServer x)) then Some (AuthWriteServer, x)
      else Some (relayAuth clientOk serverOk (x\<lparr>toServer := toServer x @ StartupPacket state\<rparr>)))"

section \<open>Packets are read back\<close>

definition wf_packet :: "startupPacket \<Rightarrow> bool" where
  "wf_packet p = (8 \<le> length (pktRaw p) \<and> length (pktRaw p) \<le> maxStartupLen \<and>
     be32 (pktRaw p) = length (pktRaw p) \<and> code p = be32 (drop 4 (pktRaw p)))"

lemma be32_take4: "be32 (take 4 s) = be32 s"
  by (cases s rule: be32.cases) simp_all

lemma readStartupPacket_whole:
  assumes "wf_packet p"
  shows "readStartupPacket (pktRaw p @ r) = Inr (p, r)"
proof -
  have l: "8 \<le> length (pktRaw p)" "length (pktRaw p) \<le> maxStartupLen"
    "be32 (take 4 (pktRaw p)) = length (pktRaw p)" using assms by (simp_all add: wf_packet_def be32_take4)
  have "readFull 4 (pktRaw p @ r) = Inr (take 4 (pktRaw p), drop 4 (pktRaw p) @ r)"
    using l by (simp add: readFull_def)
  moreover have "readFull (length (pktRaw p) - 4) (drop 4 (pktRaw p) @ r) = Inr (drop 4 (pktRaw p), r)"
    by simp
  ultimately show ?thesis
    using assms l by (cases p) (simp add: readStartupPacket_def Let_def wf_packet_def)
qed

lemma readStartupPacket_sound:
  assumes "readStartupPacket s = Inr (p, r)"
  shows "s = pktRaw p @ r \<and> wf_packet p"
proof -
  have n: "4 \<le> length s" using assms by (auto simp: readStartupPacket_def readFull_def split: if_splits)
  let ?len = "be32 s"
  have u: "readStartupPacket s = (if ?len < 8 \<or> ?len > maxStartupLen then Inl (StartupLength ?len)
      else (case readFull (?len - 4) (drop 4 s) of Inl e \<Rightarrow> Inl (StartupIO e)
            | Inr (rest, r) \<Rightarrow> Inr (\<lparr>pktRaw = take 4 s @ rest, code = be32 rest\<rparr>, r)))"
    using n by (simp add: readStartupPacket_def readFull_def be32_take4 Let_def)
  from assms have l: "8 \<le> ?len" "?len \<le> maxStartupLen" "?len \<le> length s"
    unfolding u by (auto simp: readFull_def split: if_splits)
  then have "p = \<lparr>pktRaw = take 4 s @ take (?len - 4) (drop 4 s), code = be32 (take (?len - 4) (drop 4 s))\<rparr>"
    "r = drop ?len s" using assms unfolding u by (auto simp: readFull_def split: if_splits)
  moreover have "take 4 s @ take (?len - 4) (drop 4 s) = take ?len s"
    using l take_add [of 4 "?len - 4" s] by simp
  moreover have "be32 (take ?len s) = ?len"
    using l be32_take4 [of "take ?len s"] be32_take4 [of s] by simp
  ultimately show ?thesis
    using l by (auto simp: wf_packet_def drop_take)
qed

interpretation packet_wire: stream_codec pktRaw readStartupPacket wf_packet
proof
  show "\<And>x r. wf_packet x \<Longrightarrow> readStartupPacket (pktRaw x @ r) = Inr (x, r)" by (rule readStartupPacket_whole)
  show "\<And>x. wf_packet x \<Longrightarrow> pktRaw x \<noteq> []" by (auto simp: wf_packet_def)
  show "\<And>s x r. readStartupPacket s = Inr (x, r) \<Longrightarrow> wf_packet x \<and> s = pktRaw x @ r"
    using readStartupPacket_sound by blast
qed

section \<open>Parameters\<close>

definition encParams :: "(bytes \<times> bytes) list \<Rightarrow> bytes" where
  "encParams kvs = concat (map (\<lambda>(k, v). k @ [NUL] @ v @ [NUL]) kvs)"

definition good_param :: "bytes \<times> bytes \<Rightarrow> bool" where
  "good_param = (\<lambda>(k, v). k \<noteq> [] \<and> NUL \<notin> set k \<and> NUL \<notin> set v)"

text \<open>The value a key has last, among parameters that may repeat it.\<close>

definition lastOf :: "bytes \<Rightarrow> (bytes \<times> bytes) list \<Rightarrow> bytes \<Rightarrow> bytes" where
  "lastOf k kvs d = fold (\<lambda>(k', v) x. if k' = k then v else x) kvs d"

definition ends_params :: "bytes \<Rightarrow> bool" where
  "ends_params p = (indexByte p NUL = None \<or> indexByte p NUL = Some 0)"

lemma encParams_simps [simp]:
  "encParams [] = []" "encParams ((k, v) # kvs) = k @ NUL # v @ NUL # encParams kvs"
  "encParams (a @ b) = encParams a @ encParams b"
  by (simp_all add: encParams_def)

lemma lastOf_simps [simp]:
  "lastOf k [] d = d" "lastOf k ((k', v) # kvs) d = lastOf k kvs (if k' = k then v else d)"
  "lastOf k (a @ b) d = lastOf k b (lastOf k a d)"
  by (simp_all add: lastOf_def)

lemma startupParams_enc:
  "list_all good_param kvs \<Longrightarrow> ends_params p \<Longrightarrow>
     startupParams (u, d, r) (encParams kvs @ p) =
       (lastOf ''user'' kvs u, lastOf ''database'' kvs d, lastOf ''replication'' kvs r)"
proof (induction kvs arbitrary: u d r)
  case Nil
  then show ?case by (subst startupParams.simps) (auto simp: ends_params_def)
next
  case (Cons kv kvs)
  obtain k v where kv: "kv = (k, v)" by (cases kv)
  with Cons show ?case
    by (subst startupParams.simps) (simp add: good_param_def)
qed

definition substDatabase :: "bytes \<Rightarrow> bytes \<times> bytes \<Rightarrow> bytes \<times> bytes" where
  "substDatabase db = (\<lambda>(k, v). (k, if k = ''database'' then db else v))"

lemma rewriteLoop_params:
  "rewriteLoop db out rep payload = Inr (out', rep') \<Longrightarrow>
     \<exists>kvs p. list_all good_param kvs \<and> ends_params p \<and> payload = encParams kvs @ p \<and>
       out' = out @ encParams (map (substDatabase db) kvs) \<and>
       (rep' \<longleftrightarrow> rep \<or> ''database'' \<in> set (map fst kvs))"
proof (induction db out rep payload rule: rewriteLoop.induct)
  case (1 db out rep payload)
  show ?case
  proof (cases "ends_params payload")
    case True
    then have "out' = out" "rep' = rep"
      using "1.prems" by (auto simp: rewriteLoop.simps [of db out rep payload] ends_params_def split: option.splits if_splits)
    with True show ?thesis by (intro exI [of _ "[]"] exI [of _ payload]) simp
  next
    case False
    then obtain i where i: "indexByte payload NUL = Some i" "i \<noteq> 0" by (auto simp: ends_params_def)
    then obtain j where j: "indexByte (drop (i + 1) payload) NUL = Some j"
      using "1.prems" by (auto simp: rewriteLoop.simps [of db out rep payload] Let_def split: option.splits)
    define k v p1 where "k = take i payload" and "v = take j (drop (i + 1) payload)"
      and "p1 = drop (j + 1) (drop (i + 1) payload)"
    have pay: "payload = k @ NUL # v @ NUL # p1"
      using indexByte_SomeE [OF i(1)] indexByte_SomeE [OF j] unfolding k_def v_def p1_def by (metis Suc_eq_plus1)
    have good: "good_param (k, v)"
      using i j by (auto simp: good_param_def k_def v_def indexByte_Some)
    have "rewriteLoop db (out @ k @ [NUL] @ (if k = ''database'' then db else v) @ [NUL])
        (rep \<or> k = ''database'') p1 = Inr (out', rep')"
      using "1.prems" i j
      by (cases "k = ''database''") (simp_all add: rewriteLoop.simps [of db out rep payload] Let_def k_def v_def p1_def)
    from "1.IH" [OF i k_def refl j v_def refl this [unfolded p1_def]] obtain kvs p where
      "list_all good_param kvs" "ends_params p" "p1 = encParams kvs @ p"
      "out' = (out @ k @ [NUL] @ (if k = ''database'' then db else v) @ [NUL]) @ encParams (map (substDatabase db) kvs)"
      "rep' \<longleftrightarrow> (rep \<or> k = ''database'') \<or> ''database'' \<in> set (map fst kvs)" unfolding p1_def by blast
    with good pay show ?thesis
      by (intro exI [of _ "(k, v) # kvs"] exI [of _ p]) (auto simp: substDatabase_def)
  qed
qed

lemma lastOf_subst:
  "k \<noteq> ''database'' \<Longrightarrow> lastOf k (map (substDatabase db) kvs) d = lastOf k kvs d"
  "lastOf ''database'' (map (substDatabase db) kvs) d = (if ''database'' \<in> set (map fst kvs) then db else d)"
proof -
  show "k \<noteq> ''database'' \<Longrightarrow> lastOf k (map (substDatabase db) kvs) d = lastOf k kvs d"
    by (induction kvs arbitrary: d) (auto simp: substDatabase_def)
  show "lastOf ''database'' (map (substDatabase db) kvs) d = (if ''database'' \<in> set (map fst kvs) then db else d)"
  proof (induction kvs arbitrary: d)
    case (Cons kv kvs)
    obtain k v where "kv = (k, v)" by (cases kv)
    with Cons show ?case by (cases "k = ''database''") (simp_all add: substDatabase_def eq_commute [of k])
  qed simp
qed

lemma good_param_subst:
  "NUL \<notin> set db \<Longrightarrow> list_all good_param kvs \<Longrightarrow> list_all good_param (map (substDatabase db) kvs)"
  by (induction kvs) (auto simp: substDatabase_def good_param_def split: if_splits)

section \<open>Properties\<close>

lemma length_substDatabase:
  "length (encParams (map (substDatabase db) kvs)) \<le> length (encParams kvs) * (length db + 1)"
proof (induction kvs)
  case (Cons kv kvs)
  obtain k v where kv: "kv = (k, v)" by (cases kv)
  have "length k + length (snd (substDatabase db kv)) + 2 \<le> (length k + length v + 2) * (length db + 1)"
    by (simp add: kv substDatabase_def algebra_simps)
  with Cons kv show ?case by (simp add: substDatabase_def algebra_simps)
qed simp

lemma rewrite_shape:
  assumes "RewriteStartupDatabase packet db = Inr new" "NUL \<notin> set db"
    and "extractStartupParams packet = (u, d, r)"
  shows "extractStartupParams new = (u, db, r) \<and> (\<exists>out. new = put32 (length out + 4) @ out \<and> 5 \<le> length out \<and>
    be32 out = be32 (drop 4 packet) \<and> length out \<le> length packet * (length db + 1) + length db + 15)"
proof -
  let ?c = "take 4 (drop 4 packet)"
  have long: "8 < length packet" using assms(1) by (auto simp: RewriteStartupDatabase_def split: if_splits)
  then obtain out rep where loop: "rewriteLoop db ?c False (drop 8 packet) = Inr (out, rep)"
    using assms(1) by (auto simp: RewriteStartupDatabase_def split: sum.splits)
  from rewriteLoop_params [OF this] obtain kvs p where
    kvs: "list_all good_param kvs" "ends_params p" "drop 8 packet = encParams kvs @ p"
    "out = ?c @ encParams (map (substDatabase db) kvs)" "rep \<longleftrightarrow> ''database'' \<in> set (map fst kvs)" by auto
  define kvs' where "kvs' = map (substDatabase db) kvs @ (if rep then [] else [(''database'', db)])"
  define out1 where "out1 = ?c @ encParams kvs' @ [NUL]"
  have new: "new = put32 (length out1 + 4) @ out1"
    using assms(1) loop long kvs(4) by (auto simp: RewriteStartupDatabase_def out1_def kvs'_def Let_def)
  have good: "list_all good_param kvs'"
    using good_param_subst [OF assms(2) kvs(1)] assms(2) by (auto simp: kvs'_def good_param_def)
  have "(u, d, r) = (lastOf ''user'' kvs [], lastOf ''database'' kvs [], lastOf ''replication'' kvs [])"
    using assms(3) long kvs(3) startupParams_enc [OF kvs(1,2)] by (simp add: extractStartupParams_def)
  moreover have "drop 8 new = encParams kvs' @ [NUL]" using long by (simp add: new out1_def)
  ultimately have e: "extractStartupParams new = (u, db, r)"
    using long startupParams_enc [OF good, of "[NUL]"] kvs(5)
    by (simp add: extractStartupParams_def new out1_def ends_params_def)
      (simp add: kvs'_def lastOf_subst)
  have "length (encParams kvs) \<le> length packet" using arg_cong [OF kvs(3), of length] by simp
  then have "length (encParams (map (substDatabase db) kvs)) \<le> length packet * (length db + 1)"
    using length_substDatabase [of db kvs] mult_le_mono1 le_trans by blast
  then have "length out1 \<le> length packet * (length db + 1) + length db + 15" by (auto simp: out1_def kvs'_def)
  moreover have "be32 out1 = be32 (drop 4 packet)"
    using long be32_take4 [of out1] be32_take4 [of "drop 4 packet"] by (simp add: out1_def)
  ultimately show ?thesis using e new long by (intro conjI exI [of _ out1]) (simp_all add: out1_def)
qed

text \<open>
  Rewriting a startup packet's database.  Whenever the rewrite succeeds, the new packet
  asks for the given database, keeps the user and the replication mode the old one asked for
  (duplicated and unknown parameters included), and, if it fits the startup bound, is read
  back from the wire as exactly that packet with the same protocol version.
\<close>

theorem rewrite_database_exact:
  assumes "RewriteStartupDatabase packet db = Inr new" "NUL \<notin> set db"
    and "extractStartupParams packet = (u, d, r)"
  shows "extractStartupParams new = (u, db, r) \<and>
    (length new \<le> maxStartupLen \<longrightarrow>
       readStartupPacket (new @ rest) = Inr (\<lparr>pktRaw = new, code = be32 (drop 4 packet)\<rparr>, rest))"
proof -
  from rewrite_shape [OF assms] obtain out where e: "extractStartupParams new = (u, db, r)" and
    out: "new = put32 (length out + 4) @ out" "5 \<le> length out" "be32 out = be32 (drop 4 packet)" by blast
  have "wf_packet \<lparr>pktRaw = new, code = be32 (drop 4 packet)\<rparr>" if "length new \<le> maxStartupLen"
    using that out by (simp add: wf_packet_def maxStartupLen_def)
  with e readStartupPacket_whole show ?thesis by (metis startupPacket.select_convs(1))
qed

lemma writeStartup_eq:
  defines "kvs \<equiv> \<lambda>user db params. (''user'', user) # (if db \<noteq> [] then [(''database'', db)] else []) @
      filter (\<lambda>(k, v). k \<noteq> ''user'' \<and> k \<noteq> ''database'') params"
  shows "writeStartup user db params =
    put32 (length (encParams (kvs user db params)) + 9) @ put32 196608 @ encParams (kvs user db params) @ [NUL]"
proof -
  have "fold (\<lambda>(key, value) b. if key = ''user'' \<or> key = ''database'' then b else b @ key @ NUL # value @ [NUL])
      params b0 = b0 @ encParams (filter (\<lambda>(k, v). k \<noteq> ''user'' \<and> k \<noteq> ''database'') params)" for b0
    by (induction params arbitrary: b0) auto
  then show ?thesis by (simp add: writeStartup_def kvs_def Let_def)
qed

lemma writeStartup_params:
  assumes "list_all good_param params" "NUL \<notin> set user" "NUL \<notin> set db"
  shows "extractStartupParams (writeStartup user db params) = (user, db, lastOf ''replication'' params [])"
proof -
  let ?o = "filter (\<lambda>(k, v). k \<noteq> ''user'' \<and> k \<noteq> ''database'') params"
  let ?kvs = "(''user'', user) # (if db \<noteq> [] then [(''database'', db)] else []) @ ?o"
  let ?w = "writeStartup user db params"
  have w: "?w = put32 (length (encParams ?kvs) + 9) @ put32 196608 @ encParams ?kvs @ [NUL]"
    by (rule writeStartup_eq)
  have good: "list_all good_param ?kvs"
    using assms(1-3) by (auto simp: good_param_def list_all_iff)
  have o: "lastOf ''user'' ?o x = x" "lastOf ''database'' ?o x = x"
    "lastOf ''replication'' ?o x = lastOf ''replication'' params x" for x
    by (induction params arbitrary: x) auto
  have "drop 8 ?w = encParams ?kvs @ [NUL]" "8 < length ?w" unfolding w by simp_all
  then show ?thesis
    using startupParams_enc [OF good, of "[NUL]"] o
    by (simp add: extractStartupParams_def ends_params_def)
qed

text \<open>
  The StartupMessage Pontus sends for a user is read back, by the reader and the parameter
  scanner it uses for its own clients, as that user and database, whatever other parameters
  are sent and in whichever order; a user or database among those others is not sent.
\<close>

theorem writeStartup_roundtrip:
  assumes "list_all good_param params" "NUL \<notin> set user" "NUL \<notin> set db"
    and "length (writeStartup user db params) \<le> maxStartupLen"
  shows "readStartupPacket (writeStartup user db params @ rest) =
      Inr (\<lparr>pktRaw = writeStartup user db params, code = 196608\<rparr>, rest) \<and>
    extractStartupParams (writeStartup user db params) = (user, db, lastOf ''replication'' params [])"
proof -
  have "wf_packet \<lparr>pktRaw = writeStartup user db params, code = 196608\<rparr>"
    using assms(4) unfolding writeStartup_eq by (simp add: wf_packet_def maxStartupLen_def)
  from readStartupPacket_whole [OF this, of rest] writeStartup_params [OF assms(1-3)] show ?thesis by simp
qed

lemma good_param_example: "list_all good_param [(''replication'', ''database''), (''user'', ''x'')]"
  by (simp add: good_param_def)

theorem writeStartup_roundtrip_witness:
  "extractStartupParams (writeStartup ''bob'' ''shop'' [(''replication'', ''database''), (''user'', ''x'')]) =
     (''bob'', ''shop'', ''database'')"
proof -
  have "length (writeStartup ''bob'' ''shop'' [(''replication'', ''database''), (''user'', ''x'')]) \<le> maxStartupLen"
    by (simp add: writeStartup_def maxStartupLen_def)
  with writeStartup_roundtrip [OF good_param_example, of "''bob''" "''shop''"] show ?thesis by simp
qed

theorem rewrite_database_exact_witness:
  "\<exists>new. RewriteStartupDatabase (put32 24 @ put32 196608 @ ''user'' @ [NUL] @ ''bob'' @ [NUL, NUL]) ''real'' = Inr new \<and>
     extractStartupParams new = (''bob'', ''real'', [])"
proof -
  let ?p = "put32 24 @ put32 196608 @ ''user'' @ [NUL] @ ''bob'' @ [NUL, NUL]"
  have d: "drop 8 ?p = ''user'' @ [NUL] @ ''bob'' @ [NUL, NUL]" by simp
  then have e: "extractStartupParams ?p = (''bob'', [], [])"
    by (simp add: extractStartupParams_def startupParams.simps)
  have "\<exists>new. RewriteStartupDatabase ?p ''real'' = Inr new"
    unfolding RewriteStartupDatabase_def d by (simp add: rewriteLoop.simps)
  with rewrite_database_exact [OF _ _ e, of "''real''"] show ?thesis by auto
qed

section \<open>The relayed exchange\<close>

definition keyAfter :: "message list \<Rightarrow> bytes \<Rightarrow> bytes" where
  "keyAfter ms k = fold (\<lambda>m k. if kind m = CHR ''K'' then body m else k) ms k"

abbreviation awaitsReply :: "message \<Rightarrow> bool" where
  "awaitsReply m \<equiv> snd (authRequest m)"

lemma wf_message_raw: "wf_message m \<Longrightarrow> 5 \<le> length (raw m) \<and> drop 5 (raw m) = body m"
  using length_writeTagged [of "kind m" "body m"] by (metis body_def le_add2 wf_message_def)

lemma awaitsReply_kind: "awaitsReply m \<Longrightarrow> kind m = CHR ''R''"
  by (simp add: authRequest_def split: if_splits)

lemma relayAuth_messages:
  assumes "wf_message z" "kind z = CHR ''Z''"
  shows "list_all wf_message pre \<Longrightarrow> list_all (\<lambda>m. kind m \<noteq> CHR ''Z'' \<and> kind m \<noteq> CHR ''E'') pre \<Longrightarrow>
    list_all wf_message rs \<Longrightarrow> length rs = length (filter awaitsReply pre) \<Longrightarrow>
    relayAuth (\<lambda>_. True) (\<lambda>_. True)
      \<lparr>fromServer = concat (map raw pre) @ raw z @ sr, fromClient = concat (map raw rs) @ cr,
       toClient = tc, toServer = ts, relayKey = k\<rparr> =
    (AuthReady, \<lparr>fromServer = sr, fromClient = cr, toClient = tc @ concat (map raw pre) @ raw z,
       toServer = ts @ concat (map raw rs), relayKey = keyAfter pre k\<rparr>)"
proof (induction pre arbitrary: rs tc ts k)
  case Nil
  then show ?case using assms by (subst relayAuth.simps) (simp add: startup_wire.dec_enc keyAfter_def Let_def)
next
  case (Cons m pre)
  then have m: "wf_message m" "kind m \<noteq> CHR ''Z''" "kind m \<noteq> CHR ''E''" by simp_all
  show ?case
  proof (cases "awaitsReply m")
    case True
    then obtain q rs' where rs: "rs = q # rs'" "wf_message q" using Cons.prems by (cases rs) auto
    show ?thesis
      using Cons.IH [of rs' "tc @ raw m" "ts @ raw q" k] Cons.prems m rs True awaitsReply_kind [OF True]
      by (subst relayAuth.simps) (simp add: startup_wire.dec_enc keyAfter_def Let_def)
  next
    case False
    show ?thesis
      using Cons.IH [of rs "tc @ raw m" ts k] Cons.IH [of rs "tc @ raw m" ts "body m"] Cons.prems m False
        wf_message_raw [OF m(1)]
      by (subst relayAuth.simps) (simp add: startup_wire.dec_enc keyAfter_def Let_def)
  qed
qed

text \<open>
  C30.  Authentication is relayed transparently.  When the backend completes the startup and
  the client answers every request that asks for an answer, the exchange ends in success, the
  backend was sent the client's startup packet and its replies, the client was sent every
  message of the backend up to ReadyForQuery, nothing was read beyond either, and the session
  remembers the backend key that went by.
\<close>

theorem handshake_transparent:
  assumes "list_all wf_message pre" "list_all (\<lambda>m. kind m \<noteq> CHR ''Z'' \<and> kind m \<noteq> CHR ''E'') pre"
    and "wf_message z" "kind z = CHR ''Z''"
    and "list_all wf_message rs" "length rs = length (filter awaitsReply pre)"
  shows "CompleteHandshake (\<lambda>_. True) (\<lambda>_. True) req
      \<lparr>fromServer = concat (map raw pre) @ raw z @ sr, fromClient = concat (map raw rs) @ cr,
       toClient = [], toServer = [], relayKey = k\<rparr> =
    (AuthReady, \<lparr>fromServer = sr, fromClient = cr, toClient = concat (map raw (pre @ [z])),
       toServer = reqRaw req @ concat (map raw rs), relayKey = keyAfter pre k\<rparr>)"
  using relayAuth_messages [OF assms(3,4,1,2,5,6), of sr cr "[]" "reqRaw req" k]
  by (simp add: CompleteHandshake_def)

theorem handshake_transparent_witness:
  "let r = \<lparr>kind = CHR ''R'', raw = writeTagged CHR ''R'' (put32 3)\<rparr>; p = \<lparr>kind = CHR ''p'', raw = writeTagged CHR ''p'' ''pw''\<rparr>;
       z = \<lparr>kind = CHR ''Z'', raw = writeTagged CHR ''Z'' ''I''\<rparr>
   in fst (CompleteHandshake (\<lambda>_. True) (\<lambda>_. True)
        \<lparr>reqRaw = ''x'', reqUser = [], reqDatabase = [], reqReplication = [], Cancel = None\<rparr>
        \<lparr>fromServer = concat (map raw [r]) @ raw z @ [], fromClient = concat (map raw [p]) @ [],
         toClient = [], toServer = [], relayKey = []\<rparr>) = AuthReady"
proof -
  let ?r = "\<lparr>kind = CHR ''R'', raw = writeTagged CHR ''R'' (put32 3)\<rparr>"
  let ?p = "\<lparr>kind = CHR ''p'', raw = writeTagged CHR ''p'' ''pw''\<rparr>"
  let ?z = "\<lparr>kind = CHR ''Z'', raw = writeTagged CHR ''Z'' ''I''\<rparr>"
  have wf: "wf_message ?r" "wf_message ?p" "wf_message ?z"
    by (simp_all add: wf_message_def maxStartupMsgLen_def)
  have "awaitsReply ?r" by (simp add: authRequest_def)
  with wf handshake_transparent [of "[?r]" ?z "[?p]"
      "\<lparr>reqRaw = ''x'', reqUser = [], reqDatabase = [], reqReplication = [], Cancel = None\<rparr>" "[]" "[]" "[]"]
  show ?thesis by simp
qed

section \<open>Negotiation\<close>

lemma request_packet:
  assumes "c < 2 ^ 32"
  shows "readStartupPacket (put32 8 @ put32 c @ r) = Inr (\<lparr>pktRaw = put32 8 @ put32 c, code = c\<rparr>, r)"
  using readStartupPacket_whole [of "\<lparr>pktRaw = put32 8 @ put32 c, code = c\<rparr>" r] assms
  by (simp add: wf_packet_def maxStartupLen_def)

text \<open>
  A client that begins with an SSLRequest is not mistaken for a session.  With no
  certificate it is sent one N and its StartupMessage is then read from the same stream; with
  one, it is sent one S and the StartupMessage is read from inside the TLS stream.  Either way
  the session gets the identity in that packet, with the database defaulting to the user.
\<close>

theorem ssl_request_then_startup:
  assumes "wf_packet p" "code p \<notin> {sslRequestCode, gssEncRequestCode, cancelRequestCode}"
    and "extractStartupParams (pktRaw p) = (u, d, r)" "\<not> IsReplication r"
    and "inbox c = put32 8 @ put32 sslRequestCode @ wire" "writable c"
    and "case tls of None \<Rightarrow> wire = pktRaw p @ rest | Some handshake \<Rightarrow> handshake wire = Some (pktRaw p @ rest)"
  shows "ReadStartup tls c state =
    Started \<lparr>reqRaw = pktRaw p, reqUser = u, reqDatabase = (if d = [] then u else d), reqReplication = r, Cancel = None\<rparr>
      (c\<lparr>inbox := rest, outbox := outbox c @ (if tls = None then ''N'' else ''S'')\<rparr>)
      (state\<lparr>User := u, Database := (if d = [] then u else d), Replication := r\<rparr>)"
proof -
  have ssl: "sslRequestCode < 2 ^ 32" by (simp add: sslRequestCode_def)
  have "negotiateTLS tls (c\<lparr>inbox := wire\<rparr>) =
      Inr (c\<lparr>inbox := pktRaw p @ rest, outbox := outbox c @ (if tls = None then ''N'' else ''S'')\<rparr>)"
    using assms(6,7) by (cases c; cases tls) (simp_all add: negotiateTLS_def clientWrite_def)
  then have "readClientStartup tls c =
      Inr (p, c\<lparr>inbox := rest, outbox := outbox c @ (if tls = None then ''N'' else ''S'')\<rparr>)"
    using assms(1,2,5) request_packet [OF ssl, of wire]
    by (simp add: readClientStartup_def numeral_2_eq_2 readStartupPacket_whole Let_def)
  with assms(2-4) show ?thesis by (simp add: ReadStartup_def Let_def)
qed

theorem ssl_request_then_startup_witness:
  "let w = writeStartup ''bob'' [] [] in
   ReadStartup None \<lparr>inbox = put32 8 @ put32 sslRequestCode @ w, outbox = [], writable = True\<rparr> freshSession =
     Started \<lparr>reqRaw = w, reqUser = ''bob'', reqDatabase = ''bob'', reqReplication = [], Cancel = None\<rparr>
       \<lparr>inbox = [], outbox = ''N'', writable = True\<rparr>
       (freshSession\<lparr>User := ''bob'', Database := ''bob'', Replication := []\<rparr>)"
proof -
  let ?w = "writeStartup ''bob'' [] []"
  have w: "?w = put32 18 @ put32 196608 @ ''user'' @ [NUL] @ ''bob'' @ [NUL, NUL]" by (simp add: writeStartup_def)
  have "wf_packet \<lparr>pktRaw = ?w, code = 196608\<rparr>" unfolding w by (simp add: wf_packet_def maxStartupLen_def)
  moreover have "extractStartupParams ?w = (''bob'', [], [])"
    unfolding w by (simp add: extractStartupParams_def startupParams.simps)
  moreover have "\<not> IsReplication []"
    by (simp add: IsReplication_def TrimSpace_def trimLeading.simps)
  ultimately show ?thesis
    using ssl_request_then_startup [of "\<lparr>pktRaw = ?w, code = 196608\<rparr>" "''bob''" "[]" "[]"
        "\<lparr>inbox = put32 8 @ put32 sslRequestCode @ ?w, outbox = [], writable = True\<rparr>" ?w "[]" None freshSession]
    by (simp add: sslRequestCode_def gssEncRequestCode_def cancelRequestCode_def Let_def)
qed

text \<open>
  Two openings that are not handled.  A client that asks for both kinds of encryption, as the
  loop's bound provides for, is refused before its StartupMessage is read; and a
  CancelRequest too short to hold a key is handed on as a session with nothing in it.
\<close>

lemma code_bounds: "sslRequestCode < 2 ^ 32" "gssEncRequestCode < 2 ^ 32" "cancelRequestCode < 2 ^ 32"
  by (simp_all add: sslRequestCode_def gssEncRequestCode_def cancelRequestCode_def)

lemma code_distinct: "gssEncRequestCode \<noteq> sslRequestCode" "cancelRequestCode \<noteq> sslRequestCode"
  "cancelRequestCode \<noteq> gssEncRequestCode"
  by (simp_all add: sslRequestCode_def gssEncRequestCode_def cancelRequestCode_def)

lemma both_requests_refused:
  "ReadStartup None \<lparr>inbox = put32 8 @ put32 gssEncRequestCode @ put32 8 @ put32 sslRequestCode @ rest,
      outbox = [], writable = True\<rparr> state = StartupFailed NoStartupMessage"
  using request_packet [OF code_bounds(2), of "put32 8 @ put32 sslRequestCode @ rest"]
    request_packet [OF code_bounds(1), of rest]
  by (simp add: ReadStartup_def readClientStartup_def numeral_2_eq_2 code_distinct negotiateTLS_def clientWrite_def)

lemma short_cancel_is_session:
  "ReadStartup None \<lparr>inbox = put32 8 @ put32 cancelRequestCode @ rest, outbox = [], writable = True\<rparr> state =
     Started \<lparr>reqRaw = [], reqUser = [], reqDatabase = [], reqReplication = [], Cancel = None\<rparr>
       \<lparr>inbox = rest, outbox = [], writable = True\<rparr> (state\<lparr>User := [], Database := [], Replication := []\<rparr>)"
  using request_packet [OF code_bounds(3), of rest]
  by (simp add: ReadStartup_def readClientStartup_def numeral_2_eq_2 code_distinct extractStartupParams_def
      parseCancelKey_def cancelKeyLen_def)

end
