(* ===== verification/Authentication.thy ===== *)
theory Authentication
  imports Startup
begin

text \<open>
  Authentication on Pontus's own account: the messages of \<^verbatim>\<open>sasl.go\<close>, the exchange with a client
  (\<^verbatim>\<open>client_auth.go\<close> of the protocol and proxy packages) and the exchange with a backend
  (\<^verbatim>\<open>backend_auth.go\<close>).

  An exchange is a function of what the peer will send (\<^const>\<open>inbox\<close>) and returns its result
  together with what was sent; random bytes and hash functions are arguments.  The lemmas show
  that a client with the right key logs in, that the key recovered from any accepted client
  logs Pontus in on any backend with the same verifier, and that what a backend reported at
  startup reaches every later client of its connection unchanged.
\<close>

section \<open>Messages\<close>

definition authOK :: nat where "authOK = 0"
definition authCleartextPassword :: nat where "authCleartextPassword = 3"
definition authMD5Password :: nat where "authMD5Password = 5"
definition authSASL :: nat where "authSASL = 10"
definition authSASLContinue :: nat where "authSASLContinue = 11"
definition authSASLFinal :: nat where "authSASLFinal = 12"
definition saslMechanismSCRAM :: bytes where "saslMechanismSCRAM = ''SCRAM-SHA-256''"

lemmas auth_codes = authOK_def authCleartextPassword_def authMD5Password_def authSASL_def
  authSASLContinue_def authSASLFinal_def

datatype auth_error =
    AuthWrite
  | AuthWire wire_error
  | AuthUnexpected byte
  | AuthMalformed
  | AuthRefused bytes
  | AuthUnexpectedType int
  | AuthScram scram_error
  | AuthNoRandom
  | AuthNilVerifier
  | ErrAuthRejected
  | ErrUnsupportedAuth

record AuthRequest =
  authType :: int
  authSalt :: bytes
  Mechanisms :: "bytes list"
  authData :: bytes

definition WriteAuthSASL :: bytes where
  "WriteAuthSASL = writeTagged CHR ''R'' (put32 authSASL @ saslMechanismSCRAM @ [NUL] @ [NUL])"

definition WriteAuthSASLContinue :: "bytes \<Rightarrow> bytes" where
  "WriteAuthSASLContinue d = writeTagged CHR ''R'' (put32 authSASLContinue @ d)"

definition WriteAuthSASLFinal :: "bytes \<Rightarrow> bytes" where
  "WriteAuthSASLFinal d = writeTagged CHR ''R'' (put32 authSASLFinal @ d)"

definition WriteAuthMD5 :: "bytes \<Rightarrow> bytes" where
  "WriteAuthMD5 salt = writeTagged CHR ''R'' (put32 authMD5Password @ salt)"

definition WriteAuthOK :: bytes where
  "WriteAuthOK = writeTagged CHR ''R'' (put32 authOK)"

definition WritePasswordMessage :: "bytes \<Rightarrow> bytes" where
  "WritePasswordMessage response = writeTagged CHR ''p'' (response @ [NUL])"

definition WriteSASLInitialResponse :: "bytes \<Rightarrow> bytes \<Rightarrow> bytes" where
  "WriteSASLInitialResponse mechanism clientFirst =
     writeTagged CHR ''p'' (mechanism @ [NUL] @ put32 (length clientFirst) @ clientFirst)"

definition WriteSASLResponse :: "bytes \<Rightarrow> bytes" where
  "WriteSASLResponse d = writeTagged CHR ''p'' d"

definition ReadPasswordMessage :: "bytes \<Rightarrow> auth_error + bytes \<times> bytes" where
  "ReadPasswordMessage s =
     (case readTagged s of Inl e \<Rightarrow> Inl (AuthWire e)
      | Inr ((tag, bd), rest) \<Rightarrow>
          if tag \<noteq> CHR ''p'' then Inl (AuthUnexpected tag)
          else Inr ((case indexByte bd NUL of Some n \<Rightarrow> take n bd | None \<Rightarrow> bd), rest))"

function readMechanisms :: "bytes \<Rightarrow> bytes list" where
  "readMechanisms s =
     (if length s > 0 then
        (case indexByte s NUL of None \<Rightarrow> []
         | Some e \<Rightarrow> if e = 0 then [] else take e s # readMechanisms (drop (e + 1) s))
      else [])"
  by pat_completeness auto
termination by (relation "measure length") auto

declare readMechanisms.simps [simp del]

definition ReadAuthRequest :: "bytes \<Rightarrow> auth_error + AuthRequest \<times> bytes" where
  "ReadAuthRequest s =
     (case readTagged s of Inl e \<Rightarrow> Inl (AuthWire e)
      | Inr ((tag, bd), rest) \<Rightarrow>
          if tag = CHR ''E'' then Inl (AuthRefused (errorFields bd))
          else if tag \<noteq> CHR ''R'' then Inl (AuthUnexpected tag)
          else if length bd < 4 then Inl AuthMalformed
          else let ty = int32_of (be32 bd);
                   r = drop 4 bd;
                   req = \<lparr>authType = ty, authSalt = replicate 4 NUL, Mechanisms = [], authData = []\<rparr>
            in if ty = int authMD5Password then
                 (if length r < 4 then Inl AuthMalformed else Inr (req\<lparr>authSalt := take 4 r\<rparr>, rest))
               else if ty = int authSASL then Inr (req\<lparr>Mechanisms := readMechanisms r\<rparr>, rest)
               else if ty = int authSASLContinue \<or> ty = int authSASLFinal then Inr (req\<lparr>authData := r\<rparr>, rest)
               else Inr (req, rest))"

definition ReadSASLResponse :: "bool \<Rightarrow> bytes \<Rightarrow> auth_error + (bytes \<times> bytes) \<times> bytes" where
  "ReadSASLResponse initial s =
     (case readTagged s of Inl e \<Rightarrow> Inl (AuthWire e)
      | Inr ((tag, bd), rest) \<Rightarrow>
          if tag \<noteq> CHR ''p'' then Inl (AuthUnexpected tag)
          else if \<not> initial then Inr (([], bd), rest)
          else (case indexByte bd NUL of None \<Rightarrow> Inl AuthMalformed
            | Some e \<Rightarrow>
                let mechanism = take e bd; r = drop (e + 1) bd in
                if length r < 4 then Inl AuthMalformed
                else let len = int32_of (be32 r); r' = drop 4 r in
                  if len < 0 \<or> len > int (length r') then Inl AuthMalformed
                  else Inr ((mechanism, take (nat len) r'), rest)))"

section \<open>Authenticating a client\<close>

text \<open>One write, and one read of a message, with what follows it.\<close>

definition sendThen :: "client_io \<Rightarrow> bytes \<Rightarrow> (client_io \<Rightarrow> (auth_error + 'a) \<times> client_io) \<Rightarrow> (auth_error + 'a) \<times> client_io" where
  "sendThen io p k = (case clientWrite io p of None \<Rightarrow> (Inl AuthWrite, io) | Some io' \<Rightarrow> k io')"

definition recvThen :: "(bytes \<Rightarrow> auth_error + 'm \<times> bytes) \<Rightarrow> client_io \<Rightarrow>
    ('m \<Rightarrow> client_io \<Rightarrow> (auth_error + 'a) \<times> client_io) \<Rightarrow> (auth_error + 'a) \<times> client_io" where
  "recvThen dec io k =
     (case dec (inbox io) of Inl e \<Rightarrow> (Inl e, io) | Inr (m, rest) \<Rightarrow> k m (io\<lparr>inbox := rest\<rparr>))"

definition authenticateMD5 :: "(bytes \<Rightarrow> bytes) \<Rightarrow> bytes option \<Rightarrow> Verifier \<Rightarrow> client_io \<Rightarrow>
    (auth_error + unit) \<times> client_io" where
  "authenticateMD5 md5 rand v io =
     (case rand of None \<Rightarrow> (Inl AuthNoRandom, io)
      | Some salt \<Rightarrow>
          sendThen io (WriteAuthMD5 salt) (\<lambda>io.
          recvThen ReadPasswordMessage io (\<lambda>response io.
            if \<not> VerifyMD5 md5 v salt response then (Inl ErrAuthRejected, io)
            else sendThen io WriteAuthOK (\<lambda>io. (Inr (), io)))))"

definition authenticateSCRAM :: "(bytes \<Rightarrow> bytes \<Rightarrow> bytes) \<Rightarrow> (bytes \<Rightarrow> bytes) \<Rightarrow> bytes option \<Rightarrow>
    SCRAMVerifier option \<Rightarrow> client_io \<Rightarrow> (auth_error + bytes option) \<times> client_io" where
  "authenticateSCRAM hmac sha rand v io =
     (case NewScramServer v of Inl e \<Rightarrow> (Inl (AuthScram e), io)
      | Inr server \<Rightarrow>
          sendThen io WriteAuthSASL (\<lambda>io.
          recvThen (ReadSASLResponse True) io (\<lambda>(mechanism, clientFirst) io.
            if mechanism \<noteq> saslMechanismSCRAM then (Inl ErrUnsupportedAuth, io)
            else (case Begin server rand clientFirst of Inl e \<Rightarrow> (Inl (AuthScram e), io)
              | Inr (sf, server1) \<Rightarrow>
                  sendThen io (WriteAuthSASLContinue sf) (\<lambda>io.
                  recvThen (ReadSASLResponse False) io (\<lambda>(_, clientFinal) io.
                    (case Finish hmac sha server1 clientFinal of Inl e \<Rightarrow> (Inl ErrAuthRejected, io)
                     | Inr (serverFinal, server2) \<Rightarrow>
                         sendThen io (WriteAuthSASLFinal serverFinal) (\<lambda>io.
                         sendThen io WriteAuthOK (\<lambda>io. (Inr (clientKey server2), io))))))))))"

definition AuthenticateClient :: "(bytes \<Rightarrow> bytes \<Rightarrow> bytes) \<Rightarrow> (bytes \<Rightarrow> bytes) \<Rightarrow> (bytes \<Rightarrow> bytes) \<Rightarrow> bytes option \<Rightarrow>
    Verifier \<Rightarrow> client_io \<Rightarrow> (auth_error + bytes option) \<times> client_io" where
  "AuthenticateClient hmac sha md5 rand v io =
     (case Method v of
        MethodSCRAM \<Rightarrow> authenticateSCRAM hmac sha rand (SCRAM v) io
      | MethodMD5 \<Rightarrow> (case authenticateMD5 md5 rand v io of (r, io') \<Rightarrow> (map_sum id (\<lambda>_. None) r, io'))
      | MethodNone \<Rightarrow> (Inl ErrAuthRejected, io)
      | MethodZero \<Rightarrow> (Inl ErrUnsupportedAuth, io))"

text \<open>
  The gateway's part: \<open>found\<close> is what the credential store answered, and \<open>errText\<close> the text of
  the error an unsupported method is reported with.
\<close>

definition WriteClientError :: "client_io \<Rightarrow> bytes \<Rightarrow> bytes \<Rightarrow> client_io" where
  "WriteClientError io sqlstate msg =
     (case clientWrite io (WriteStartupError sqlstate msg) of None \<Rightarrow> io | Some io' \<Rightarrow> io')"

definition authenticateClient :: "(bytes \<Rightarrow> bytes \<Rightarrow> bytes) \<Rightarrow> (bytes \<Rightarrow> bytes) \<Rightarrow> (bytes \<Rightarrow> bytes) \<Rightarrow> bytes option \<Rightarrow>
    bytes \<Rightarrow> cred_error + Verifier \<Rightarrow> client_io \<Rightarrow> SessionState \<Rightarrow> auth_error option \<times> client_io \<times> SessionState" where
  "authenticateClient hmac sha md5 rand errText found io state =
     (case found of
        Inl e \<Rightarrow> (Some ErrAuthRejected, WriteClientError io ''28P01'' ''password authentication failed'', state)
      | Inr v \<Rightarrow>
          (case AuthenticateClient hmac sha md5 rand v io of
             (Inl e, io1) \<Rightarrow>
               if e = ErrUnsupportedAuth then (Some e, WriteClientError io1 ''0A000'' errText, state)
               else (Some ErrAuthRejected, WriteClientError io1 ''28P01'' ''password authentication failed'', state)
           | (Inr key, io1) \<Rightarrow>
               (None, io1, state\<lparr>ClientKey := (case key of None \<Rightarrow> [] | Some k \<Rightarrow> k), Verifier := v\<rparr>)))"

section \<open>Authenticating to a backend\<close>

definition slicesContains :: "bytes list \<Rightarrow> bytes \<Rightarrow> bool" where
  "slicesContains haystack needle = list_ex (\<lambda>item. item = needle) haystack"

definition runSASL :: "(bytes \<Rightarrow> bytes \<Rightarrow> bytes) \<Rightarrow> bytes option \<Rightarrow> ScramClient \<Rightarrow> AuthRequest \<Rightarrow> SCRAMVerifier option \<Rightarrow>
    client_io \<Rightarrow> (auth_error + unit) \<times> client_io" where
  "runSASL hmac rand scram offer v io =
     (if \<not> slicesContains (Mechanisms offer) saslMechanismSCRAM then (Inl ErrUnsupportedAuth, io)
      else (case First scram rand of Inl e \<Rightarrow> (Inl (AuthScram e), io)
        | Inr (clientFirst, scram1) \<Rightarrow>
            sendThen io (WriteSASLInitialResponse saslMechanismSCRAM clientFirst) (\<lambda>io.
            recvThen ReadAuthRequest io (\<lambda>challenge io.
              if authType challenge \<noteq> int authSASLContinue then (Inl (AuthUnexpectedType (authType challenge)), io)
              else (case Final hmac scram1 (authData challenge) of Inl e \<Rightarrow> (Inl (AuthScram e), io)
                | Inr (clientFinal, scram2) \<Rightarrow>
                    sendThen io (WriteSASLResponse clientFinal) (\<lambda>io.
                    recvThen ReadAuthRequest io (\<lambda>final io.
                      if authType final \<noteq> int authSASLFinal then (Inl (AuthUnexpectedType (authType final)), io)
                      else (case v of None \<Rightarrow> (Inl AuthNilVerifier, io)
                        | Some sv \<Rightarrow> (case VerifyServer hmac scram2 (authData final) (ServerKey sv) of
                            Some e \<Rightarrow> (Inl (AuthScram e), io)
                          | None \<Rightarrow> (Inr (), io))))))))))"

lemma readTagged_shrinks: "readTagged s = Inr (m, r) \<Longrightarrow> length r < length s"
  by (cases m) (rule auth_wire.dec_consumes)

lemma ReadAuthRequest_shrinks: "ReadAuthRequest s = Inr (m, r) \<Longrightarrow> length r < length s"
  by (auto simp: ReadAuthRequest_def Let_def split: sum.splits prod.splits if_splits dest!: readTagged_shrinks)

lemma runSASL_shrinks: "runSASL hmac rand scram offer v io = (x, io') \<Longrightarrow> length (inbox io') \<le> length (inbox io)"
  by (auto simp: runSASL_def sendThen_def recvThen_def clientWrite_def
      split: if_splits sum.splits option.splits prod.splits dest!: ReadAuthRequest_shrinks)

text \<open>\<open>rand n\<close> is what the random source delivers at the \<open>n\<close>-th exchange.\<close>

function authBackendLoop :: "(bytes \<Rightarrow> bytes \<Rightarrow> bytes) \<Rightarrow> (bytes \<Rightarrow> bytes) \<Rightarrow> (bytes \<Rightarrow> bytes) \<Rightarrow> (nat \<Rightarrow> bytes option) \<Rightarrow>
    bytes \<Rightarrow> bytes \<Rightarrow> Verifier \<Rightarrow> nat \<Rightarrow> client_io \<Rightarrow> (auth_error + unit) \<times> client_io" where
  "authBackendLoop hmac sha md5 rand user key v n io =
     (case ReadAuthRequest (inbox io) of Inl e \<Rightarrow> (Inl e, io)
      | Inr (req, rest) \<Rightarrow>
          let io1 = io\<lparr>inbox := rest\<rparr> in
          if authType req = int authOK then (Inr (), io1)
          else if authType req = int authSASL then
            (if Method v \<noteq> MethodSCRAM then (Inl ErrUnsupportedAuth, io1)
             else (case NewScramClient sha user key of Inl e \<Rightarrow> (Inl (AuthScram e), io1)
               | Inr scram \<Rightarrow>
                   (case runSASL hmac (rand n) scram req (SCRAM v) io1 of
                      (Inl e, io2) \<Rightarrow> (Inl e, io2)
                    | (Inr _, io2) \<Rightarrow> authBackendLoop hmac sha md5 rand user key v (Suc n) io2)))
          else if authType req = int authCleartextPassword then (Inl ErrUnsupportedAuth, io1)
          else if authType req = int authMD5Password then
            (if Method v \<noteq> MethodMD5 then (Inl ErrUnsupportedAuth, io1)
             else (case clientWrite io1 (WritePasswordMessage (MD5Response md5 (MD5 v) (authSalt req))) of
                 None \<Rightarrow> (Inl AuthWrite, io1)
               | Some io2 \<Rightarrow> authBackendLoop hmac sha md5 rand user key v n io2))
          else (Inl ErrUnsupportedAuth, io1))"
  by pat_completeness auto
termination
  by (relation "measure (\<lambda>(_, _, _, _, _, _, _, _, io). length (inbox io))")
    (auto simp: clientWrite_def split: if_splits dest!: ReadAuthRequest_shrinks runSASL_shrinks [OF sym])

declare authBackendLoop.simps [simp del]

definition AuthenticateBackend :: "(bytes \<Rightarrow> bytes \<Rightarrow> bytes) \<Rightarrow> (bytes \<Rightarrow> bytes) \<Rightarrow> (bytes \<Rightarrow> bytes) \<Rightarrow> (nat \<Rightarrow> bytes option) \<Rightarrow>
    bytes \<Rightarrow> bytes \<Rightarrow> bytes \<Rightarrow> Verifier \<Rightarrow> (bytes \<times> bytes) list \<Rightarrow> client_io \<Rightarrow> (auth_error + unit) \<times> client_io" where
  "AuthenticateBackend hmac sha md5 rand user database key v params io =
     sendThen io (writeStartup user database params) (authBackendLoop hmac sha md5 rand user key v 0)"

section \<open>What the backend reports\<close>

record StartupInfo =
  Params :: "(bytes \<times> bytes) list"
  infoKey :: bytes

definition splitCString :: "bytes \<Rightarrow> (bytes \<times> bytes) option" where
  "splitCString b = (case indexByte b NUL of None \<Rightarrow> None | Some e \<Rightarrow> Some (take e b, drop (e + 1) b))"

function waitLoop :: "StartupInfo \<Rightarrow> bytes \<Rightarrow> auth_error + StartupInfo \<times> bytes" where
  "waitLoop out s =
     (case readTagged s of Inl e \<Rightarrow> Inl (AuthWire e)
      | Inr ((tag, bd), rest) \<Rightarrow>
          if tag = CHR ''S'' then
            (case splitCString bd of None \<Rightarrow> waitLoop out rest
             | Some (key, r) \<Rightarrow>
                 let value = (case splitCString r of None \<Rightarrow> [] | Some (v, _) \<Rightarrow> v)
                 in waitLoop (out\<lparr>Params := AList.update key value (Params out)\<rparr>) rest)
          else if tag = CHR ''K'' then waitLoop (out\<lparr>infoKey := bd\<rparr>) rest
          else if tag = CHR ''Z'' then Inr (out, rest)
          else if tag = CHR ''E'' then Inl (AuthRefused (errorFields bd))
          else waitLoop out rest)"
  by pat_completeness auto
termination by (relation "measure (\<lambda>(_, s). length s)") (auto dest: readTagged_shrinks)

declare waitLoop.simps [simp del]

definition WaitForReady :: "bytes \<Rightarrow> auth_error + StartupInfo \<times> bytes" where
  "WaitForReady s = waitLoop \<lparr>Params = [], infoKey = []\<rparr> s"

text \<open>
  The parameters are written in the order the map is walked in, which is the order of the
  list; each message is a write of its own.  \<^const>\<open>None\<close> for the information is the nil pointer.
\<close>

fun writeParams :: "(bytes \<times> bytes) list \<Rightarrow> client_io \<Rightarrow> client_io option" where
  "writeParams [] io = Some io"
| "writeParams ((key, value) # ps) io =
     (case clientWrite io (writeTagged CHR ''S'' (key @ [NUL] @ value @ [NUL])) of
        None \<Rightarrow> None | Some io' \<Rightarrow> writeParams ps io')"

definition CompleteClientStartup :: "StartupInfo option \<Rightarrow> client_io \<Rightarrow> client_io option" where
  "CompleteClientStartup startup io =
     (case startup of None \<Rightarrow> None
      | Some info \<Rightarrow>
          (case writeParams (Params info) io of None \<Rightarrow> None
           | Some io1 \<Rightarrow>
               (case (if length (infoKey info) > 0 then clientWrite io1 (writeTagged CHR ''K'' (infoKey info)) else Some io1) of
                  None \<Rightarrow> None
                | Some io2 \<Rightarrow> clientWrite io2 (writeTagged CHR ''Z'' ''I''))))"

section \<open>Messages are read as they are written\<close>

abbreviation fits :: "bytes \<Rightarrow> bool" where "fits b \<equiv> length b + 4 \<le> maxAuthMessage"

lemma readTagged_written [simp]: "fits b \<Longrightarrow> readTagged (writeTagged t b @ r) = Inr ((t, b), r)"
  using auth_wire.dec_enc [of "(t, b)" r] by simp

lemma readMechanisms_one: "NUL \<notin> set m \<Longrightarrow> m \<noteq> [] \<Longrightarrow> readMechanisms (m @ NUL # NUL # r) = [m]"
  by (subst readMechanisms.simps, simp) (subst readMechanisms.simps, simp)

lemma saslMechanismSCRAM_NUL: "NUL \<notin> set saslMechanismSCRAM" "saslMechanismSCRAM \<noteq> []"
  by (simp_all add: saslMechanismSCRAM_def)

abbreviation plainRequest :: "nat \<Rightarrow> AuthRequest" where
  "plainRequest n \<equiv> \<lparr>authType = int n, authSalt = replicate 4 NUL, Mechanisms = [], authData = []\<rparr>"

lemma ReadAuthRequest_SASL:
  "ReadAuthRequest (WriteAuthSASL @ r) = Inr ((plainRequest authSASL)\<lparr>Mechanisms := [saslMechanismSCRAM]\<rparr>, r)"
proof -
  have "fits (put32 authSASL @ saslMechanismSCRAM @ [NUL] @ [NUL])"
    by (simp add: saslMechanismSCRAM_def maxAuthMessage_def)
  then show ?thesis using readMechanisms_one [of saslMechanismSCRAM "[]"] saslMechanismSCRAM_NUL
    by (simp add: WriteAuthSASL_def ReadAuthRequest_def Let_def int32_of_def auth_codes)
qed

lemma ReadAuthRequest_data:
  assumes "length d + 8 \<le> maxAuthMessage"
  shows "ReadAuthRequest (WriteAuthSASLContinue d @ r) = Inr ((plainRequest authSASLContinue)\<lparr>authData := d\<rparr>, r)"
    and "ReadAuthRequest (WriteAuthSASLFinal d @ r) = Inr ((plainRequest authSASLFinal)\<lparr>authData := d\<rparr>, r)"
  using assms by (simp_all add: WriteAuthSASLContinue_def WriteAuthSASLFinal_def ReadAuthRequest_def Let_def
      int32_of_def auth_codes)

lemma ReadAuthRequest_OK: "ReadAuthRequest (WriteAuthOK @ r) = Inr (plainRequest authOK, r)"
proof -
  have "fits (put32 authOK)" by (simp add: maxAuthMessage_def)
  then show ?thesis by (simp add: WriteAuthOK_def ReadAuthRequest_def Let_def int32_of_def auth_codes)
qed

lemma ReadSASLResponse_initial:
  assumes "NUL \<notin> set mech" "length mech + length d + 9 \<le> maxAuthMessage"
  shows "ReadSASLResponse True (WriteSASLInitialResponse mech d @ r) = Inr ((mech, d), r)"
  using assms by (simp add: WriteSASLInitialResponse_def ReadSASLResponse_def Let_def int32_of_def maxAuthMessage_def)

lemma ReadSASLResponse_next: "fits d \<Longrightarrow> ReadSASLResponse False (WriteSASLResponse d @ r) = Inr (([], d), r)"
  by (simp add: WriteSASLResponse_def ReadSASLResponse_def)

lemmas auth_read = ReadAuthRequest_SASL ReadAuthRequest_data ReadAuthRequest_OK ReadSASLResponse_initial
  ReadSASLResponse_next

section \<open>Logging in\<close>

lemma length_EncodeToString_le: "length (EncodeToString s) \<le> 4 * length s"
  by (induction s rule: EncodeToString.induct) (simp_all add: Let_def)

lemma Finish_fits:
  assumes "Finish hmac sha s m = Inr (out, s')" "\<And>k m. length (hmac k m) = 32"
  shows "length out + 8 \<le> maxAuthMessage"
proof -
  obtain k x where "out = ''v='' @ EncodeToString (hmac k x)"
    using assms(1) by (auto simp: Finish_def Let_def split: if_splits sum.splits option.splits)
  with length_EncodeToString_le [of "hmac k x"] assms(2) [of k x] show ?thesis by (simp add: maxAuthMessage_def)
qed

lemma sendThen_ok: "writable io \<Longrightarrow> sendThen io p k = k (io\<lparr>outbox := outbox io @ p\<rparr>)"
  by (simp add: sendThen_def clientWrite_def)

lemma recvThen_ok: "inbox io = s \<Longrightarrow> dec s = Inr (m, rest) \<Longrightarrow> recvThen dec io k = k m (io\<lparr>inbox := rest\<rparr>)"
  by (simp add: recvThen_def)

text \<open>The server a \<^verbatim>\<open>NewScramServer\<close> starts from.\<close>

definition scramServerFor :: "SCRAMVerifier \<Rightarrow> ScramServer" where
  "scramServerFor v = \<lparr>verifier = v, clientFirstBare = [], serverFirst = [], nonce = [], clientKey = None\<rparr>"

lemma NewScramServer_for: "NewScramServer (Some v) = Inr (scramServerFor v)"
  by (simp add: NewScramServer_def scramServerFor_def)

lemma client_accepts:
  assumes "\<And>k m. length (hmac k m) = 32" "length key = 32" "sha key = StoredKey sv"
    and "0 < Iterations sv" "Iterations sv < 2 ^ 63" "r1 \<noteq> []" "r2 \<noteq> []"
    and "NewScramClient sha u key = Inr c" "First c (Some r1) = Inr (m1, c1)"
    and "Begin (scramServerFor sv) (Some r2) m1 = Inr (m2, s1)" "Final hmac c1 m2 = Inr (m3, c2)"
    and "length m1 + 22 \<le> maxAuthMessage" "length m3 + 4 \<le> maxAuthMessage" "writable io"
    and "inbox io = WriteSASLInitialResponse ''SCRAM-SHA-256'' m1 @ WriteSASLResponse m3 @ rest"
    and "Method v = MethodSCRAM" "SCRAM v = Some sv"
  shows "\<exists>m4. VerifyServer hmac c2 m4 (ServerKey sv) = None \<and>
    AuthenticateClient hmac sha md5 (Some r2) v io =
      (Inr (Some key), io\<lparr>inbox := rest,
         outbox := outbox io @ WriteAuthSASL @ WriteAuthSASLContinue m2 @ WriteAuthSASLFinal m4 @ WriteAuthOK\<rparr>)"
proof -
  from scram_run [of hmac key sha sv r1 r2 u c, OF assms(1-8) NewScramServer_for] assms(9-11)
  obtain m4 s2 where f: "Finish hmac sha s1 m3 = Inr (m4, s2)" "clientKey s2 = Some key"
      "VerifyServer hmac c2 m4 (ServerKey sv) = None" by auto
  have r: "ReadSASLResponse True (inbox io) = Inr ((saslMechanismSCRAM, m1), WriteSASLResponse m3 @ rest)"
    "ReadSASLResponse False (WriteSASLResponse m3 @ rest) = Inr (([], m3), rest)"
    using assms(12,13,15) by (simp_all add: ReadSASLResponse_initial ReadSASLResponse_next saslMechanismSCRAM_def)
  from assms(10,14,16,17) f(1,2) r show ?thesis
    by (intro exI [of _ m4]) (simp add: f(3) AuthenticateClient_def authenticateSCRAM_def NewScramServer_for
        sendThen_ok recvThen_ok [OF refl])
qed

text \<open>
  C7.  A client logs in.  A client that answers the challenges with the key of the stored
  verifier is accepted, whatever its user name and the nonces of the two sides; the key that
  comes out of the exchange is the client's, everything the client sends after it is left
  unread, and the signature sent to the client is one it accepts.
\<close>

theorem client_login:
  assumes "\<And>k m. length (hmac k m) = 32" "length key = 32" "sha key = StoredKey sv"
    and "0 < Iterations sv" "Iterations sv < 2 ^ 63" "r1 \<noteq> []" "r2 \<noteq> []"
    and "NewScramClient sha u key = Inr c" "First c (Some r1) = Inr (m1, c1)"
    and "Begin (scramServerFor sv) (Some r2) m1 = Inr (m2, s1)" "Final hmac c1 m2 = Inr (m3, c2)"
    and "length m1 + 22 \<le> maxAuthMessage" "length m3 + 4 \<le> maxAuthMessage" "writable io"
    and "inbox io = WriteSASLInitialResponse ''SCRAM-SHA-256'' m1 @ WriteSASLResponse m3 @ rest"
    and "Method v = MethodSCRAM" "SCRAM v = Some sv"
  shows "\<exists>m4. VerifyServer hmac c2 m4 (ServerKey sv) = None \<and>
    AuthenticateClient hmac sha md5 (Some r2) v io =
      (Inr (Some key), io\<lparr>inbox := rest,
         outbox := outbox io @ WriteAuthSASL @ WriteAuthSASLContinue m2 @ WriteAuthSASLFinal m4 @ WriteAuthOK\<rparr>)"
  using assms by (rule client_accepts)

lemma authenticateSCRAM_key:
  assumes "authenticateSCRAM hmac sha rand (Some sv) io = (Inr k, io')" "\<And>k m. length (hmac k m) = 32"
  shows "\<exists>key. k = Some key \<and> sha key = StoredKey sv \<and> length key = 32"
proof -
  obtain m1 sf s1 m3 out s2 where f: "Begin (scramServerFor sv) rand m1 = Inr (sf, s1)" "Finish hmac sha s1 m3 = Inr (out, s2)"
      "k = clientKey s2"
    using assms(1) by (auto simp: authenticateSCRAM_def NewScramServer_for sendThen_def recvThen_def
        split: option.splits sum.splits prod.splits if_splits)
  have "verifier s1 = sv" using Begin_verifier [OF f(1)] by (simp add: scramServerFor_def)
  with Finish_key [OF f(2) assms(2)] f(3) show ?thesis by simp
qed

lemma authBackendLoop_SASL:
  assumes "ReadAuthRequest (inbox io) = Inr (req, rest)" "authType req = int authSASL" "Method v = MethodSCRAM"
    and "NewScramClient sha u key = Inr c" "runSASL hmac (rand n) c req (SCRAM v) (io\<lparr>inbox := rest\<rparr>) = (Inr (), io2)"
  shows "authBackendLoop hmac sha md5 rand u key v n io = authBackendLoop hmac sha md5 rand u key v (Suc n) io2"
  using assms by (subst authBackendLoop.simps) (simp add: auth_codes Let_def)

lemma authBackendLoop_OK:
  assumes "ReadAuthRequest (inbox io) = Inr (req, rest)" "authType req = int authOK"
  shows "authBackendLoop hmac sha md5 rand u key v n io = (Inr (), io\<lparr>inbox := rest\<rparr>)"
  using assms by (subst authBackendLoop.simps) (simp add: Let_def)

lemma AuthenticateBackend_run:
  assumes "\<And>k m. length (hmac k m) = 32" "length key = 32" "sha key = StoredKey sv"
    and "0 < Iterations sv" "Iterations sv < 2 ^ 63" "r1 \<noteq> []" "r2 \<noteq> []"
    and "NewScramClient sha u key = Inr c" "First c (Some r1) = Inr (m1, c1)"
    and "Begin (scramServerFor sv) (Some r2) m1 = Inr (m2, s1)" "length m2 + 8 \<le> maxAuthMessage"
    and "Method v = MethodSCRAM" "SCRAM v = Some sv" "rand 0 = Some r1"
  shows "\<exists>m3 m4 s2. Finish hmac sha s1 m3 = Inr (m4, s2) \<and>
    (\<forall>io rest. writable io \<and>
       inbox io = WriteAuthSASL @ WriteAuthSASLContinue m2 @ WriteAuthSASLFinal m4 @ WriteAuthOK @ rest \<longrightarrow>
       AuthenticateBackend hmac sha md5 rand u db key v params io =
         (Inr (), io\<lparr>inbox := rest, outbox := outbox io @ writeStartup u db params @
            WriteSASLInitialResponse saslMechanismSCRAM m1 @ WriteSASLResponse m3\<rparr>))"
proof -
  from scram_run [of hmac key sha sv r1 r2 u c, OF assms(1-8) NewScramServer_for] assms(9,10)
  obtain m3 c2 m4 s2 where f: "Final hmac c1 m2 = Inr (m3, c2)" "Finish hmac sha s1 m3 = Inr (m4, s2)"
      "VerifyServer hmac c2 m4 (ServerKey sv) = None" by auto
  have m4: "length m4 + 8 \<le> maxAuthMessage" by (rule Finish_fits [OF f(2) assms(1)])
  have "AuthenticateBackend hmac sha md5 rand u db key v params io =
         (Inr (), io\<lparr>inbox := rest, outbox := outbox io @ writeStartup u db params @
            WriteSASLInitialResponse saslMechanismSCRAM m1 @ WriteSASLResponse m3\<rparr>)"
    if io: "writable io" "inbox io = WriteAuthSASL @ WriteAuthSASLContinue m2 @ WriteAuthSASLFinal m4 @ WriteAuthOK @ rest"
    for io rest
  proof -
    let ?io = "io\<lparr>outbox := outbox io @ writeStartup u db params\<rparr>"
    let ?req = "(plainRequest authSASL)\<lparr>Mechanisms := [saslMechanismSCRAM]\<rparr>"
    let ?io1 = "?io\<lparr>inbox := WriteAuthSASLContinue m2 @ WriteAuthSASLFinal m4 @ WriteAuthOK @ rest\<rparr>"
    let ?io2 = "?io1\<lparr>inbox := WriteAuthOK @ rest,
      outbox := outbox ?io1 @ WriteSASLInitialResponse saslMechanismSCRAM m1 @ WriteSASLResponse m3\<rparr>"
    have "runSASL hmac (rand 0) c ?req (SCRAM v) ?io1 = (Inr (), ?io2)"
      using assms(9,11,13,14) f io(1) m4
      by (simp add: runSASL_def slicesContains_def sendThen_ok recvThen_def auth_read)
    then have "authBackendLoop hmac sha md5 rand u key v 0 ?io = authBackendLoop hmac sha md5 rand u key v (Suc 0) ?io2"
      using assms(8,12) io by (intro authBackendLoop_SASL [of _ ?req]) (simp_all add: ReadAuthRequest_SASL)
    also have "\<dots> = (Inr (), ?io2\<lparr>inbox := rest\<rparr>)"
      by (rule authBackendLoop_OK [of _ "plainRequest authOK"]) (simp_all add: ReadAuthRequest_OK)
    finally show ?thesis using io by (simp add: AuthenticateBackend_def sendThen_ok)
  qed
  with f(2) show ?thesis by blast
qed

text \<open>
  C12.  The key recovered from a client opens backend connections.  Whenever Pontus accepts a
  client, however the client behaved, it can then log in as that user on any backend that
  runs SCRAM with the same stored verifier, with any nonces and any startup parameters: it
  sends exactly the startup packet and the two SCRAM answers, accepts the backend's signature,
  and leaves the backend's next message unread.  The password is never needed.
\<close>

theorem recovered_key_opens_backends:
  assumes "AuthenticateClient hmac sha md5 rc v cio = (Inr k, cio')" "\<And>k m. length (hmac k m) = 32"
    and "Method v = MethodSCRAM" "SCRAM v = Some sv" "0 < Iterations sv" "Iterations sv < 2 ^ 63"
    and "r1 \<noteq> []" "r2 \<noteq> []" "rand 0 = Some r1"
  shows "\<exists>key c m1 c1 m2 s1. k = Some key \<and> NewScramClient sha u key = Inr c \<and> First c (Some r1) = Inr (m1, c1) \<and>
    Begin (scramServerFor sv) (Some r2) m1 = Inr (m2, s1) \<and>
    (length m2 + 8 \<le> maxAuthMessage \<longrightarrow> (\<exists>m3 m4 s2. Finish hmac sha s1 m3 = Inr (m4, s2) \<and>
      (\<forall>io rest. writable io \<and>
         inbox io = WriteAuthSASL @ WriteAuthSASLContinue m2 @ WriteAuthSASLFinal m4 @ WriteAuthOK @ rest \<longrightarrow>
         AuthenticateBackend hmac sha md5 rand u db key v params io =
           (Inr (), io\<lparr>inbox := rest, outbox := outbox io @ writeStartup u db params @
              WriteSASLInitialResponse saslMechanismSCRAM m1 @ WriteSASLResponse m3\<rparr>))))"
proof -
  from assms(1,3,4) have "authenticateSCRAM hmac sha rc (Some sv) cio = (Inr k, cio')"
    by (simp add: AuthenticateClient_def)
  from authenticateSCRAM_key [OF this assms(2)] obtain key where key: "k = Some key" "sha key = StoredKey sv" "length key = 32"
    by blast
  from key(3) obtain c where c: "NewScramClient sha u key = Inr c" by (simp add: NewScramClient_def)
  from scram_run [of hmac key sha sv r1 r2 u c, OF assms(2) key(3,2) assms(5-8) c NewScramServer_for]
  obtain m1 c1 m2 s1 where m: "First c (Some r1) = Inr (m1, c1)" "Begin (scramServerFor sv) (Some r2) m1 = Inr (m2, s1)" by blast
  note run = AuthenticateBackend_run [of hmac key sha sv r1 r2 u c m1 c1 m2 s1 v rand md5 db params,
      OF assms(2) key(3,2) assms(5-8) c m]
  show ?thesis
    by (rule exI [of _ key], rule exI [of _ c], rule exI [of _ m1], rule exI [of _ c1], rule exI [of _ m2], rule exI [of _ s1])
      (use key(1) c m run [OF _ assms(3,4,9)] in blast)
qed

section \<open>What the backend reports\<close>

text \<open>The messages a startup is completed with.\<close>

definition startupMessages :: "StartupInfo \<Rightarrow> bytes" where
  "startupMessages info = concat (map (\<lambda>p. writeTagged CHR ''S'' (fst p @ [NUL] @ snd p @ [NUL])) (Params info)) @
     (if infoKey info = [] then [] else writeTagged CHR ''K'' (infoKey info)) @ writeTagged CHR ''Z'' ''I''"

definition sendable_info :: "StartupInfo \<Rightarrow> bool" where
  "sendable_info info \<longleftrightarrow> fits (infoKey info) \<and>
     list_all (\<lambda>(k, v). NUL \<notin> set k \<and> NUL \<notin> set v \<and> length k + length v + 6 \<le> maxAuthMessage) (Params info)"

lemma writeParams_ok:
  "writable io \<Longrightarrow> writeParams ps io =
     Some (io\<lparr>outbox := outbox io @ concat (map (\<lambda>p. writeTagged CHR ''S'' (fst p @ [NUL] @ snd p @ [NUL])) ps)\<rparr>)"
  by (induction ps arbitrary: io) (auto simp: clientWrite_def)

lemma waitLoop_param:
  assumes "NUL \<notin> set k" "NUL \<notin> set v" "length k + length v + 6 \<le> maxAuthMessage"
  shows "waitLoop out (writeTagged CHR ''S'' (k @ [NUL] @ v @ [NUL]) @ r) = waitLoop (out\<lparr>Params := AList.update k v (Params out)\<rparr>) r"
  using assms by (subst waitLoop.simps) (simp add: splitCString_def)

lemma waitLoop_params:
  assumes "list_all (\<lambda>(k, v). NUL \<notin> set k \<and> NUL \<notin> set v \<and> length k + length v + 6 \<le> maxAuthMessage) ps"
  shows "waitLoop out (concat (map (\<lambda>p. writeTagged CHR ''S'' (fst p @ [NUL] @ snd p @ [NUL])) ps) @ r) =
    waitLoop (out\<lparr>Params := fold (\<lambda>(k, v). AList.update k v) ps (Params out)\<rparr>) r"
  using assms
proof (induction ps arbitrary: out)
  case (Cons p ps)
  then show ?case using waitLoop_param [of "fst p" "snd p"] by (cases p) simp
qed simp

lemma waitLoop_rest:
  assumes "fits (infoKey info)" "infoKey out = []"
  shows "waitLoop out ((if infoKey info = [] then [] else writeTagged CHR ''K'' (infoKey info)) @ writeTagged CHR ''Z'' ''I'' @ r) =
    Inr (out\<lparr>infoKey := infoKey info\<rparr>, r)"
proof -
  have z: "waitLoop o' (writeTagged CHR ''Z'' ''I'' @ r) = Inr (o', r)" for o'
    by (subst waitLoop.simps) (simp add: maxAuthMessage_def)
  then show ?thesis using assms by (cases "infoKey info = []") (simp_all, subst waitLoop.simps, simp)
qed

text \<open>
  C31.  What a backend reported is handed on.  A connection is opened once and borrowed by many
  clients: the startup sent to a borrower, in whichever order the parameters are walked, is
  read by a client's own startup reader as the same parameters and the same backend key, with
  nothing added and nothing left over.
\<close>

theorem startup_handed_on:
  assumes "sendable_info info" "distinct (map fst (Params info))" "writable io"
  shows "\<exists>sent info'. CompleteClientStartup (Some info) io = Some (io\<lparr>outbox := outbox io @ sent\<rparr>) \<and>
    WaitForReady (sent @ r) = Inr (info', r) \<and>
    map_of (Params info') = map_of (Params info) \<and> infoKey info' = infoKey info"
proof -
  have "CompleteClientStartup (Some info) io = Some (io\<lparr>outbox := outbox io @ startupMessages info\<rparr>)"
    using assms(3) by (simp add: CompleteClientStartup_def writeParams_ok clientWrite_def startupMessages_def)
  moreover have "WaitForReady (startupMessages info @ r) =
      Inr (\<lparr>Params = fold (\<lambda>(k, v). AList.update k v) (Params info) [], infoKey = infoKey info\<rparr>, r)"
    using assms(1) waitLoop_params [of "Params info"] waitLoop_rest [of info]
    unfolding sendable_info_def WaitForReady_def startupMessages_def by simp
  moreover have "map_of (fold (\<lambda>(k, v). AList.update k v) (Params info) []) = map_of (Params info)"
    using assms(2) map_of_fold_update [of "Params info" "[]"] map_of_inject_set [of "rev (Params info)" "Params info"]
    by (simp add: rev_map [symmetric])
  ultimately show ?thesis by force
qed

theorem startup_handed_on_witness:
  "let info = \<lparr>Params = [(''server_version'', ''16.2''), (''client_encoding'', ''UTF8'')], infoKey = ''12345678''\<rparr>
   in \<exists>sent info'. CompleteClientStartup (Some info) \<lparr>inbox = [], outbox = [], writable = True\<rparr> =
        Some \<lparr>inbox = [], outbox = sent, writable = True\<rparr> \<and>
      WaitForReady (sent @ ''rest'') = Inr (info', ''rest'') \<and> map_of (Params info') ''client_encoding'' = Some ''UTF8'' \<and>
      infoKey info' = ''12345678''"
proof -
  let ?info = "\<lparr>Params = [(''server_version'', ''16.2''), (''client_encoding'', ''UTF8'')], infoKey = ''12345678''\<rparr>"
  have "sendable_info ?info" by (simp add: sendable_info_def maxAuthMessage_def)
  from startup_handed_on [OF this, of "\<lparr>inbox = [], outbox = [], writable = True\<rparr>" "''rest''"]
  show ?thesis by (simp only: Let_def) auto
qed

lemma Inr_fst: "map_sum id fst x = Inr y \<Longrightarrow> \<exists>z. x = Inr (y, z)"
  by (cases x) auto

text \<open>A run with constant hash functions, for the examples.\<close>

abbreviation exZ :: bytes where "exZ \<equiv> replicate 32 NUL"
abbreviation exKey :: bytes where "exKey \<equiv> replicate 32 (CHR ''k'')"
abbreviation exM1 :: bytes where "exM1 \<equiv> ''n,,n=a,r='' @ EncodeToString ''x''"
abbreviation exM3 :: bytes where
  "exM3 \<equiv> ''c=biws,r='' @ EncodeToString ''x'' @ EncodeToString ''y'' @ '',p='' @ EncodeToString (xorBytes exKey exZ)"

definition exVerifier :: SCRAMVerifier where
  "exVerifier = \<lparr>Iterations = 1, Salt = [], StoredKey = exZ, ServerKey = exZ\<rparr>"

definition exIO :: client_io where
  "exIO = \<lparr>inbox = WriteSASLInitialResponse ''SCRAM-SHA-256'' exM1 @ WriteSASLResponse exM3 @ ''next'', outbox = [], writable = True\<rparr>"

abbreviation exLogin :: "client_io \<Rightarrow> (auth_error + bytes option) \<times> client_io" where
  "exLogin \<equiv> AuthenticateClient (\<lambda>_ _. exZ) (\<lambda>_. exZ) (\<lambda>_. []) (Some ''y'') \<lparr>Method = MethodSCRAM, MD5 = [], SCRAM = Some exVerifier\<rparr>"

lemma ex_run_at:
  assumes "z = exZ" "k = exKey" "m1 = exM1" 
    and "m3 = ''c=biws,r='' @ EncodeToString ''x'' @ EncodeToString ''y'' @ '',p='' @ EncodeToString (xorBytes k z)"
  shows "\<exists>c c1 sf s1 c2. NewScramClient (\<lambda>_. z) ''a'' k = Inr c \<and> First c (Some ''x'') = Inr (m1, c1) \<and>
    Begin (scramServerFor exVerifier) (Some ''y'') m1 = Inr (sf, s1) \<and> Final (\<lambda>_ _. z) c1 sf = Inr (m3, c2) \<and>
    length m1 + 22 \<le> maxAuthMessage \<and> length m3 + 4 \<le> maxAuthMessage"
proof -
  let ?c = "\<lparr>cUser = ''a'', cClientKey = k, cStoredKey = z, cNonce = [], firstBare = [], authMsg = []\<rparr>"
  have c: "NewScramClient (\<lambda>_. z) ''a'' k = Inr ?c" by (simp add: NewScramClient_def assms(2))
  obtain c1 sf s1 c2 where "First ?c (Some ''x'') = Inr (m1, c1)" "Begin (scramServerFor exVerifier) (Some ''y'') m1 = Inr (sf, s1)"
      "Final (\<lambda>_ _. z) c1 sf = Inr (m3, c2)"
    using scram_messages [of "\<lambda>_ _. z" k "\<lambda>_. z" exVerifier "''x''" "''y''" "''a''" ?c,
        OF _ _ _ _ _ _ _ c NewScramServer_for refl refl refl refl refl refl] assms by (auto simp: exVerifier_def)
  moreover have "length m1 + 22 \<le> maxAuthMessage" "length m3 + 4 \<le> maxAuthMessage"
    using length_EncodeToString_le [of "''x''"] length_EncodeToString_le [of "''y''"]
      length_EncodeToString_le [of "xorBytes k z"] assms by (simp_all add: maxAuthMessage_def xorBytes_def)
  ultimately show ?thesis using c by blast
qed

lemmas ex_run = ex_run_at [OF refl refl refl refl]

lemma ex_accepted: "\<exists>cio. exLogin exIO = (Inr (Some exKey), cio)"
proof -
  obtain c c1 sf s1 c2 where e: "NewScramClient (\<lambda>_. exZ) ''a'' exKey = Inr c" "First c (Some ''x'') = Inr (exM1, c1)"
      "Begin (scramServerFor exVerifier) (Some ''y'') exM1 = Inr (sf, s1)" "Final (\<lambda>_ _. exZ) c1 sf = Inr (exM3, c2)"
      "length exM1 + 22 \<le> maxAuthMessage" "length exM3 + 4 \<le> maxAuthMessage"
    using ex_run by blast
  have "\<exists>m4. VerifyServer (\<lambda>_ _. exZ) c2 m4 (ServerKey exVerifier) = None \<and> exLogin exIO =
      (Inr (Some exKey), exIO\<lparr>inbox := ''next'', outbox := outbox exIO @ WriteAuthSASL @
         WriteAuthSASLContinue sf @ WriteAuthSASLFinal m4 @ WriteAuthOK\<rparr>)"
    by (rule client_accepts [OF _ _ _ _ _ _ _ e]) (simp_all add: exVerifier_def exIO_def)
  then show ?thesis by (auto simp: exIO_def)
qed

theorem client_login_witness:
  "\<exists>out. exLogin exIO = (Inr (Some exKey), \<lparr>inbox = ''next'', outbox = out, writable = True\<rparr>)"
proof -
  obtain c c1 sf s1 c2 where e: "NewScramClient (\<lambda>_. exZ) ''a'' exKey = Inr c" "First c (Some ''x'') = Inr (exM1, c1)"
      "Begin (scramServerFor exVerifier) (Some ''y'') exM1 = Inr (sf, s1)" "Final (\<lambda>_ _. exZ) c1 sf = Inr (exM3, c2)"
      "length exM1 + 22 \<le> maxAuthMessage" "length exM3 + 4 \<le> maxAuthMessage"
    using ex_run by blast
  have "\<exists>m4. VerifyServer (\<lambda>_ _. exZ) c2 m4 (ServerKey exVerifier) = None \<and> exLogin exIO =
      (Inr (Some exKey), exIO\<lparr>inbox := ''next'', outbox := outbox exIO @ WriteAuthSASL @
         WriteAuthSASLContinue sf @ WriteAuthSASLFinal m4 @ WriteAuthOK\<rparr>)"
    by (rule client_login [OF _ _ _ _ _ _ _ e]) (simp_all add: exVerifier_def exIO_def)
  then show ?thesis by (auto simp: exIO_def)
qed

theorem recovered_key_opens_backends_witness:
  "\<exists>c m1 c1 m2 s1. NewScramClient (\<lambda>_. exZ) ''app'' exKey = Inr c \<and> First c (Some ''p'') = Inr (m1, c1) \<and>
     Begin (scramServerFor exVerifier) (Some ''q'') m1 = Inr (m2, s1) \<and>
     (length m2 + 8 \<le> maxAuthMessage \<longrightarrow> (\<exists>m4 out. AuthenticateBackend (\<lambda>_ _. exZ) (\<lambda>_. exZ) (\<lambda>_. []) (\<lambda>_. Some ''p'') ''app'' ''db'' exKey
        \<lparr>Method = MethodSCRAM, MD5 = [], SCRAM = Some exVerifier\<rparr> []
        \<lparr>inbox = WriteAuthSASL @ WriteAuthSASLContinue m2 @ WriteAuthSASLFinal m4 @ WriteAuthOK @ ''S'', outbox = [], writable = True\<rparr> =
        (Inr (), \<lparr>inbox = ''S'', outbox = out, writable = True\<rparr>)))"
proof -
  let ?v = "\<lparr>Method = MethodSCRAM, MD5 = [], SCRAM = Some exVerifier\<rparr>"
  obtain cio where a: "exLogin exIO = (Inr (Some exKey), cio)" using ex_accepted by blast
  have "\<exists>key c m1 c1 m2 s1. Some exKey = Some key \<and> NewScramClient (\<lambda>_. exZ) ''app'' key = Inr c \<and> First c (Some ''p'') = Inr (m1, c1) \<and>
    Begin (scramServerFor exVerifier) (Some ''q'') m1 = Inr (m2, s1) \<and>
    (length m2 + 8 \<le> maxAuthMessage \<longrightarrow> (\<exists>m3 m4 s2. Finish (\<lambda>_ _. exZ) (\<lambda>_. exZ) s1 m3 = Inr (m4, s2) \<and>
      (\<forall>io rest. writable io \<and>
         inbox io = WriteAuthSASL @ WriteAuthSASLContinue m2 @ WriteAuthSASLFinal m4 @ WriteAuthOK @ rest \<longrightarrow>
         AuthenticateBackend (\<lambda>_ _. exZ) (\<lambda>_. exZ) (\<lambda>_. []) (\<lambda>_. Some ''p'') ''app'' ''db'' key ?v [] io =
           (Inr (), io\<lparr>inbox := rest, outbox := outbox io @ writeStartup ''app'' ''db'' [] @
              WriteSASLInitialResponse saslMechanismSCRAM m1 @ WriteSASLResponse m3\<rparr>))))"
    by (rule recovered_key_opens_backends [OF a]) (simp_all add: exVerifier_def)
  then obtain c m1 c1 m2 s1 where m: "NewScramClient (\<lambda>_. exZ) ''app'' exKey = Inr c" "First c (Some ''p'') = Inr (m1, c1)"
    "Begin (scramServerFor exVerifier) (Some ''q'') m1 = Inr (m2, s1)"
    and run: "length m2 + 8 \<le> maxAuthMessage \<Longrightarrow> \<exists>m3 m4. (\<forall>io rest. writable io \<and>
         inbox io = WriteAuthSASL @ WriteAuthSASLContinue m2 @ WriteAuthSASLFinal m4 @ WriteAuthOK @ rest \<longrightarrow>
         AuthenticateBackend (\<lambda>_ _. exZ) (\<lambda>_. exZ) (\<lambda>_. []) (\<lambda>_. Some ''p'') ''app'' ''db'' exKey ?v [] io =
           (Inr (), io\<lparr>inbox := rest, outbox := outbox io @ writeStartup ''app'' ''db'' [] @
              WriteSASLInitialResponse saslMechanismSCRAM m1 @ WriteSASLResponse m3\<rparr>))" by blast
  have "\<exists>m4 out. AuthenticateBackend (\<lambda>_ _. exZ) (\<lambda>_. exZ) (\<lambda>_. []) (\<lambda>_. Some ''p'') ''app'' ''db'' exKey ?v []
      \<lparr>inbox = WriteAuthSASL @ WriteAuthSASLContinue m2 @ WriteAuthSASLFinal m4 @ WriteAuthOK @ ''S'', outbox = [], writable = True\<rparr> =
      (Inr (), \<lparr>inbox = ''S'', outbox = out, writable = True\<rparr>)" if "length m2 + 8 \<le> maxAuthMessage"
  proof -
    from run [OF that] obtain m3 m4 where r: "\<And>io rest. writable io \<and>
         inbox io = WriteAuthSASL @ WriteAuthSASLContinue m2 @ WriteAuthSASLFinal m4 @ WriteAuthOK @ rest \<Longrightarrow>
         AuthenticateBackend (\<lambda>_ _. exZ) (\<lambda>_. exZ) (\<lambda>_. []) (\<lambda>_. Some ''p'') ''app'' ''db'' exKey ?v [] io =
           (Inr (), io\<lparr>inbox := rest, outbox := outbox io @ writeStartup ''app'' ''db'' [] @
              WriteSASLInitialResponse saslMechanismSCRAM m1 @ WriteSASLResponse m3\<rparr>)" by blast
    show ?thesis
      by (rule exI [of _ m4], rule exI, rule r [of _ "''S''", THEN trans])
        (simp_all only: client_io.select_convs client_io.update_convs simp_thms)
  qed
  with m show ?thesis by blast
qed

section \<open>Two things the exchange does not hide or check\<close>

text \<open>
  An unknown user is told apart from a wrong password by the first byte of the answer: the one
  is refused at once, the other is first asked to authenticate.
\<close>

lemma unknown_user_visible:
  assumes "writable io" "outbox io = []" "Method v = MethodSCRAM" "SCRAM v = Some sv"
    and "authenticateClient hmac sha md5 rand txt (Inl ErrUnknownUser) io st = (e, io1, st1)"
    and "authenticateClient hmac sha md5 rand txt (Inr v) (io\<lparr>inbox := []\<rparr>) st = (e', io2, st2)"
  shows "e = e' \<and> hd (outbox io1) = CHR ''E'' \<and> hd (outbox io2) = CHR ''R''"
proof -
  have r: "ReadSASLResponse True [] = Inl (AuthWire (IO EOF))"
    by (simp add: ReadSASLResponse_def readTagged_def readFrame_def readFull_def)
  from assms r show ?thesis
    by (auto simp: authenticateClient_def AuthenticateClient_def authenticateSCRAM_def NewScramServer_for sendThen_ok
        recvThen_def WriteClientError_def clientWrite_def WriteStartupError_def Let_def WriteAuthSASL_def writeTagged_Cons)
qed

text \<open>
  A backend that simply reports success is accepted without proving that it knows the
  verifier's server key.
\<close>

lemma backend_ok_without_proof:
  assumes "writable io" "inbox io = WriteAuthOK @ rest"
  shows "fst (AuthenticateBackend hmac sha md5 rand u db key v params io) = Inr ()"
  using assms by (simp add: AuthenticateBackend_def sendThen_ok
      authBackendLoop_OK [of _ "plainRequest authOK" rest] ReadAuthRequest_OK)

end
