(* ===== verification/CircuitBreaker.thy ===== *)
theory CircuitBreaker
  imports Prelude
begin

text \<open>
  The circuit breaker in front of a backend's connection pool
  (\<^verbatim>\<open>server/internal/health/circuit_breaker.go\<close>).

  Every caller runs \<^verbatim>\<open>canCall\<close>, then its own function, then one of the two recorders, and other
  callers run in between: the breaker only sees a sequence of questions and outcomes.  The
  lemmas describe its answers by that sequence alone.  Times are nanoseconds of one clock.
\<close>

datatype State = StateClosed | StateOpen | StateHalfOpen

record CircuitBreaker =
  cbState :: State
  failures :: int
  threshold :: int
  resetTimeout :: int
  lastFailure :: int

definition NewCircuitBreaker :: "int \<Rightarrow> int \<Rightarrow> CircuitBreaker" where
  "NewCircuitBreaker thr timeout =
     \<lparr>cbState = StateClosed, failures = 0, threshold = thr, resetTimeout = timeout, lastFailure = 0\<rparr>"

definition canCall :: "int \<Rightarrow> CircuitBreaker \<Rightarrow> bool \<times> CircuitBreaker" where
  "canCall now cb =
     (if cbState cb = StateClosed then (True, cb)
      else if cbState cb = StateOpen then
        (if now - lastFailure cb > resetTimeout cb then (True, cb\<lparr>cbState := StateHalfOpen\<rparr>) else (False, cb))
      else (True, cb))"

definition recordFailure :: "int \<Rightarrow> CircuitBreaker \<Rightarrow> CircuitBreaker" where
  "recordFailure now cb =
     (let cb1 = cb\<lparr>lastFailure := now\<rparr> in
      if cbState cb1 = StateHalfOpen then cb1\<lparr>cbState := StateOpen\<rparr>
      else let cb2 = cb1\<lparr>failures := failures cb1 + 1\<rparr> in
        if failures cb2 \<ge> threshold cb2 then cb2\<lparr>cbState := StateOpen\<rparr> else cb2)"

definition recordSuccess :: "CircuitBreaker \<Rightarrow> CircuitBreaker" where
  "recordSuccess cb = cb\<lparr>failures := 0, cbState := StateClosed\<rparr>"

datatype 'e breaker_result = ErrCircuitOpen | CallFailed 'e | CallOk

text \<open>One call with nobody in between: asked at \<open>t\<close>, with \<open>fn\<close> returning an error or not at \<open>t'\<close>.\<close>

definition Call :: "int \<Rightarrow> int \<Rightarrow> 'e option \<Rightarrow> CircuitBreaker \<Rightarrow> 'e breaker_result \<times> CircuitBreaker" where
  "Call t t' fn cb =
     (let (ok, cb1) = canCall t cb in
      if \<not> ok then (ErrCircuitOpen, cb1)
      else (case fn of Some e \<Rightarrow> (CallFailed e, recordFailure t' cb1) | None \<Rightarrow> (CallOk, recordSuccess cb1)))"

definition breakerState :: "CircuitBreaker \<Rightarrow> bytes" where
  "breakerState cb = (case cbState cb of StateClosed \<Rightarrow> ''Closed'' | StateOpen \<Rightarrow> ''Open'' | StateHalfOpen \<Rightarrow> ''Half-Open'')"

section \<open>Histories\<close>

datatype breaker_event = Asked int | Failed int | Succeeded

fun observe :: "breaker_event \<Rightarrow> CircuitBreaker \<Rightarrow> CircuitBreaker" where
  "observe (Asked t) cb = snd (canCall t cb)"
| "observe (Failed t) cb = recordFailure t cb"
| "observe Succeeded cb = recordSuccess cb"

text \<open>Reading a history, latest event first: failures since the last success, and their last time.\<close>

fun tripped :: "breaker_event list \<Rightarrow> int" where
  "tripped [] = 0"
| "tripped (Failed _ # es) = tripped es + 1"
| "tripped (Succeeded # es) = 0"
| "tripped (Asked _ # es) = tripped es"

fun failedAt :: "breaker_event list \<Rightarrow> int" where
  "failedAt [] = 0"
| "failedAt (Failed t # es) = t"
| "failedAt (_ # es) = failedAt es"

fun eventTime :: "breaker_event \<Rightarrow> int option" where
  "eventTime (Asked t) = Some t"
| "eventTime (Failed t) = Some t"
| "eventTime Succeeded = None"

text \<open>A history of one clock: no event is later than the one in front of it.\<close>

fun clocked :: "int \<Rightarrow> breaker_event list \<Rightarrow> bool" where
  "clocked now [] = True"
| "clocked now (e # es) =
     (case eventTime e of None \<Rightarrow> clocked now es | Some t \<Rightarrow> t \<le> now \<and> clocked t es)"

abbreviation breakerAfter :: "int \<Rightarrow> int \<Rightarrow> breaker_event list \<Rightarrow> CircuitBreaker" where
  "breakerAfter thr timeout es \<equiv> foldr observe es (NewCircuitBreaker thr timeout)"

lemma tripped_nonneg: "0 \<le> tripped es"
  by (induction es rule: tripped.induct) simp_all

lemma clocked_mono: "clocked t es \<Longrightarrow> t \<le> now \<Longrightarrow> clocked now es"
  by (induction es) (auto split: option.splits)

lemma breaker_parameters:
  "threshold (breakerAfter thr timeout es) = thr \<and> resetTimeout (breakerAfter thr timeout es) = timeout \<and>
   lastFailure (breakerAfter thr timeout es) = failedAt es"
proof (induction es)
  case (Cons e es)
  then show ?case by (cases e) (simp_all add: canCall_def recordFailure_def recordSuccess_def Let_def)
qed (simp add: NewCircuitBreaker_def)

text \<open>
  The state as a function of the history: closed below the threshold, and half-open only when a
  caller was let through after the timeout.  The counter stops in the half-open state.
\<close>

lemma breaker_state:
  assumes "0 < thr" "clocked now es" "b = breakerAfter thr timeout es"
  shows "(cbState b = StateClosed \<longleftrightarrow> tripped es < thr) \<and> (cbState b = StateClosed \<longrightarrow> failures b = tripped es) \<and>
    (cbState b \<noteq> StateClosed \<longrightarrow> thr \<le> failures b) \<and> (cbState b = StateHalfOpen \<longrightarrow> now - failedAt es > timeout)"
  using assms(2,3)
proof (induction es arbitrary: now b)
  case Nil
  then show ?case using assms(1) by (simp add: NewCircuitBreaker_def)
next
  case (Cons e es)
  let ?b = "breakerAfter thr timeout es"
  show ?case
  proof (cases e)
    case (Asked t)
    with Cons.prems have t: "t \<le> now" "clocked t es" by simp_all
    note IH = Cons.IH [OF t(2) refl] and p = breaker_parameters [of es thr timeout]
    have b: "b = snd (canCall t ?b)" using Cons.prems Asked by simp
    show ?thesis unfolding b using IH p t Asked by (auto simp: canCall_def)
  next
    case (Failed t)
    with Cons.prems have t: "t \<le> now" "clocked t es" by simp_all
    note IH = Cons.IH [OF t(2) refl] and p = breaker_parameters [of es thr timeout]
    have b: "b = recordFailure t ?b" using Cons.prems Failed by simp
    show ?thesis unfolding b using IH p Failed tripped_nonneg [of es] assms(1)
      by (cases "cbState ?b") (auto simp: recordFailure_def Let_def)
  next
    case Succeeded
    then show ?thesis using Cons.prems assms(1) by (simp add: recordSuccess_def)
  qed
qed

text \<open>
  C22.  The breaker, for any number of concurrent callers in any order: a caller is let through
  exactly when fewer than \<open>threshold\<close> calls have failed since the last success, or more than
  the reset timeout has passed since the last failure.  So it trips after exactly the
  configured number of consecutive failures, stays shut for exactly the timeout, restarts the
  timeout with every failure, and one success closes it.
\<close>

theorem breaker_admits_exactly:
  assumes "0 < thr" "clocked now es"
  shows "fst (canCall now (foldr observe es (NewCircuitBreaker thr timeout))) \<longleftrightarrow>
    tripped es < thr \<or> now - failedAt es > timeout"
  using breaker_state [OF assms refl, of timeout] breaker_parameters [of es thr timeout]
  by (cases "cbState (breakerAfter thr timeout es)") (auto simp: canCall_def)

theorem breaker_admits_exactly_witness:
  "\<not> fst (canCall 40 (foldr observe [Failed 20, Failed 15, Asked 12, Asked 11, Succeeded] (NewCircuitBreaker 2 30))) \<and>
   fst (canCall 51 (foldr observe [Asked 40, Failed 20, Failed 15, Asked 12, Asked 11, Succeeded] (NewCircuitBreaker 2 30)))"
  using breaker_admits_exactly [of 2 40 "[Failed 20, Failed 15, Asked 12, Asked 11, Succeeded]" 30]
    breaker_admits_exactly [of 2 51 "[Asked 40, Failed 20, Failed 15, Asked 12, Asked 11, Succeeded]" 30]
  by simp

text \<open>A call that nobody interrupts is its question followed by its outcome.\<close>

lemma Call_history:
  "Call t t' fn b = (r, b') \<Longrightarrow>
     b' = (case r of ErrCircuitOpen \<Rightarrow> observe (Asked t) b
           | CallFailed _ \<Rightarrow> observe (Failed t') (observe (Asked t) b)
           | CallOk \<Rightarrow> observe Succeeded (observe (Asked t) b))"
  by (auto simp: Call_def split: prod.splits if_splits option.splits)

end
