(* ===== verification/Pool.thy ===== *)
theory Pool
  imports Authentication CircuitBreaker
begin

text \<open>
  Backend connections and the per-identity pools they live in (\<^verbatim>\<open>server/internal/pool\<close>:
  \<^verbatim>\<open>conn.go\<close>, \<^verbatim>\<open>driver.go\<close>, \<^verbatim>\<open>conn_registry.go\<close>, \<^verbatim>\<open>pool_set.go\<close>, \<^verbatim>\<open>database_limits.go\<close> and the
  acquire, release and role paths of \<^verbatim>\<open>server.go\<close>).

  The pooling engine itself is a library outside the repository.  Its answers (which connection
  an acquisition gets, what a pool's statistics are) are arguments here; what it does with a
  connection it is given back is decided by the driver's three predicates, which are modelled.
  The lemmas show that the map of pools stays bounded and never loses a pool in use, and how a
  backend drains.
\<close>

section \<open>Connections\<close>

record Conn =
  netConn :: client_io
  useCount :: nat
  broken :: bool
  dirty :: bool
  busy :: bool
  connUser :: bytes
  connDatabase :: bytes
  startup :: "StartupInfo option"
  ready :: bool
  stmts :: "bytes list"

definition NewConn :: "client_io \<Rightarrow> Conn" where
  "NewConn c = \<lparr>netConn = c, useCount = 0, broken = False, dirty = False, busy = False, connUser = [],
     connDatabase = [], startup = None, ready = False, stmts = []\<rparr>"

definition IncUseCount :: "Conn \<Rightarrow> Conn" where "IncUseCount c = c\<lparr>useCount := useCount c + 1\<rparr>"
definition MarkBroken :: "Conn \<Rightarrow> Conn" where "MarkBroken c = c\<lparr>broken := True\<rparr>"
definition MarkReady :: "Conn \<Rightarrow> Conn" where "MarkReady c = c\<lparr>ready := True\<rparr>"
definition MarkDirty :: "Conn \<Rightarrow> Conn" where "MarkDirty c = c\<lparr>dirty := True\<rparr>"
definition markClean :: "Conn \<Rightarrow> Conn" where "markClean c = c\<lparr>dirty := False\<rparr>"
definition SetStartup :: "StartupInfo \<Rightarrow> Conn \<Rightarrow> Conn" where "SetStartup s c = c\<lparr>startup := Some s\<rparr>"
definition forgetStatements :: "Conn \<Rightarrow> Conn" where "forgetStatements c = c\<lparr>stmts := []\<rparr>"

definition SetIdentity :: "bytes \<Rightarrow> bytes \<Rightarrow> Conn \<Rightarrow> Conn" where
  "SetIdentity user database c = c\<lparr>connUser := user, connDatabase := database\<rparr>"

definition BelongsTo :: "Conn \<Rightarrow> bytes \<Rightarrow> bytes \<Rightarrow> bool" where
  "BelongsTo c user database =
     (if connUser c = [] \<and> connDatabase c = [] then True else connUser c = user \<and> connDatabase c = database)"

definition HasStatement :: "Conn \<Rightarrow> bytes \<Rightarrow> bool" where
  "HasStatement c name = (name \<in> set (stmts c))"

definition AddStatement :: "bytes \<Rightarrow> Conn \<Rightarrow> Conn" where
  "AddStatement name c = (if name = [] then c else c\<lparr>stmts := List.insert name (stmts c)\<rparr>)"

definition connState :: "Conn \<Rightarrow> bytes" where
  "connState c =
     (if broken c then ''close_needed'' else if \<not> ready c then ''login'' else if busy c then ''active'' else ''idle'')"

section \<open>The driver\<close>

definition Dead :: "Conn \<Rightarrow> bool" where "Dead c = broken c"

definition NeedsCleanup :: "Conn \<Rightarrow> bool" where "NeedsCleanup c = dirty c"

definition resetQuery :: bytes where "resetQuery = ''DISCARD ALL''"

text \<open>
  \<open>hasHandler\<close> says whether the driver has a protocol handler, \<open>deadlineOk\<close> whether the socket
  deadline could be set, \<open>execute q\<close> whether the backend carried out \<open>q\<close>.
\<close>

definition Recyclable :: "bool \<Rightarrow> bool \<Rightarrow> (bytes \<Rightarrow> bool) \<Rightarrow> Conn \<Rightarrow> bool \<times> Conn" where
  "Recyclable hasHandler deadlineOk execute c =
     (if Dead c then (False, c)
      else if \<not> hasHandler then (False, c)
      else if \<not> deadlineOk then (False, c)
      else if \<not> execute ''ROLLBACK'' then (False, c)
      else if \<not> execute resetQuery then (False, c)
      else (True, markClean (forgetStatements c)))"

section \<open>Pools by identity\<close>

type_synonym identity = "bytes \<times> bytes"

definition identity_String :: "identity \<Rightarrow> bytes" where
  "identity_String i = (if fst i = [] \<and> snd i = [] then ''system'' else fst i @ ''@'' @ snd i)"

text \<open>The set holds, for each identity with a pool, when it was last wanted.\<close>

record poolSet =
  pools :: "(identity \<times> int) list"
  maxTotal :: int
  maxPools :: nat
  idleTTL :: int
  closed :: bool

definition maxIdentityPools :: nat where "maxIdentityPools = 256"
definition identityPoolTTL :: int where "identityPoolTTL = 5 * 60 * 10 ^ 9"
definition backendConnMultiplier :: int where "backendConnMultiplier = 4"

definition backendConnCeiling :: "int \<Rightarrow> int" where
  "backendConnCeiling perIdentity = (if perIdentity \<le> 0 then 0 else perIdentity * backendConnMultiplier)"

definition newPoolSet :: "int \<Rightarrow> nat \<Rightarrow> int \<Rightarrow> poolSet" where
  "newPoolSet mt mp keep = \<lparr>pools = [], maxTotal = mt, maxPools = mp, idleTTL = keep, closed = False\<rparr>"

text \<open>\<open>total\<close> and \<open>active\<close> are what the engine reports of each pool at the time of the call.\<close>

definition totalLocked :: "(identity \<Rightarrow> int) \<Rightarrow> poolSet \<Rightarrow> int" where
  "totalLocked tot s = sum_list (map (\<lambda>(i, _). tot i) (pools s))"

fun idlest :: "(identity \<Rightarrow> int) \<Rightarrow> (identity \<times> int) list \<Rightarrow> (identity \<times> int) option \<Rightarrow> (identity \<times> int) option" where
  "idlest active [] best = best"
| "idlest active ((i, t) # es) best =
     (if active i > 0 then idlest active es best
      else (case best of
              None \<Rightarrow> idlest active es (Some (i, t))
            | Some (_, oldest) \<Rightarrow> idlest active es (if t < oldest then Some (i, t) else best)))"

definition evictIdlestLocked :: "(identity \<Rightarrow> int) \<Rightarrow> poolSet \<Rightarrow> bool \<times> poolSet" where
  "evictIdlestLocked active s =
     (case idlest active (pools s) None of
        None \<Rightarrow> (False, s)
      | Some (victim, _) \<Rightarrow> (True, s\<lparr>pools := AList.delete victim (pools s)\<rparr>))"

definition reapLocked :: "int \<Rightarrow> (identity \<Rightarrow> int) \<Rightarrow> poolSet \<Rightarrow> poolSet" where
  "reapLocked now active s =
     (if idleTTL s \<le> 0 then s
      else s\<lparr>pools := filter (\<lambda>(i, t). t > now - idleTTL s \<or> active i > 0) (pools s)\<rparr>)"

datatype pool_error = ErrPoolClosed | ErrBackendAtCapacity | ErrNewPool | ErrDraining | ErrBreakerOpen | ErrPoolExhausted | ErrAcquire

definition ensureRoomLocked :: "(identity \<Rightarrow> int) \<Rightarrow> (identity \<Rightarrow> int) \<Rightarrow> poolSet \<Rightarrow> pool_error option \<times> poolSet" where
  "ensureRoomLocked tot active s =
     (if maxTotal s \<le> 0 \<or> totalLocked tot s < maxTotal s then (None, s)
      else (case evictIdlestLocked active s of
              (True, s') \<Rightarrow> (None, s')
            | (False, s') \<Rightarrow> (Some ErrBackendAtCapacity, s')))"

definition poolSet_get :: "int \<Rightarrow> (identity \<Rightarrow> int) \<Rightarrow> (identity \<Rightarrow> int) \<Rightarrow> bool \<Rightarrow> identity \<Rightarrow> poolSet \<Rightarrow>
    pool_error option \<times> poolSet" where
  "poolSet_get now tot active newCoreOk i s =
     (if closed s then (Some ErrPoolClosed, s)
      else if map_of (pools s) i \<noteq> None then (None, s\<lparr>pools := AList.update i now (pools s)\<rparr>)
      else let s1 = reapLocked now active s in
        (case (if length (pools s1) \<ge> maxPools s1 then evictIdlestLocked active s1 else (True, s1)) of
           (False, s2) \<Rightarrow> (Some ErrBackendAtCapacity, s2)
         | (True, s2) \<Rightarrow>
             (case ensureRoomLocked tot active s2 of
                (Some e, s3) \<Rightarrow> (Some e, s3)
              | (None, s3) \<Rightarrow>
                  if \<not> newCoreOk then (Some ErrNewPool, s3)
                  else (None, s3\<lparr>pools := AList.update i now (pools s3)\<rparr>))))"

definition poolSet_close :: "poolSet \<Rightarrow> poolSet" where
  "poolSet_close s = s\<lparr>closed := True, pools := []\<rparr>"

definition ceilingFor :: "int \<Rightarrow> int \<Rightarrow> int" where
  "ceilingFor configured limit = (if limit > 0 \<and> limit < configured then limit else configured)"

section \<open>One backend\<close>

datatype Role = RolePrimary | RoleReplica

record Server =
  srvPools :: poolSet
  breaker :: CircuitBreaker
  draining :: bool
  checkedOut :: int
  srvRole :: Role

text \<open>
  \<open>engine\<close> is what the pooling engine returned; \<open>exhausted\<close> whether the wait had run out by
  then; \<open>t\<close> and \<open>t'\<close> are when the breaker was asked and told.
\<close>

definition AcquireFor :: "int \<Rightarrow> int \<Rightarrow> int \<Rightarrow> (identity \<Rightarrow> int) \<Rightarrow> (identity \<Rightarrow> int) \<Rightarrow> bool \<Rightarrow> pool_error + Conn \<Rightarrow> bool \<Rightarrow>
    bytes \<Rightarrow> bytes \<Rightarrow> Server \<Rightarrow> (pool_error + Conn) \<times> Server" where
  "AcquireFor now t t' tot active newCoreOk engine exhausted user database p =
     (if draining p then (Inl ErrDraining, p)
      else (case poolSet_get now tot active newCoreOk (user, database) (srvPools p) of
          (Some e, ps) \<Rightarrow> (Inl e, p\<lparr>srvPools := ps\<rparr>)
        | (None, ps) \<Rightarrow>
            (case Call t t' (case engine of Inl e \<Rightarrow> Some e | Inr _ \<Rightarrow> None) (breaker p) of (r, b) \<Rightarrow>
               let p1 = p\<lparr>srvPools := ps, breaker := b\<rparr> in
               (case r of
                  ErrCircuitOpen \<Rightarrow> (Inl (if exhausted then ErrPoolExhausted else ErrBreakerOpen), p1)
                | CallFailed e \<Rightarrow> (Inl (if exhausted then ErrPoolExhausted else e), p1)
                | CallOk \<Rightarrow>
                    (case engine of
                       Inl e \<Rightarrow> (Inl e, p1)
                     | Inr c \<Rightarrow> (Inr ((IncUseCount c)\<lparr>busy := True\<rparr>), p1\<lparr>checkedOut := checkedOut p1 + 1\<rparr>))))))"

text \<open>The connection as the engine gets it back, and the backend after the release.\<close>

definition Server_Release :: "Conn \<Rightarrow> Server \<Rightarrow> Conn \<times> Server" where
  "Server_Release c p =
     (let p1 = p\<lparr>checkedOut := checkedOut p - 1\<rparr>;
          c1 = c\<lparr>busy := False\<rparr>;
          c2 = (if draining p1 then MarkBroken c1 else c1)
      in (c2, if draining p1 \<and> checkedOut p1 = 0 then p1\<lparr>draining := False\<rparr> else p1))"

text \<open>A demoted primary starts draining; the engine also drops its idle connections.\<close>

definition setRole :: "Role \<Rightarrow> Server \<Rightarrow> Server" where
  "setRole r p =
     (let p1 = p\<lparr>srvRole := r\<rparr> in
      if srvRole p = RolePrimary \<and> r = RoleReplica then p1\<lparr>draining := True\<rparr> else p1)"

section \<open>The map of pools\<close>

definition pools_ok :: "poolSet \<Rightarrow> bool" where
  "pools_ok s \<longleftrightarrow> table_ok (maxPools s) (\<lambda>_. True) (pools s)"

text \<open>Nothing in use is lost between two states of a set.\<close>

definition keepsActive :: "(identity \<Rightarrow> int) \<Rightarrow> poolSet \<Rightarrow> poolSet \<Rightarrow> bool" where
  "keepsActive active s s' \<longleftrightarrow>
     (\<forall>i. active i > 0 \<and> map_of (pools s) i \<noteq> None \<longrightarrow> map_of (pools s') i \<noteq> None) \<and> maxPools s' = maxPools s \<and>
     maxTotal s' = maxTotal s \<and> closed s' = closed s"

lemma keepsActive_refl [simp]: "keepsActive active s s"
  by (simp add: keepsActive_def)

lemma keepsActive_trans: "keepsActive active a b \<Longrightarrow> keepsActive active b c \<Longrightarrow> keepsActive active a c"
  by (simp add: keepsActive_def)

lemma idlest_idle:
  "idlest active es best = Some (i, t) \<Longrightarrow> best = Some (i, t) \<or> (i, t) \<in> set es \<and> active i \<le> 0"
proof (induction es arbitrary: best)
  case (Cons e es)
  obtain j u where e: "e = (j, u)" by (cases e)
  obtain b' where b': "idlest active es b' = Some (i, t)" "b' = best \<or> b' = Some (j, u) \<and> active j \<le> 0"
    using Cons.prems unfolding e by (cases best) (auto simp: not_less split: if_splits)
  from Cons.IH [OF b'(1)] b'(2) show ?case unfolding e by auto
qed simp

lemma idlest_None: "idlest active es best = None \<longleftrightarrow> best = None \<and> list_all (\<lambda>(i, _). active i > 0) es"
  by (induction active es best rule: idlest.induct) (auto split: if_splits option.splits)

lemma evictIdlest_ok:
  assumes "evictIdlestLocked active s = (b, s')" "pools_ok s"
  shows "pools_ok s' \<and> keepsActive active s s' \<and> (b \<longrightarrow> length (pools s') < length (pools s)) \<and>
    (\<not> b \<longrightarrow> s' = s \<and> list_all (\<lambda>(i, _). active i > 0) (pools s))"
proof (cases "idlest active (pools s) None")
  case None
  with assms show ?thesis by (auto simp: evictIdlestLocked_def idlest_None)
next
  case (Some x)
  obtain i t where x: "x = (i, t)" by (cases x)
  from idlest_idle [of active "pools s" None i t] Some x have i: "(i, t) \<in> set (pools s)" "active i \<le> 0" by simp_all
  from assms Some x have s': "b" "s' = s\<lparr>pools := AList.delete i (pools s)\<rparr>" by (auto simp: evictIdlestLocked_def)
  have "length (AList.delete i (pools s)) < length (pools s)" using i(1) length_delete [of i "pools s"] by force
  with s' i assms(2) show ?thesis
    by (auto simp: pools_ok_def keepsActive_def delete_conv' intro: table_ok_delete)
qed

lemma reap_ok:
  assumes "pools_ok s"
  shows "pools_ok (reapLocked now active s) \<and> keepsActive active s (reapLocked now active s)"
proof -
  let ?f = "\<lambda>(i, t). t > now - idleTTL s \<or> active i > 0"
  have "map_of (filter ?f (pools s)) i \<noteq> None" if i: "active i > 0" "map_of (pools s) i \<noteq> None" for i
  proof -
    from i(2) obtain t where "(i, t) \<in> set (pools s)" by (auto dest: map_of_SomeD)
    with i(1) have "(i, t) \<in> set (filter ?f (pools s))" by simp
    then have "i \<in> fst ` set (filter ?f (pools s))" by (rule rev_image_eqI) simp
    then show ?thesis by (simp only: map_of_eq_None_iff not_not)
  qed
  with assms show ?thesis by (auto simp: reapLocked_def pools_ok_def keepsActive_def intro: table_ok_filter)
qed

lemma ensureRoom_ok:
  assumes "ensureRoomLocked tot active s = (e, s')" "pools_ok s"
  shows "pools_ok s' \<and> keepsActive active s s' \<and> length (pools s') \<le> length (pools s) \<and>
    (e = None \<longrightarrow> maxTotal s \<le> 0 \<or> totalLocked tot s < maxTotal s \<or> length (pools s') < length (pools s))"
  using assms evictIdlest_ok [of active s]
  by (auto simp: ensureRoomLocked_def split: if_splits prod.splits bool.splits)



text \<open>
  The ceiling on a backend's connections is asked for only when a pool is created: a backend at
  its ceiling gets another pool as soon as some pool is idle, even one that holds no connection.
\<close>

lemma ceiling_not_enforced:
  assumes "map_of (pools s) i = None" "closed s = False" "idleTTL s = 0" "length (pools s) < maxPools s"
    and "(j, t) \<in> set (pools s)" "active j = 0" "tot j = 0" "totalLocked tot s \<ge> maxTotal s" "maxTotal s > 0"
  shows "fst (poolSet_get now tot active True i s) = None"
proof -
  have "idlest active (pools s) None \<noteq> None" using assms(5,6) by (auto simp: idlest_None list_all_iff intro!: bexI [of _ "(j, t)"])
  with assms show ?thesis
    by (auto simp: poolSet_get_def reapLocked_def ensureRoomLocked_def evictIdlestLocked_def split: prod.splits)
qed

section \<open>Draining\<close>

fun releaseAll :: "Conn list \<Rightarrow> Server \<Rightarrow> Conn list \<times> Server" where
  "releaseAll [] p = ([], p)"
| "releaseAll (c # cs) p =
     (case Server_Release c p of (d, p1) \<Rightarrow> (case releaseAll cs p1 of (ds, p2) \<Rightarrow> (d # ds, p2)))"

lemma releaseAll_draining:
  assumes "releaseAll cs p = (ds, p')" "draining p" "int (length cs) \<le> checkedOut p"
  shows "list_all Dead ds \<and> checkedOut p' = checkedOut p - int (length cs) \<and>
    (draining p' \<longleftrightarrow> cs = [] \<or> int (length cs) < checkedOut p)"
  using assms
proof (induction cs arbitrary: p ds)
  case (Cons c cs)
  define p1 where "p1 = snd (Server_Release c p)"
  obtain es where es: "releaseAll cs p1 = (es, p')" "ds = fst (Server_Release c p) # es"
    using Cons.prems(1) by (auto simp: p1_def split: prod.splits)
  have d: "Dead (fst (Server_Release c p))" "checkedOut p1 = checkedOut p - 1" "draining p1 \<longleftrightarrow> checkedOut p \<noteq> 1"
    using Cons.prems(2) by (auto simp: Server_Release_def Let_def Dead_def MarkBroken_def p1_def)
  show ?case
  proof (cases "draining p1")
    case True
    from Cons.IH [OF es(1) True] True Cons.prems(3) d es(2) show ?thesis by (cases cs) auto
  next
    case False
    with d Cons.prems(3) have "cs = []" by simp
    with False d es show ?thesis by simp
  qed
qed simp

text \<open>
  C32.  Draining after a demotion.  A primary that becomes a replica refuses every acquisition
  and destroys every connection given back to it, until the last of those checked out at the
  demotion has come back; then it serves again.  If none was checked out nothing comes back,
  and it refuses for ever.
\<close>

theorem drain_exact:
  assumes "srvRole q = RolePrimary" "releaseAll cs (setRole RoleReplica q) = (ds, p)" "int (length cs) \<le> checkedOut q"
  shows "list_all Dead ds \<and> (draining p \<longleftrightarrow> cs = [] \<or> int (length cs) < checkedOut q) \<and>
    (draining p \<longrightarrow> AcquireFor now t t' tot active newCoreOk engine exhausted u d p = (Inl ErrDraining, p))"
  using releaseAll_draining [OF assms(2)] assms(1,3) by (auto simp: setRole_def Let_def AcquireFor_def)

theorem drain_exact_witness:
  "let q = \<lparr>srvPools = newPoolSet 40 256 0, breaker = NewCircuitBreaker 5 30, draining = False, checkedOut = 2, srvRole = RolePrimary\<rparr>;
       c = NewConn \<lparr>inbox = [], outbox = [], writable = True\<rparr>
   in \<not> draining (snd (releaseAll [c, c] (setRole RoleReplica q))) \<and> draining (snd (releaseAll [c] (setRole RoleReplica q))) \<and>
      draining (snd (releaseAll [] (setRole RoleReplica (q\<lparr>checkedOut := 0\<rparr>))))"
proof -
  let ?q = "\<lparr>srvPools = newPoolSet 40 256 0, breaker = NewCircuitBreaker 5 30, draining = False, checkedOut = 2, srvRole = RolePrimary\<rparr>"
  let ?c = "NewConn \<lparr>inbox = [], outbox = [], writable = True\<rparr>"
  from drain_exact [OF _ surjective_pairing, of ?q "[?c, ?c]"] drain_exact [OF _ surjective_pairing, of ?q "[?c]"]
    drain_exact [OF _ surjective_pairing, of "?q\<lparr>checkedOut := 0\<rparr>" "[]"]
  show ?thesis by (simp add: Let_def)
qed

end
