(* ===== verification/Relay.thy ===== *)
theory Relay
  imports Session GoText
begin

text \<open>
  The gateway's side of a reply and of a session: \<^verbatim>\<open>response_capture.go\<close>, \<^verbatim>\<open>pooling_mode.go\<close>
  and the response loops and release decisions of \<^verbatim>\<open>gateway.go\<close> (\<^verbatim>\<open>server/proxy\<close>).

  The lemmas show that a reply is forwarded byte for byte and to its last byte and no further,
  that the fast path behaves as the capturing one does, that a capture is the whole reply or
  nothing, and that a connection goes back to the pool only when nothing ties the session to it.
\<close>

section \<open>Capturing a reply\<close>

record responseCapture =
  capBuf :: bytes
  capLimit :: int
  overflowed :: bool

definition defaultMaxCaptureBytes :: int where "defaultMaxCaptureBytes = 8 * 2 ^ 20"

definition newResponseCapture :: "bytes \<Rightarrow> int \<Rightarrow> responseCapture" where
  "newResponseCapture buf limit =
     \<lparr>capBuf = buf, capLimit = (if limit \<le> 0 then defaultMaxCaptureBytes else limit), overflowed = False\<rparr>"

text \<open>The methods accept a nil receiver: \<^const>\<open>None\<close>.\<close>

definition captureWrite :: "responseCapture option \<Rightarrow> bytes \<Rightarrow> responseCapture option" where
  "captureWrite c chunk =
     (case c of None \<Rightarrow> None
      | Some r \<Rightarrow>
          if overflowed r then c
          else if int (length (capBuf r)) + int (length chunk) > capLimit r
          then Some (r\<lparr>overflowed := True, capBuf := []\<rparr>)
          else Some (r\<lparr>capBuf := capBuf r @ chunk\<rparr>))"

definition captureBytes :: "responseCapture option \<Rightarrow> bytes option" where
  "captureBytes c = (case c of None \<Rightarrow> None | Some r \<Rightarrow> if overflowed r then None else Some (capBuf r))"

definition captureErr :: "responseCapture option \<Rightarrow> bool" where
  "captureErr c = (case c of None \<Rightarrow> False | Some r \<Rightarrow> overflowed r)"

section \<open>Forwarding a reply\<close>

datatype relay_outcome =
    RelayDone transaction_state bool bool
  | RelayWriteError bool
  | RelayPumpError bool
  | RelayReadError bool
  | RelayWaiting

text \<open>
  What a response loop leaves: its outcome (the state, whether a read-only error was seen and,
  for a finished reply, whether it failed), the bytes counted as sent, the bytes the client
  accepted, the capture and the reads not taken.
\<close>

record relay_result =
  outcome :: relay_outcome
  sent :: nat
  delivered :: bytes
  captured :: "responseCapture option"
  unread :: reads

definition midSequenceState :: "transaction_state \<Rightarrow> response_end \<Rightarrow> transaction_state" where
  "midSequenceState state e = (if \<not> OnReadyForQuery e then StateInTransaction else state)"

text \<open>
  \<open>clientOk n\<close>: the client accepts the write made after \<open>n\<close> bytes; \<open>pumpFails\<close>: the COPY pump,
  if one was started, reports an error when it is stopped.
\<close>

fun fastPathLoop :: "(nat \<Rightarrow> bool) \<Rightarrow> bool \<Rightarrow> response_end \<Rightarrow> replyScanner \<Rightarrow> bool \<Rightarrow> nat \<Rightarrow> bytes \<Rightarrow> reads \<Rightarrow> relay_result" where
  "fastPathLoop clientOk pumpFails e scan pump n got [] =
     \<lparr>outcome = RelayWaiting, sent = n, delivered = got, captured = None, unread = []\<rparr>"
| "fastPathLoop clientOk pumpFails e scan pump n got ((chunk, err) # rs) =
     (if chunk \<noteq> [] then
        (let n' = n + length chunk in
         if \<not> clientOk (length got) then
           \<lparr>outcome = RelayWriteError False, sent = n', delivered = got, captured = None, unread = rs\<rparr>
         else let got' = got @ chunk;
                  (scan', done, state) = feed scan chunk;
                  pump' = (pump \<or> sawCopyIn scan')
           in if done then
                (if pump' \<and> pumpFails
                 then \<lparr>outcome = RelayPumpError False, sent = n', delivered = got', captured = None, unread = rs\<rparr>
                 else \<lparr>outcome = RelayDone (midSequenceState state e) False (sawError scan'), sent = n',
                        delivered = got', captured = None, unread = rs\<rparr>)
              else if err then
                \<lparr>outcome = RelayReadError False, sent = n', delivered = got', captured = None, unread = rs\<rparr>
              else fastPathLoop clientOk pumpFails e scan' pump' n' got' rs)
      else if err then
        \<lparr>outcome = RelayReadError False, sent = n, delivered = got, captured = None, unread = rs\<rparr>
      else fastPathLoop clientOk pumpFails e scan pump n got rs)"

definition proxyResponseFastPath :: "(nat \<Rightarrow> bool) \<Rightarrow> bool \<Rightarrow> response_end \<Rightarrow> reads \<Rightarrow> relay_result" where
  "proxyResponseFastPath clientOk pumpFails e rs =
     fastPathLoop clientOk pumpFails e (newReplyScanner e) False 0 [] rs"

fun captureLoop :: "(nat \<Rightarrow> bool) \<Rightarrow> bool \<Rightarrow> response_end \<Rightarrow> responseCapture option \<Rightarrow> replyScanner \<Rightarrow> bool \<Rightarrow> bool \<Rightarrow>
    nat \<Rightarrow> bytes \<Rightarrow> reads \<Rightarrow> relay_result" where
  "captureLoop clientOk pumpFails e capture scan pump ro n got [] =
     \<lparr>outcome = RelayWaiting, sent = n, delivered = got, captured = capture, unread = []\<rparr>"
| "captureLoop clientOk pumpFails e capture scan pump ro n got ((chunk, err) # rs) =
     (if chunk \<noteq> [] then
        (let capture' = captureWrite capture chunk; n' = n + length chunk in
         if \<not> clientOk (length got) then
           \<lparr>outcome = RelayWriteError False, sent = n', delivered = got, captured = capture', unread = rs\<rparr>
         else let got' = got @ chunk;
                  ro' = (ro \<or> IsReadOnlyError chunk);
                  (scan', done, state) = feed scan chunk;
                  pump' = (pump \<or> sawCopyIn scan')
           in if done then
                (if pump' \<and> pumpFails
                 then \<lparr>outcome = RelayPumpError ro', sent = n', delivered = got', captured = capture', unread = rs\<rparr>
                 else \<lparr>outcome = RelayDone (midSequenceState state e) ro' (sawError scan'), sent = n',
                        delivered = got', captured = capture', unread = rs\<rparr>)
              else if err then
                \<lparr>outcome = RelayReadError ro', sent = n', delivered = got', captured = capture', unread = rs\<rparr>
              else captureLoop clientOk pumpFails e capture' scan' pump' ro' n' got' rs)
      else if err then
        \<lparr>outcome = RelayReadError ro, sent = n, delivered = got, captured = capture, unread = rs\<rparr>
      else captureLoop clientOk pumpFails e capture scan pump ro n got rs)"

definition proxyResponseWithCapture ::
    "(nat \<Rightarrow> bool) \<Rightarrow> bool \<Rightarrow> responseCapture option \<Rightarrow> response_end \<Rightarrow> reads \<Rightarrow> relay_result" where
  "proxyResponseWithCapture clientOk pumpFails capture e rs =
     captureLoop clientOk pumpFails e capture (newReplyScanner e) False False 0 [] rs"

text \<open>\<^verbatim>\<open>proxyResponse\<close>, apart from the read deadline it sets, which is a read that fails.\<close>

definition proxyResponse ::
    "(nat \<Rightarrow> bool) \<Rightarrow> bool \<Rightarrow> responseCapture option \<Rightarrow> bool \<Rightarrow> response_end \<Rightarrow> reads \<Rightarrow> relay_result" where
  "proxyResponse clientOk pumpFails capture readOnly e rs =
     (if readOnly \<and> capture = None then proxyResponseFastPath clientOk pumpFails e rs
      else proxyResponseWithCapture clientOk pumpFails capture e rs)"

section \<open>Pooling modes\<close>

datatype poolingMode = poolTransaction | poolSession | poolStatement

definition parsePoolingMode :: "bytes \<Rightarrow> poolingMode" where
  "parsePoolingMode name =
     (let n = ToLower (TrimSpace name) in
      if n = ''session'' then poolSession else if n = ''statement'' then poolStatement else poolTransaction)"

fun poolingMode_String :: "poolingMode \<Rightarrow> bytes" where
  "poolingMode_String poolSession = ''session''"
| "poolingMode_String poolStatement = ''statement''"
| "poolingMode_String poolTransaction = ''transaction''"

definition shouldReleaseAt :: "poolingMode \<Rightarrow> transaction_state \<Rightarrow> bool \<Rightarrow> bool" where
  "shouldReleaseAt m txState pinned =
     (if pinned then False else if m = poolSession then False else txState = StateIdle)"

definition shouldRelease :: "poolingMode \<Rightarrow> SessionState option \<Rightarrow> bool \<Rightarrow> bool" where
  "shouldRelease m state pinned =
     (case state of None \<Rightarrow> False | Some s \<Rightarrow> shouldReleaseAt m (TxState s) pinned)"

definition rejectsTransactions :: "poolingMode \<Rightarrow> bool" where
  "rejectsTransactions m = (m = poolStatement)"

section \<open>One request\<close>

text \<open>
  What \<^verbatim>\<open>executeRequest\<close> does to the session once the request is written to a backend: it
  records the request, relays the reply, takes over the transaction state the reply left, and
  decides whether the connection goes back to the pool.  The connection's own loop asks again
  afterwards; the middleware in between is not part of this.
\<close>

definition relayState :: "relay_outcome \<Rightarrow> transaction_state" where
  "relayState r = (case r of RelayDone st _ _ \<Rightarrow> st | RelayWaiting \<Rightarrow> StatePartial | _ \<Rightarrow> StateError)"

definition executeRequestTail ::
    "poolingMode \<Rightarrow> (nat \<Rightarrow> bool) \<Rightarrow> bool \<Rightarrow> responseCapture option \<Rightarrow> bool \<Rightarrow> bytes \<Rightarrow> reads \<Rightarrow> SessionState \<Rightarrow>
     SessionState \<times> relay_result \<times> bool" where
  "executeRequestTail mode clientOk pumpFails capture readOnly data rs s =
     (let s1 = requestForwarded data s;
          r = proxyResponse clientOk pumpFails capture readOnly (ResponseEndFor data) rs;
          state = relayState (outcome r);
          s2 = replyEnded state s1
      in (s2, r, shouldReleaseAt mode state (IsPinned s2)))"

section \<open>Captures\<close>

abbreviation captureAll :: "bytes list \<Rightarrow> responseCapture option \<Rightarrow> responseCapture option" where
  "captureAll cs c \<equiv> fold (\<lambda>chunk c. captureWrite c chunk) cs c"

lemma captureAll_overflowed: "overflowed r \<Longrightarrow> captureAll cs (Some r) = Some r"
  by (induction cs) (auto simp: captureWrite_def)

lemma captureWrite_Some:
  "\<not> overflowed r \<Longrightarrow> captureWrite (Some r) chunk =
     Some (if int (length (capBuf r)) + int (length chunk) > capLimit r
           then r\<lparr>overflowed := True, capBuf := []\<rparr> else r\<lparr>capBuf := capBuf r @ chunk\<rparr>)"
  by (simp add: captureWrite_def)

lemma captureAll_eq:
  "\<not> overflowed r \<Longrightarrow> int (length (capBuf r)) \<le> capLimit r \<Longrightarrow>
     captureAll cs (Some r) =
       Some (if int (length (capBuf r @ concat cs)) \<le> capLimit r then r\<lparr>capBuf := capBuf r @ concat cs\<rparr>
             else r\<lparr>overflowed := True, capBuf := []\<rparr>)"
proof (induction cs arbitrary: r)
  case (Cons c cs)
  then show ?case
    by (cases "int (length (capBuf r)) + int (length c) > capLimit r")
      (auto simp: captureWrite_Some captureAll_overflowed)
qed simp

lemma captureBytes_all:
  "0 < limit \<Longrightarrow> captureBytes (captureAll cs (Some (newResponseCapture [] limit))) =
     (if int (length (concat cs)) \<le> limit then Some (concat cs) else None)"
  by (subst captureAll_eq) (auto simp: newResponseCapture_def captureBytes_def)

section \<open>The two loops\<close>

fun forgetReadOnly :: "relay_outcome \<Rightarrow> relay_outcome" where
  "forgetReadOnly (RelayDone st _ failed) = RelayDone st False failed"
| "forgetReadOnly (RelayWriteError _) = RelayWriteError False"
| "forgetReadOnly (RelayPumpError _) = RelayPumpError False"
| "forgetReadOnly (RelayReadError _) = RelayReadError False"
| "forgetReadOnly RelayWaiting = RelayWaiting"

lemma captureWrite_None [simp]: "captureWrite None c = None"
  by (simp add: captureWrite_def)

lemma fastPathLoop_captureLoop:
  "fastPathLoop clientOk pf e scan pump n got rs =
     (let r = captureLoop clientOk pf e None scan pump ro n got rs in r\<lparr>outcome := forgetReadOnly (outcome r)\<rparr>)"
proof (induction rs arbitrary: scan pump ro n got)
  case (Cons r rs)
  obtain chunk err where r: "r = (chunk, err)" by (cases r)
  obtain scan' dn state where f: "feed scan chunk = (scan', dn, state)" by (metis prod_cases3)
  show ?case
    using Cons.IH [of scan' "pump \<or> sawCopyIn scan'" "n + length chunk" "got @ chunk" "ro \<or> IsReadOnlyError chunk"]
      Cons.IH [of scan pump n got ro] unfolding r by (simp add: f Let_def)
qed simp

lemma captureLoop_reply:
  assumes "framable ms" "CHR ''Z'' \<notin> set (map fst ms)"
  shows "reply_of ms c = p @ concat cs \<Longrightarrow> cs \<noteq> [] \<Longrightarrow> [] \<notin> set cs \<Longrightarrow>
    scanned untilReady p = (s, False, StatePartial, False) \<Longrightarrow>
    captureLoop (\<lambda>_. True) False untilReady cap s pump ro n got (clean_reads cs @ rest) =
      \<lparr>outcome = RelayDone (transactionStatus c) (ro \<or> list_ex IsReadOnlyError cs) (CHR ''E'' \<in> set (map fst ms)),
       sent = n + length (concat cs), delivered = got @ concat cs, captured = captureAll cs cap, unread = rest\<rparr>"
proof (induction cs arbitrary: p s cap pump ro n got)
  case (Cons chunk cs)
  define q where "q = concat cs"
  have q: "q = [] \<longleftrightarrow> cs = []" "chunk \<noteq> []" using Cons.prems by (cases cs, auto simp: q_def)
  obtain s' where s': "scanned untilReady (p @ chunk) =
      (s', q = [], if q = [] then transactionStatus c else StatePartial, False)"
    "feed s chunk = (s', q = [], if q = [] then transactionStatus c else StatePartial)"
    "q = [] \<Longrightarrow> sawError s' \<longleftrightarrow> CHR ''E'' \<in> set (map fst ms)"
    using feed_chunk [OF assms, of c p chunk q s] Cons.prems by (auto simp: q_def)
  show ?case
  proof (cases "cs = []")
    case True
    with s' q show ?thesis by (simp add: midSequenceState_def)
  next
    case False
    with s' q have u: "scanned untilReady (p @ chunk) = (s', False, StatePartial, False)"
      "feed s chunk = (s', False, StatePartial)" by simp_all
    have "reply_of ms c = (p @ chunk) @ concat cs" "[] \<notin> set cs" using Cons.prems by simp_all
    from Cons.IH [OF this(1) False this(2) u(1), of "captureWrite cap chunk" "pump \<or> sawCopyIn s'"
        "ro \<or> IsReadOnlyError chunk" "n + length chunk" "got @ chunk"] u(2) q(2)
    show ?thesis by (simp only: list.map append_Cons captureLoop.simps) (simp add: Let_def disj_assoc)
  qed
qed simp

lemma proxyResponse_reply:
  assumes "framable ms" "CHR ''Z'' \<notin> set (map fst ms)" "concat cs = reply_of ms c" "[] \<notin> set cs"
  shows "\<exists>ro. proxyResponse (\<lambda>_. True) False cap readOnly untilReady (clean_reads cs @ rest) =
      \<lparr>outcome = RelayDone (transactionStatus c) ro (CHR ''E'' \<in> set (map fst ms)),
       sent = length (reply_of ms c), delivered = reply_of ms c, captured = captureAll cs cap, unread = rest\<rparr>"
proof -
  have "cs \<noteq> []" using assms(3) by (auto simp: reply_of_def)
  note loop = captureLoop_reply [OF assms(1,2), of c "[]" cs "newReplyScanner untilReady", simplified,
      OF assms(3) [symmetric] this assms(4)]
  have none: "captureAll cs None = None" by (induction cs) simp_all
  show ?thesis
    using loop [of cap False False 0 "[]" rest] loop [of None False False 0 "[]" rest] assms(3) none
      fastPathLoop_captureLoop [of "\<lambda>_. True" False untilReady "newReplyScanner untilReady" False 0 "[]" _ False]
    by (auto simp: proxyResponse_def proxyResponseFastPath_def proxyResponseWithCapture_def Let_def)
qed

section \<open>Properties\<close>

text \<open>
  C3.  A reply is relayed exactly.  However the backend's reply to a simple query or a
  Sync-terminated batch is cut into reads, the client receives every byte of it and nothing
  after it, what follows stays on the backend connection, the transaction state reported is
  the one ReadyForQuery carried, the reply counts as failed exactly when it holds an
  ErrorResponse, and a capture, if there was one, holds the whole reply or (past its bound)
  nothing.
\<close>

theorem proxyResponse_exact:
  assumes "framable ms" "CHR ''Z'' \<notin> set (map fst ms)" "concat cs = reply_of ms c" "[] \<notin> set cs"
    and "r = proxyResponse (\<lambda>_. True) False cap readOnly untilReady (clean_reads cs @ rest)"
  shows "delivered r = reply_of ms c \<and> sent r = length (reply_of ms c) \<and> unread r = rest \<and>
    (\<exists>ro. outcome r = RelayDone (transactionStatus c) ro (CHR ''E'' \<in> set (map fst ms))) \<and>
    (\<forall>limit. 0 < limit \<and> cap = Some (newResponseCapture [] limit) \<longrightarrow>
       captureBytes (captured r) = (if int (length (reply_of ms c)) \<le> limit then Some (reply_of ms c) else None))"
  using proxyResponse_reply [OF assms(1-4), of cap readOnly rest] assms(3,5) captureBytes_all [of _ cs]
  by auto

theorem proxyResponse_exact_witness:
  "let cs = [CHR ''C'' # put32 8, ''SEZT'', CHR ''Z'' # put32 5, ''T'']
   in concat cs = reply_of [(CHR ''C'', ''SEZT'')] CHR ''T'' \<and>
      delivered (proxyResponse (\<lambda>_. True) False None True untilReady (clean_reads cs @ [])) = concat cs"
proof -
  let ?cs = "[CHR ''C'' # put32 8, ''SEZT'', CHR ''Z'' # put32 5, ''T'']"
  have r: "concat ?cs = reply_of [(CHR ''C'', ''SEZT'')] CHR ''T''" by (simp add: reply_of_def writeTagged_Cons)
  from proxyResponse_exact [OF _ _ r _ refl, of None True "[]"] r show ?thesis
    by (simp only: Let_def) simp
qed

text \<open>
  C33.  The fast path for read-only statements is the capturing path with nothing to capture:
  on any sequence of reads, client failures and COPY pump outcome included, it delivers the
  same bytes, leaves the same reads and ends the same way, except that it does not look for
  read-only errors.
\<close>

theorem fast_path_equivalent:
  "proxyResponseFastPath clientOk pumpFails e rs =
     (let r = proxyResponseWithCapture clientOk pumpFails None e rs in r\<lparr>outcome := forgetReadOnly (outcome r)\<rparr>)"
  unfolding proxyResponseFastPath_def proxyResponseWithCapture_def by (rule fastPathLoop_captureLoop)

lemma shouldReleaseAt_iff: "shouldReleaseAt m st pinned \<longleftrightarrow> m \<noteq> poolSession \<and> st = StateIdle \<and> \<not> pinned"
  by (simp add: shouldReleaseAt_def)

lemma parsePoolingMode_String: "parsePoolingMode (poolingMode_String m) = m"
  by (cases m) (simp_all add: parsePoolingMode_def TrimSpace_plain ToLower_ascii plain_def isSpace_def lowerByte_def)

lemma tail_release:
  "executeRequestTail mode ok pf cap readOnly d rs s = (s', r, rel) \<Longrightarrow>
     r = proxyResponse ok pf cap readOnly (ResponseEndFor d) rs \<and>
     s' = replyEnded (relayState (outcome r)) (requestForwarded d s) \<and>
     (rel \<longleftrightarrow> mode \<noteq> poolSession \<and> relayState (outcome r) = StateIdle \<and> \<not> IsPinned s')"
  by (auto simp: executeRequestTail_def Let_def shouldReleaseAt_iff)

lemma fastPath_done:
  "outcome (fastPathLoop ok pf e scan pump n got rs) = RelayDone st ro failed \<Longrightarrow> \<not> OnReadyForQuery e \<Longrightarrow>
     st = StateInTransaction"
proof (induction rs arbitrary: scan pump n got)
  case (Cons r rs)
  then show ?case by (cases r) (auto simp: Let_def case_prod_unfold midSequenceState_def split: if_splits)
qed simp

lemma captureLoop_done:
  "outcome (captureLoop ok pf e cap scan pump ro' n got rs) = RelayDone st ro failed \<Longrightarrow> \<not> OnReadyForQuery e \<Longrightarrow>
     st = StateInTransaction"
proof (induction rs arbitrary: cap scan pump ro' n got)
  case (Cons r rs)
  then show ?case by (cases r) (auto simp: Let_def case_prod_unfold midSequenceState_def split: if_splits)
qed simp


text \<open>
  C26.  And it does go back then: after a request with a Sync or a simple query whose reply
  arrives in full, the connection is released exactly when the status PostgreSQL reported is
  idle, the mode is not session pooling, and the session is not pinned.
\<close>

theorem release_exact:
  assumes "framable qs" "\<exists>t\<in>set (map fst qs). t = CHR ''S'' \<or> t = CHR ''Q''"
    and "framable ms" "CHR ''Z'' \<notin> set (map fst ms)" "concat cs = reply_of ms c" "[] \<notin> set cs"
    and "executeRequestTail mode (\<lambda>_. True) False cap readOnly (encode qs) (clean_reads cs @ rest) s = (s', r, rel)"
  shows "rel \<longleftrightarrow> mode \<noteq> poolSession \<and> c = CHR ''I'' \<and> \<not> IsPinned s'"
proof -
  have e: "ResponseEndFor (encode qs) = untilReady"
    using responseEndLoop_messages [OF assms(1)] assms(2) by (simp add: ResponseEndFor_def)
  have i: "transactionStatus c = StateIdle \<longleftrightarrow> c = CHR ''I''" by (auto simp: transactionStatus_def)
  obtain ro where "outcome r = RelayDone (transactionStatus c) ro (CHR ''E'' \<in> set (map fst ms))"
    using proxyResponse_reply [OF assms(3-6), of cap readOnly rest] tail_release [OF assms(7)] e by auto
  then have "relayState (outcome r) = transactionStatus c" by (simp add: relayState_def)
  with tail_release [OF assms(7)] i show ?thesis by auto
qed

lemma tail_example:
  "\<exists>s' r rel. executeRequestTail poolTransaction (\<lambda>_. True) False None True (encode [(CHR ''Q'', ''x'' @ [NUL])])
     (clean_reads [reply_of [] CHR ''I''] @ []) freshSession = (s', r, rel) \<and> \<not> IsPinned s'"
proof -
  have "requestForwarded (queryMessage ''x'') freshSession = freshSession"
  proof -
    have "extractQueryBytes (queryMessage ''x'') = ''x''" using extractQueryBytes_query [of "''x''" "[]"] by simp
    moreover have "pinReasonFor ''x'' = 0" "unpinReasonFor ''x'' = 0" "parseSet ''x'' = ([], scopeNotSet)"
      by code_simp+
    ultimately show ?thesis
      by (simp add: requestForwarded_def TrackSessionState_def TrackPreparedStatement_def
          ForgetPreparedStatement_def queryMessage_eq writeTagged_Cons Let_def freshSession_def)
  qed
  then show ?thesis
    by (simp add: executeRequestTail_def Let_def queryMessage_eq replyEnded_def ReleaseTransactionPins_def
        IsPinned_def freshSession_def)
qed

theorem release_exact_witness:
  "\<exists>s' r. executeRequestTail poolTransaction (\<lambda>_. True) False None True (encode [(CHR ''Q'', ''x'' @ [NUL])])
     (clean_reads [reply_of [] CHR ''I''] @ []) freshSession = (s', r, True)"
proof -
  from tail_example obtain s' r rel where t: "executeRequestTail poolTransaction (\<lambda>_. True) False None True
      (encode [(CHR ''Q'', ''x'' @ [NUL])]) (clean_reads [reply_of [] CHR ''I''] @ []) freshSession = (s', r, rel)"
    "\<not> IsPinned s'" by blast
  with release_exact [OF _ _ _ _ _ _ t(1), of "[]" "CHR ''I''"] show ?thesis
    by (simp add: reply_of_def writeTagged_Cons)
qed


section \<open>Replies that are left unfinished\<close>

text \<open>
  The end of a Flush-terminated batch is seen at the header of the message that ends it, not
  at its last byte: when a read ends between the two, the loop returns and the body stays on
  the backend connection.
\<close>

lemma flush_reply_cut:
  assumes "e = ResponseEndFor (encode [(CHR ''E'', [NUL, NUL, NUL, NUL, NUL]), (CHR ''H'', [])])"
  shows "proxyResponse (\<lambda>_. True) False None True e
      (clean_reads [CHR ''C'' # put32 13, ''SELECT 1'' @ [NUL]]) =
    \<lparr>outcome = RelayDone StateInTransaction False False, sent = 5, delivered = CHR ''C'' # put32 13,
     captured = None, unread = clean_reads [''SELECT 1'' @ [NUL]]\<rparr>"
proof -
  have e: "e = \<lparr>OnReadyForQuery = False, Tags = ''CsI''\<rparr>"
    using responseEndLoop_messages [of "[(CHR ''E'', [NUL, NUL, NUL, NUL, NUL]), (CHR ''H'', [])]" NUL NUL] assms
    by (simp add: ResponseEndFor_def terminatorsFor_def)
  let ?h = "CHR ''C'' # put32 13"
  have "enterMessage (newReplyScanner e) ?h False = ((newReplyScanner e)\<lparr>skip := 9\<rparr>, True)"
    by (simp add: enterMessage_def newReplyScanner_def e awaited_def)
  then have "feed (newReplyScanner e) ?h = ((newReplyScanner e)\<lparr>skip := 9\<rparr>, True, StatePartial)"
    using feedLoop_scanBytes [of "newReplyScanner e" ?h False StatePartial]
      scanBytes_complete [of "newReplyScanner e" ?h False StatePartial]
    by (simp add: feed_def newReplyScanner_def Let_def)
  then show ?thesis
    by (simp add: proxyResponse_def proxyResponseFastPath_def midSequenceState_def e newReplyScanner_def)
qed

text \<open>
  A request that carries two Syncs (as a client in pipeline mode sends) is answered with two
  ReadyForQuery messages; the loop returns at the first.
\<close>

lemma pipelined_sync_unread:
  "\<exists>ro. proxyResponse (\<lambda>_. True) False cap readOnly (ResponseEndFor (encode [(CHR ''S'', []), (CHR ''S'', [])]))
      (clean_reads [reply_of [] CHR ''I'', reply_of [] CHR ''I'']) =
    \<lparr>outcome = RelayDone StateIdle ro False, sent = 6, delivered = reply_of [] CHR ''I'',
     captured = captureAll [reply_of [] CHR ''I''] cap, unread = clean_reads [reply_of [] CHR ''I'']\<rparr>"
proof -
  have e: "ResponseEndFor (encode [(CHR ''S'', []), (CHR ''S'', [])]) = untilReady"
    using responseEndLoop_messages [of "[(CHR ''S'', []), (CHR ''S'', [])]" NUL NUL] by (simp add: ResponseEndFor_def)
  have n: "[] \<noteq> reply_of [] CHR ''I''" "length (reply_of [] CHR ''I'') = 6"
    by (auto simp: reply_of_def writeTagged_Cons)
  show ?thesis
    using proxyResponse_reply [of "[]" "[reply_of [] CHR ''I'']" "CHR ''I''" cap readOnly
        "clean_reads [reply_of [] CHR ''I'']"] n
    unfolding e by (simp add: transactionStatus_def)
qed

end
