(* ===== verification/Gateway.thy ===== *)
theory Gateway
  imports Pool Relay
begin

text \<open>
  How sessions get their backend connections: the routing table of \<^verbatim>\<open>pkg/config/database.go\<close>,
  \<^verbatim>\<open>open_session.go\<close>, \<^verbatim>\<open>client_auth.go\<close> and \<^verbatim>\<open>session_acquire.go\<close> of the proxy, and the places of
  \<^verbatim>\<open>gateway.go\<close> where a session takes a connection and gives it back.

  The first part has one function per operation.  The second puts any number of sessions,
  connections and pools together in a step relation, in which the pooling engine may offer any
  idle connection of the pool it is asked about or a fresh one, and may keep or close what it
  is given back.  The theorem is that whatever the interleaving, a session only ever speaks on
  a socket whose startup packet named its own user and database.
\<close>

section \<open>The routing table\<close>

record Database_rule =
  ruleName :: bytes
  ruleDatabase :: bytes
  ruleMaxConns :: int

record Route =
  routeDatabase :: bytes
  routeMaxConns :: int

definition WildcardDatabase :: bytes where "WildcardDatabase = ''*''"

definition route :: "Database_rule \<Rightarrow> bytes \<Rightarrow> Route" where
  "route d requested =
     \<lparr>routeDatabase = (if ruleDatabase d = [] then requested else ruleDatabase d), routeMaxConns = ruleMaxConns d\<rparr>"

fun resolveLoop :: "Database_rule list \<Rightarrow> bytes \<Rightarrow> Database_rule option \<Rightarrow> Route" where
  "resolveLoop [] name wildcard =
     (case wildcard of
        Some w \<Rightarrow> \<lparr>routeDatabase = name, routeMaxConns = ruleMaxConns w\<rparr>
      | None \<Rightarrow> \<lparr>routeDatabase = name, routeMaxConns = 0\<rparr>)"
| "resolveLoop (d # ds) name wildcard =
     (if ruleName d = name then route d name
      else resolveLoop ds name (if ruleName d = WildcardDatabase then Some d else wildcard))"

definition Resolve :: "Database_rule list \<Rightarrow> bytes \<Rightarrow> Route" where
  "Resolve ds name = resolveLoop ds name None"

definition Limit :: "Database_rule list \<Rightarrow> bytes \<Rightarrow> int" where
  "Limit ds name = routeMaxConns (Resolve ds name)"

fun validateLoop :: "bytes list \<Rightarrow> Database_rule list \<Rightarrow> bool" where
  "validateLoop seen [] = True"
| "validateLoop seen (d # ds) =
     (let name = TrimSpace (ruleName d) in
      if name = [] then False
      else if name \<in> set seen then False
      else if name = WildcardDatabase \<and> ruleDatabase d \<noteq> [] then False
      else if ruleMaxConns d < 0 then False
      else validateLoop (name # seen) ds)"

definition Validate :: "Database_rule list \<Rightarrow> bool" where
  "Validate ds = validateLoop [] ds"

definition resolveDatabase :: "Database_rule list \<Rightarrow> StartupRequest \<Rightarrow> SessionState \<Rightarrow>
    rewrite_error + StartupRequest \<times> SessionState" where
  "resolveDatabase routes req st =
     (if routes = [] then Inr (req, st)
      else let rt = Resolve routes (reqDatabase req) in
        if routeDatabase rt = reqDatabase req then Inr (req, st)
        else (case RewriteStartupDatabase (reqRaw req) (routeDatabase rt) of
                Inl e \<Rightarrow> Inl e
              | Inr rewritten \<Rightarrow>
                  Inr (req\<lparr>reqRaw := rewritten, reqDatabase := routeDatabase rt\<rparr>, st\<lparr>Database := routeDatabase rt\<rparr>)))"

section \<open>Opening a session\<close>

text \<open>The hash functions, and what the random source delivers.\<close>

record crypto =
  cHmac :: "bytes \<Rightarrow> bytes \<Rightarrow> bytes"
  cSha :: "bytes \<Rightarrow> bytes"
  cMd5 :: "bytes \<Rightarrow> bytes"
  cRand :: "nat \<Rightarrow> bytes option"

text \<open>\<^verbatim>\<open>Conn\<close> records a failed read or write of its socket.\<close>

definition noteFailure :: "auth_error \<Rightarrow> Conn \<Rightarrow> Conn" where
  "noteFailure e c = (case e of AuthWrite \<Rightarrow> MarkBroken c | AuthWire (IO _) \<Rightarrow> MarkBroken c | _ \<Rightarrow> c)"

text \<open>The startup exchange Pontus runs itself: \<^verbatim>\<open>AuthenticateBackend\<close>, then \<^verbatim>\<open>WaitForReady\<close>.\<close>

definition backendStartup :: "crypto \<Rightarrow> bytes \<Rightarrow> bytes \<Rightarrow> SessionState \<Rightarrow> Conn \<Rightarrow> (auth_error + StartupInfo) \<times> Conn" where
  "backendStartup x user database st c =
     (case AuthenticateBackend (cHmac x) (cSha x) (cMd5 x) (cRand x) user database (ClientKey st) (Verifier st) [] (netConn c) of
        (Inl e, io) \<Rightarrow> (Inl e, noteFailure e (c\<lparr>netConn := io\<rparr>))
      | (Inr _, io) \<Rightarrow>
          (case WaitForReady (inbox io) of
             Inl e \<Rightarrow> (Inl e, noteFailure e (c\<lparr>netConn := io\<rparr>))
           | Inr (info, rest) \<Rightarrow> (Inr info, c\<lparr>netConn := io\<lparr>inbox := rest\<rparr>\<rparr>)))"

definition rememberBackendKey :: "StartupInfo option \<Rightarrow> SessionState \<Rightarrow> SessionState" where
  "rememberBackendKey info st =
     (case info of None \<Rightarrow> st | Some i \<Rightarrow> if length (infoKey i) > 0 then st\<lparr>BackendKey := infoKey i\<rparr> else st)"

datatype open_error =
    ErrWrongIdentity
  | ErrNeedsFreshConnection
  | OpenAuth auth_error
  | OpenClient
  | OpenHandshake auth_outcome

definition openAuthenticatedBackend :: "crypto \<Rightarrow> client_io \<Rightarrow> Conn \<Rightarrow> StartupRequest \<Rightarrow> SessionState \<Rightarrow>
    open_error option \<times> client_io \<times> Conn \<times> SessionState" where
  "openAuthenticatedBackend x client c req st =
     (if ready c then
        (if \<not> BelongsTo c (reqUser req) (reqDatabase req) then (Some ErrWrongIdentity, client, c, st)
         else let st1 = rememberBackendKey (startup c) st in
           (case CompleteClientStartup (startup c) client of
              None \<Rightarrow> (Some OpenClient, client, c, st1)
            | Some client' \<Rightarrow> (None, client', c, st1)))
      else (case backendStartup x (reqUser req) (reqDatabase req) st c of
              (Inl e, c1) \<Rightarrow> (Some (OpenAuth e), client, c1, st)
            | (Inr info, c1) \<Rightarrow>
                let c2 = SetStartup info c1; st1 = rememberBackendKey (Some info) st in
                (case CompleteClientStartup (Some info) client of
                   None \<Rightarrow> (Some OpenClient, client, c2, st1)
                 | Some client' \<Rightarrow> (None, client', c2, st1))))"

text \<open>The relayed exchange of a deployment without a credential store.\<close>

definition relayHandshake :: "client_io \<Rightarrow> Conn \<Rightarrow> StartupRequest \<Rightarrow> SessionState \<Rightarrow>
    open_error option \<times> client_io \<times> Conn \<times> SessionState" where
  "relayHandshake client c req st =
     (case CompleteHandshake (\<lambda>_. writable client) (\<lambda>_. writable (netConn c)) req
         \<lparr>fromServer = inbox (netConn c), fromClient = inbox client, toClient = [], toServer = [], relayKey = BackendKey st\<rparr> of
        (r, e) \<Rightarrow>
          let client' = client\<lparr>inbox := fromClient e, outbox := outbox client @ toClient e\<rparr>;
              c1 = c\<lparr>netConn := (netConn c)\<lparr>inbox := fromServer e, outbox := outbox (netConn c) @ toServer e\<rparr>\<rparr>;
              c2 = (case r of AuthReadServer (IO _) \<Rightarrow> MarkBroken c1 | AuthWriteServer \<Rightarrow> MarkBroken c1 | _ \<Rightarrow> c1);
              st1 = st\<lparr>BackendKey := relayKey e\<rparr>
          in (if r = AuthReady then None else Some (OpenHandshake r), client', c2, st1))"

text \<open>One turn of \<^verbatim>\<open>openSession\<close>'s loop; \<open>creds\<close> says whether a credential store is configured.\<close>

definition openAttempt :: "crypto \<Rightarrow> bool \<Rightarrow> client_io \<Rightarrow> Conn \<Rightarrow> StartupRequest \<Rightarrow> SessionState \<Rightarrow>
    open_error option \<times> client_io \<times> Conn \<times> SessionState" where
  "openAttempt x creds client c req st =
     (if \<not> creds \<and> ready c then (Some ErrNeedsFreshConnection, client, c, st)
      else if creds then openAuthenticatedBackend x client c req st
      else relayHandshake client c req st)"

text \<open>What the connection is released as after a failed turn, and kept as after a successful one.\<close>

definition afterFailure :: "open_error \<Rightarrow> Conn \<Rightarrow> Conn" where
  "afterFailure e c = (if e = ErrWrongIdentity \<or> e = ErrNeedsFreshConnection then MarkBroken c else c)"

definition afterSuccess :: "SessionState \<Rightarrow> Conn \<Rightarrow> Conn" where
  "afterSuccess st c = SetIdentity (User st) (Database st) (MarkReady c)"

definition identityAttempts :: nat where "identityAttempts = 8"

section \<open>Acquiring a connection in mid-session\<close>

definition usable :: "Conn \<Rightarrow> bool" where "usable c = ready c"

definition belongsTo :: "Conn \<Rightarrow> bytes \<Rightarrow> bytes \<Rightarrow> bool" where "belongsTo c u d = BelongsTo c u d"

definition canAuthenticateBackends :: "bool \<Rightarrow> SessionState \<Rightarrow> bool" where
  "canAuthenticateBackends creds st =
     (if \<not> creds then False
      else (case Method (Verifier st) of
              MethodSCRAM \<Rightarrow> length (ClientKey st) > 0
            | MethodMD5 \<Rightarrow> MD5 (Verifier st) \<noteq> []
            | _ \<Rightarrow> False))"

definition authenticateFreshBackend :: "crypto \<Rightarrow> Conn \<Rightarrow> SessionState \<Rightarrow> auth_error option \<times> Conn" where
  "authenticateFreshBackend x c st =
     (case backendStartup x (User st) (Database st) st c of
        (Inl e, c1) \<Rightarrow> (Some e, c1)
      | (Inr info, c1) \<Rightarrow> (None, MarkReady (SetIdentity (User st) (Database st) (SetStartup info c1))))"

text \<open>
  \<open>offer\<close> is what the balancer and the pool came up with, \<open>home\<close> what the pool of the session's
  first backend did (\<^const>\<open>None\<close> if it has none).  The result is the connection taken, if any,
  and the connections released on the way.
\<close>

definition acquireHome :: "SessionState \<Rightarrow> ('e + 'n \<times> Conn) option \<Rightarrow> ('n \<times> Conn) list \<Rightarrow>
    ('n \<times> Conn) option \<times> ('n \<times> Conn) list" where
  "acquireHome st home released =
     (case home of
        None \<Rightarrow> (None, released)
      | Some (Inl _) \<Rightarrow> (None, released)
      | Some (Inr (h, hc)) \<Rightarrow>
          if \<not> usable hc \<or> \<not> belongsTo hc (User st) (Database st) then (None, released @ [(h, hc)])
          else (Some (h, hc), released))"

definition acquireForSession :: "crypto \<Rightarrow> bool \<Rightarrow> SessionState \<Rightarrow> 'e + 'n \<times> Conn \<Rightarrow> ('e + 'n \<times> Conn) option \<Rightarrow>
    ('n \<times> Conn) option \<times> ('n \<times> Conn) list" where
  "acquireForSession x creds st offer home =
     (case offer of
        Inl _ \<Rightarrow> acquireHome st home []
      | Inr (n, c) \<Rightarrow>
          if usable c \<and> belongsTo c (User st) (Database st) then (Some (n, c), [])
          else if \<not> usable c \<and> canAuthenticateBackends creds st then
            (case authenticateFreshBackend x c st of
               (None, c1) \<Rightarrow> (Some (n, c1), [])
             | (Some _, c1) \<Rightarrow> acquireHome st home [(n, c1)])
          else acquireHome st home [(n, c)])"

section \<open>Many sessions\<close>

text \<open>
  The connections that are open, the identity of the pool each belongs to, the ones the engine
  has idle, and the sessions with the connection each of them holds.
\<close>

record gw =
  conns :: "nat \<Rightarrow> Conn option"
  poolKey :: "nat \<Rightarrow> identity"
  idleSet :: "nat set"
  sess :: "nat \<Rightarrow> (SessionState \<times> nat option) option"

definition checkout :: "Conn \<Rightarrow> Conn" where "checkout c = (IncUseCount c)\<lparr>busy := True\<rparr>"

text \<open>
  What the engine may hand out when asked for a connection of a pool: one of that pool's idle
  connections, or a socket it has just dialled.
\<close>

definition offered :: "gw \<Rightarrow> identity \<Rightarrow> nat \<Rightarrow> Conn \<Rightarrow> bool" where
  "offered g i n c \<longleftrightarrow>
     n \<in> idleSet g \<and> poolKey g n = i \<and> (\<exists>c0. conns g n = Some c0 \<and> c = checkout c0) \<or>
     conns g n = None \<and> (\<exists>io. outbox io = [] \<and> c = checkout (NewConn io))"

definition grows :: "client_io \<Rightarrow> client_io \<Rightarrow> bool" where
  "grows io io' \<longleftrightarrow> (\<exists>p. outbox io' = outbox io @ p)"

text \<open>
  What it may keep of a connection it is given back: nothing that is dead or was never started,
  and nothing that needs cleaning up unless the driver cleaned it.
\<close>

definition kept :: "Conn \<Rightarrow> Conn \<Rightarrow> bool" where
  "kept c c' \<longleftrightarrow> \<not> Dead c \<and> ready c \<and>
     (if NeedsCleanup c then \<exists>ex c1 io. Recyclable True True ex c = (True, c1) \<and> grows (netConn c1) io \<and> c' = c1\<lparr>netConn := io\<rparr>
      else c' = c)"

definition putBack :: "gw \<Rightarrow> nat \<Rightarrow> identity \<Rightarrow> Conn \<Rightarrow> gw \<Rightarrow> bool" where
  "putBack g n i c g' \<longleftrightarrow>
     g' = g\<lparr>conns := (conns g)(n := None), idleSet := idleSet g - {n}\<rparr> \<or>
     (\<exists>c'. kept (c\<lparr>busy := False\<rparr>) c' \<and>
       g' = g\<lparr>conns := (conns g)(n \<mapsto> c'), poolKey := (poolKey g)(n := i), idleSet := insert n (idleSet g)\<rparr>)"

fun putBackAll :: "gw \<Rightarrow> identity \<Rightarrow> (nat \<times> Conn) list \<Rightarrow> gw \<Rightarrow> bool" where
  "putBackAll g i [] g' \<longleftrightarrow> g' = g"
| "putBackAll g i ((n, c) # r) g' \<longleftrightarrow> (\<exists>g1. putBack g n i c g1 \<and> putBackAll g1 i r g')"

definition takeConn :: "gw \<Rightarrow> nat \<Rightarrow> nat \<Rightarrow> Conn \<Rightarrow> SessionState \<Rightarrow> gw" where
  "takeConn g sid n c st =
     g\<lparr>conns := (conns g)(n \<mapsto> c), poolKey := (poolKey g)(n := (User st, Database st)), idleSet := idleSet g - {n},
       sess := (sess g)(sid \<mapsto> (st, Some n))\<rparr>"

text \<open>The login before a backend is chosen: with a credential store, Pontus authenticates the client.\<close>

definition loggedIn :: "crypto \<Rightarrow> bool \<Rightarrow> client_io \<Rightarrow> SessionState \<Rightarrow> client_io \<Rightarrow> SessionState \<Rightarrow> bool" where
  "loggedIn x creds client st client' st' \<longleftrightarrow>
     (if creds then \<exists>r txt found. authenticateClient (cHmac x) (cSha x) (cMd5 x) r txt found client st = (None, client', st')
      else client' = client \<and> st' = st)"

text \<open>
  A client that has sent its startup and got as far as asking for a connection.  The request
  made of a truncated cancel packet has no packet to forward and names no user: no credential
  store knows it and no backend answers it, so it is left out.
\<close>

definition asksFor :: "crypto \<Rightarrow> bool \<Rightarrow> Database_rule list \<Rightarrow> client_io \<Rightarrow> StartupRequest \<Rightarrow> SessionState \<Rightarrow> bool" where
  "asksFor x creds routes client req st \<longleftrightarrow>
     (\<exists>tls io st0 req0 client0 st1 st2. ReadStartup tls io st0 = Started req0 client0 st1 \<and>
        Cancel req0 = None \<and> reqRaw req0 \<noteq> [] \<and>
        loggedIn x creds client0 st1 client st2 \<and> resolveDatabase routes req0 st2 = Inr (req, st))"

inductive gw_step :: "crypto \<Rightarrow> bool \<Rightarrow> Database_rule list \<Rightarrow> gw \<Rightarrow> gw \<Rightarrow> bool"
  for x :: crypto and creds :: bool and routes :: "Database_rule list" where
  open_ok: "sess g sid = None \<Longrightarrow> asksFor x creds routes client req st \<Longrightarrow> offered g (User st, Database st) n c \<Longrightarrow>
    openAttempt x creds client c req st = (None, client', c', st') \<Longrightarrow>
    gw_step x creds routes g (takeConn g sid n (afterSuccess st' c') st')"
| open_fail: "asksFor x creds routes client req st \<Longrightarrow> offered g (User st, Database st) n c \<Longrightarrow>
    openAttempt x creds client c req st = (Some e, client', c', st') \<Longrightarrow>
    putBack g n (User st, Database st) (afterFailure e c') g' \<Longrightarrow> gw_step x creds routes g g'"
| acquire: "sess g sid = Some (st, None) \<Longrightarrow>
    (\<forall>n c. offer = Inr (n, c) \<longrightarrow> offered g (User st, Database st) n c) \<Longrightarrow>
    acquireForSession x creds st (offer :: pool_error + nat \<times> Conn) None = (got1, released1) \<Longrightarrow>
    putBackAll g (User st, Database st) released1 g1 \<Longrightarrow>
    (\<forall>h c. home = Some (Inr (h, c)) \<longrightarrow> offered g1 (User st, Database st) h c) \<Longrightarrow>
    acquireForSession x creds st offer home = (got, released1 @ released2) \<Longrightarrow>
    putBackAll g1 (User st, Database st) released2 g2 \<Longrightarrow>
    gw_step x creds routes g (case got of None \<Rightarrow> g2 | Some (n, c) \<Rightarrow> takeConn g2 sid n c st)"
| request: "sess g sid = Some (st, Some n) \<Longrightarrow> conns g n = Some c \<Longrightarrow>
    executeRequestTail mode clientOk pumpFails cap readOnly d rs st = (st', r, rel) \<Longrightarrow>
    outbox io = outbox (netConn c) @ replay @ d \<Longrightarrow>
    gw_step x creds routes g
      (g\<lparr>conns := (conns g)(n \<mapsto> AddStatement (ParseStatementName d) (c\<lparr>netConn := io, broken := b\<rparr>)),
         sess := (sess g)(sid \<mapsto> (st', Some n))\<rparr>)"
| give_back: "sess g sid = Some (st, Some n) \<Longrightarrow> conns g n = Some c \<Longrightarrow> c' = c \<or> c' = MarkDirty c \<or> c' = MarkBroken c \<Longrightarrow>
    putBack g n (poolKey g n) c' g' \<Longrightarrow> gw_step x creds routes g (g'\<lparr>sess := (sess g)(sid \<mapsto> (st, None))\<rparr>)"
| leave: "sess g sid = Some (st, None) \<Longrightarrow> gw_step x creds routes g (g\<lparr>sess := (sess g)(sid := None)\<rparr>)"
| reap: "n \<in> idleSet g \<Longrightarrow> gw_step x creds routes g (g\<lparr>conns := (conns g)(n := None), idleSet := idleSet g - {n}\<rparr>)"

definition gw_start :: gw where
  "gw_start = \<lparr>conns = Map.empty, poolKey = (\<lambda>_. ([], [])), idleSet = {}, sess = Map.empty\<rparr>"

inductive gw_reach :: "crypto \<Rightarrow> bool \<Rightarrow> Database_rule list \<Rightarrow> gw \<Rightarrow> bool"
  for x :: crypto and creds :: bool and routes :: "Database_rule list" where
  start: "gw_reach x creds routes gw_start"
| step: "gw_reach x creds routes g \<Longrightarrow> gw_step x creds routes g g' \<Longrightarrow> gw_reach x creds routes g'"

text \<open>
  Who a socket speaks as, read off the bytes written to it the way PostgreSQL reads them: the
  first packet is a startup packet, and its database defaults to its user.
\<close>

definition speaksAs :: "bytes \<Rightarrow> identity option" where
  "speaksAs s =
     (if length s < 4 \<or> length s < be32 s then None
      else let (u, d, _) = extractStartupParams (take (be32 s) s) in Some (u, if d = [] then u else d))"

section \<open>Identities on the wire\<close>

lemma be32_append: "4 \<le> length s \<Longrightarrow> be32 (s @ t) = be32 s"
  by (metis be32_take4 take_append take_all append_Nil2 diff_is_0_eq take0 append.right_neutral)

lemma speaksAs_append: "speaksAs s = Some i \<Longrightarrow> speaksAs (s @ t) = Some i"
  by (auto simp: speaksAs_def be32_append split: if_splits)

lemma speaksAs_packet:
  assumes "be32 p = length p" "4 \<le> length p" "extractStartupParams p = (u, d, r)"
  shows "speaksAs (p @ t) = Some (u, if d = [] then u else d)"
  using assms by (simp add: speaksAs_def be32_append)

lemma speaksAs_writeStartup:
  assumes "NUL \<notin> set u" "NUL \<notin> set d" "length u + length d < 2 ^ 31"
  shows "speaksAs (writeStartup u d [] @ t) = Some (u, if d = [] then u else d)"
proof -
  have "be32 (writeStartup u d []) = length (writeStartup u d [])" "4 \<le> length (writeStartup u d [])"
    using assms(3) unfolding writeStartup_eq by simp_all
  then show ?thesis using writeStartup_params [of "[]", OF _ assms(1,2)] by (intro speaksAs_packet) simp_all
qed

lemma startupParams_cases:
  "startupParams (u, d, r) p = (u, d, r) \<or>
   (\<exists>v a b c p'. NUL \<notin> set v \<and> length v \<le> length p \<and> length p' < length p \<and>
      startupParams (u, d, r) p = startupParams (a, b, c) p' \<and> a \<in> {u, v} \<and> b \<in> {d, v})"
proof (cases "\<exists>i j. indexByte p NUL = Some i \<and> i \<noteq> 0 \<and> indexByte (drop (i + 1) p) NUL = Some j")
  case False
  then show ?thesis by (subst startupParams.simps) (auto simp: Let_def split: option.splits)
next
  case True
  then obtain i j where ij: "indexByte p NUL = Some i" "i \<noteq> 0" "indexByte (drop (i + 1) p) NUL = Some j" by blast
  define v p' where "v = take j (drop (i + 1) p)" and "p' = drop (j + 1) (drop (i + 1) p)"
  have v: "NUL \<notin> set v" "length v \<le> length p" "length p' < length p" using ij by (auto simp: v_def p'_def indexByte_Some)
  define t where "t = (if take i p = ''user'' then (v, d, r) else if take i p = ''database'' then (u, v, r)
    else if take i p = ''replication'' then (u, d, v) else (u, d, r))"
  have s: "startupParams (u, d, r) p = startupParams t p'"
    using ij by (subst startupParams.simps) (simp only: option.case Let_def if_False v_def p'_def t_def)
  have "\<exists>a b c. t = (a, b, c) \<and> a \<in> {u, v} \<and> b \<in> {d, v}" by (simp add: t_def)
  then obtain a b c where t: "t = (a, b, c)" "a \<in> {u, v}" "b \<in> {d, v}" by blast
  show ?thesis using v s t by (intro disjI2 exI [of _ v] exI [of _ a] exI [of _ b] exI [of _ c] exI [of _ p']) simp
qed

lemma startupParams_bounds:
  assumes "startupParams (u, d, r) p = (u', d', r')"
  shows "(NUL \<notin> set u \<and> NUL \<notin> set d \<longrightarrow> NUL \<notin> set u' \<and> NUL \<notin> set d') \<and>
    length u' \<le> max (length u) (length p) \<and> length d' \<le> max (length d) (length p)"
  using assms
proof (induction "length p" arbitrary: u d r p rule: less_induct)
  case less
  from startupParams_cases [of u d r p] show ?case
  proof
    assume "startupParams (u, d, r) p = (u, d, r)"
    then show ?thesis using less.prems by simp
  next
    assume "\<exists>v a b c p'. NUL \<notin> set v \<and> length v \<le> length p \<and> length p' < length p \<and>
      startupParams (u, d, r) p = startupParams (a, b, c) p' \<and> a \<in> {u, v} \<and> b \<in> {d, v}"
    then obtain v a b c p' where c: "NUL \<notin> set v" "length v \<le> length p" "length p' < length p"
      "startupParams (u, d, r) p = startupParams (a, b, c) p'" "a \<in> {u, v}" "b \<in> {d, v}" by blast
    from less.hyps [OF c(3), of a b c] c less.prems show ?thesis by auto
  qed
qed

lemma extractStartupParams_bounds:
  assumes "extractStartupParams p = (u, d, r)"
  shows "NUL \<notin> set u \<and> NUL \<notin> set d \<and> length u \<le> length p \<and> length d \<le> length p"
  using assms startupParams_bounds [of "[]" "[]" "[]" "drop 8 p" u d r]
  by (auto simp: extractStartupParams_def split: if_splits)

section \<open>Every session speaks as itself\<close>

text \<open>A routing table whose database names could be written into a packet at all.\<close>

definition good_routes :: "Database_rule list \<Rightarrow> bool" where
  "good_routes ds \<longleftrightarrow> list_all (\<lambda>d. NUL \<notin> set (ruleDatabase d) \<and> length (ruleDatabase d) \<le> 2 ^ 16) ds"

definition goodSession :: "SessionState \<Rightarrow> bool" where
  "goodSession st \<longleftrightarrow> NUL \<notin> set (User st) \<and> NUL \<notin> set (Database st) \<and> length (User st) + length (Database st) < 2 ^ 31 \<and>
     (Database st = [] \<longrightarrow> User st = [])"

definition goodRequest :: "StartupRequest \<Rightarrow> SessionState \<Rightarrow> bool" where
  "goodRequest req st \<longleftrightarrow> goodSession st \<and> reqUser req = User st \<and> reqDatabase req = Database st \<and>
     be32 (reqRaw req) = length (reqRaw req) \<and> 4 \<le> length (reqRaw req) \<and>
     (\<exists>d r. extractStartupParams (reqRaw req) = (User st, d, r) \<and> Database st = (if d = [] then User st else d))"

lemma resolveLoop_database:
  "routeDatabase (resolveLoop ds name w) = name \<or> (\<exists>d\<in>set ds. routeDatabase (resolveLoop ds name w) = ruleDatabase d \<and> ruleDatabase d \<noteq> [])"
  by (induction ds name w rule: resolveLoop.induct) (auto simp: route_def split: option.splits)

lemma ReadStartup_good:
  assumes "ReadStartup tls io st0 = Started req client st" "Cancel req = None" "reqRaw req \<noteq> []"
  shows "goodRequest req st \<and> length (reqRaw req) \<le> maxStartupLen"
proof -
  obtain pkt client' where c: "readClientStartup tls io = Inr (pkt, client')"
    using assms(1) by (auto simp: ReadStartup_def split: sum.splits)
  have "\<exists>s r. readStartupPacket s = Inr (pkt, r)"
  proof -
    have "startupAttempts k tls io = Inr (pkt, client') \<Longrightarrow> \<exists>s r. readStartupPacket s = Inr (pkt, r)" for k io
      by (induction k arbitrary: io) (auto simp: Let_def split: sum.splits if_splits option.splits, blast+)
    with c show ?thesis by (simp add: readClientStartup_def)
  qed
  then have wf: "wf_packet pkt" using readStartupPacket_sound by blast
  obtain u d r where e: "extractStartupParams (pktRaw pkt) = (u, d, r)" by (cases "extractStartupParams (pktRaw pkt)")
  have r: "reqRaw req = pktRaw pkt" "reqUser req = u" "reqDatabase req = (if d = [] then u else d)"
    "User st = u" "Database st = (if d = [] then u else d)"
    using assms c e by (auto simp: ReadStartup_def Let_def split: if_splits)
  have "length (pktRaw pkt) \<le> maxStartupLen" using wf by (simp add: wf_packet_def)
  moreover have "length u + length (if d = [] then u else d) < 2 ^ 31"
    using extractStartupParams_bounds [OF e] calculation by (auto simp: maxStartupLen_def)
  ultimately show ?thesis using extractStartupParams_bounds [OF e] wf r e
    by (auto simp: goodRequest_def goodSession_def wf_packet_def)
qed

lemma resolveDatabase_good:
  assumes "resolveDatabase routes req st = Inr (req', st')" "goodRequest req st" "length (reqRaw req) \<le> maxStartupLen" "good_routes routes"
  shows "goodRequest req' st'"
proof (cases "req' = req \<and> st' = st")
  case False
  define db where "db = routeDatabase (Resolve routes (reqDatabase req))"
  have db: "db \<noteq> reqDatabase req" "RewriteStartupDatabase (reqRaw req) db = Inr (reqRaw req')"
    "req' = req\<lparr>reqRaw := reqRaw req', reqDatabase := db\<rparr>" "st' = st\<lparr>Database := db\<rparr>"
    using assms(1) False by (auto simp: resolveDatabase_def Let_def db_def split: if_splits sum.splits)
  have g: "NUL \<notin> set db" "length db \<le> 2 ^ 16" "db \<noteq> []"
    using resolveLoop_database [of routes "reqDatabase req" None] db(1) assms(4)
    by (auto simp: Resolve_def db_def good_routes_def list_all_iff)
  obtain d r where e: "extractStartupParams (reqRaw req) = (User st, d, r)" using assms(2) by (auto simp: goodRequest_def)
  from rewrite_shape [OF db(2) g(1) e] obtain out where out: "extractStartupParams (reqRaw req') = (User st, db, r)"
    "reqRaw req' = put32 (length out + 4) @ out" "length out \<le> length (reqRaw req) * (length db + 1) + length db + 15" by blast
  have "length (reqRaw req) * (length db + 1) \<le> maxStartupLen * (2 ^ 16 + 1)"
    using assms(3) g(2) by (intro mult_le_mono) simp_all
  with out(3) g(2) have "length out + 4 < 2 ^ 32" by (simp add: maxStartupLen_def)
  then have "be32 (reqRaw req') = length (reqRaw req')" "4 \<le> length (reqRaw req')" unfolding out(2) by simp_all
  moreover have "length (User st) + length db < 2 ^ 31"
    using extractStartupParams_bounds [OF e] assms(3) g(2) by (simp add: maxStartupLen_def)
  moreover have "User st' = User st" "Database st' = db" by (simp_all add: db(4))
  moreover have "reqUser req' = reqUser req" "reqDatabase req' = db" by (subst db(3), simp)+
  ultimately show ?thesis using assms(2) g out(1) by (simp add: goodRequest_def goodSession_def)
next
  case True
  then show ?thesis using assms(2) by simp
qed

lemma authenticateClient_identity:
  assumes "authenticateClient hmac sha md5 r txt found client st = (e, client', st')"
  shows "User st' = User st \<and> Database st' = Database st"
proof (cases found)
  case (Inl a)
  then show ?thesis using assms by (simp add: authenticateClient_def)
next
  case (Inr v)
  obtain k io where k: "AuthenticateClient hmac sha md5 r v client = (k, io)" by fastforce
  show ?thesis using assms Inr k by (cases k) (auto simp: authenticateClient_def split: if_splits)
qed

lemma loggedIn_identity: "loggedIn x creds client st client' st' \<Longrightarrow> User st' = User st \<and> Database st' = Database st"
  unfolding loggedIn_def using authenticateClient_identity by (cases creds) (simp, blast, simp)

lemma asksFor_good:
  assumes "asksFor x creds routes client req st" "good_routes routes"
  shows "goodRequest req st"
proof -
  from assms(1) obtain tls io st0 req0 client0 st1 st2 where a: "ReadStartup tls io st0 = Started req0 client0 st1"
    "Cancel req0 = None" "reqRaw req0 \<noteq> []" "loggedIn x creds client0 st1 client st2" "resolveDatabase routes req0 st2 = Inr (req, st)"
    by (auto simp: asksFor_def)
  from ReadStartup_good [OF a(1-3)] loggedIn_identity [OF a(4)] have "goodRequest req0 st2" "length (reqRaw req0) \<le> maxStartupLen"
    by (auto simp: goodRequest_def goodSession_def)
  with resolveDatabase_good [OF a(5) _ _ assms(2)] show ?thesis by blast
qed

text \<open>Whatever is sent, it is sent after what was sent before.\<close>

lemma grows_refl [simp]: "grows io io" by (simp add: grows_def)
lemma grows_trans: "grows a b \<Longrightarrow> grows b c \<Longrightarrow> grows a c" by (auto simp: grows_def)
lemma grows_inbox [simp]: "grows io (io'\<lparr>inbox := s\<rparr>) \<longleftrightarrow> grows io io'" "grows (io\<lparr>inbox := s\<rparr>) io' \<longleftrightarrow> grows io io'"
  by (auto simp: grows_def)

lemma clientWrite_grows: "clientWrite io p = Some io' \<Longrightarrow> grows io io'"
  by (auto simp: clientWrite_def grows_def split: if_splits)

lemma runSASL_grows: "runSASL hmac rand scram offer v io = (x, io') \<Longrightarrow> grows io io'"
  by (auto simp: runSASL_def sendThen_def recvThen_def clientWrite_def grows_def
      split: if_splits sum.splits option.splits prod.splits)

lemma authBackendLoop_grows:
  "authBackendLoop hmac sha md5 rand user key v n io = (x, io') \<Longrightarrow> grows io io'"
proof (induction "length (inbox io)" arbitrary: n io rule: less_induct)
  case less
  show ?case
  proof (cases "ReadAuthRequest (inbox io)")
    case (Inl e)
    then show ?thesis using less.prems by (subst (asm) authBackendLoop.simps) auto
  next
    case (Inr m)
    obtain req rest where m: "m = (req, rest)" by (cases m)
    define io1 where "io1 = io\<lparr>inbox := rest\<rparr>"
    have r: "length (inbox io1) < length (inbox io)" "grows io io1" using ReadAuthRequest_shrinks Inr m by (auto simp: io1_def)
    have again: "grows io io'" if "authBackendLoop hmac sha md5 rand user key v n' io2 = (x, io')" "grows io1 io2"
        "length (inbox io2) \<le> length (inbox io1)" for n' io2
      using less.hyps [OF _ that(1)] that(2,3) r grows_trans by (meson le_less_trans)
    note body = less.prems [unfolded authBackendLoop.simps [of _ _ _ _ _ _ _ n io] Inr m sum.case prod.case Let_def, folded io1_def]
    consider (ok) "authType req = int authOK" | (sasl) "authType req \<noteq> int authOK" "authType req = int authSASL"
      | (md5) "authType req \<noteq> int authOK" "authType req \<noteq> int authSASL" "authType req = int authMD5Password"
      | (other) "authType req \<noteq> int authOK" "authType req \<noteq> int authSASL" "authType req \<noteq> int authMD5Password" by blast
    then show ?thesis
    proof cases
      case sasl
      show ?thesis
      proof (cases "NewScramClient sha user key")
        case (Inr scram)
        obtain y io2 where y: "runSASL hmac (rand n) scram req (SCRAM v) io1 = (y, io2)" by fastforce
        show ?thesis using body sasl Inr y again [of "Suc n" io2] runSASL_grows [OF y] runSASL_shrinks [OF y] r(2) grows_trans [of io io1]
          by (cases y) (auto split: if_splits)
      qed (use body sasl r in \<open>auto split: if_splits\<close>)
    next
      case md5
      then show ?thesis using body again [of n] clientWrite_grows [of io1] r(2)
        by (auto simp: clientWrite_def split: if_splits)
    qed (use body r in \<open>auto split: if_splits\<close>)
  qed
qed

lemma AuthenticateBackend_sent:
  assumes "AuthenticateBackend hmac sha md5 rand u d key v ps io = (Inr y, io')"
  shows "\<exists>t. outbox io' = outbox io @ writeStartup u d ps @ t"
proof -
  have w: "writable io" using assms by (auto simp: AuthenticateBackend_def sendThen_def clientWrite_def split: if_splits)
  then have "authBackendLoop hmac sha md5 rand u key v 0 (io\<lparr>outbox := outbox io @ writeStartup u d ps\<rparr>) = (Inr y, io')"
    using assms by (simp add: AuthenticateBackend_def sendThen_ok)
  from authBackendLoop_grows [OF this] show ?thesis by (auto simp: grows_def)
qed

lemma relayAuth_sent: "relayAuth co so e = (r, e') \<Longrightarrow> \<exists>t. toServer e' = toServer e @ t"
proof (induction "length (fromServer e)" arbitrary: e rule: less_induct)
  case less
  show ?case
  proof (cases "readMessage (fromServer e)")
    case (Inl a)
    then show ?thesis using less.prems by (subst (asm) relayAuth.simps) auto
  next
    case (Inr m)
    obtain msg rest where m: "m = (msg, rest)" by (cases m)
    define e2 where "e2 = e\<lparr>fromServer := rest, toClient := toClient e @ raw msg\<rparr>"
    have again: "\<exists>t. toServer e' = toServer e @ t" if "relayAuth co so e3 = (r, e')" "fromServer e3 = rest" "\<exists>t. toServer e3 = toServer e @ t" for e3
      using less.hyps [OF _ that(1)] that(2,3) startup_wire.dec_consumes [of "fromServer e" msg rest] Inr m by fastforce
    note body = less.prems [unfolded relayAuth.simps [of _ _ e] Inr m sum.case prod.case Let_def]
    have e2: "fromServer e2 = rest" "toServer e2 = toServer e" "toServer (e2\<lparr>relayKey := k\<rparr>) = toServer e" "fromServer (e2\<lparr>relayKey := k\<rparr>) = rest" for k
      by (simp_all add: e2_def)
    show ?thesis
    proof (cases "kind msg = CHR ''R'' \<and> snd (authRequest msg) \<and> co (length (toClient e))")
      case False
      then show ?thesis using body again [of e2] again [of "e2\<lparr>relayKey := drop 5 (raw msg)\<rparr>"] e2
        by (auto simp: e2_def split: if_splits)
    next
      case True
      show ?thesis
      proof (cases "readMessage (fromClient e)")
        case (Inl a)
        then show ?thesis using body True by (auto simp: e2_def)
      next
        case (Inr y)
        obtain reply crest where y: "y = (reply, crest)" by (cases y)
        show ?thesis using body True Inr y again [of "e2\<lparr>fromClient := crest, toServer := toServer e @ raw reply\<rparr>"]
          by (auto simp: e2_def split: if_splits)
      qed
    qed
  qed
qed

lemma CompleteHandshake_sent:
  assumes "CompleteHandshake co so req e = (AuthReady, e')"
  shows "\<exists>t. toServer e' = toServer e @ reqRaw req @ t"
  using assms relayAuth_sent [of co so "e\<lparr>toServer := toServer e @ reqRaw req\<rparr>"]
  by (auto simp: CompleteHandshake_def split: if_splits)

definition sentFirst :: "bytes \<Rightarrow> Conn \<Rightarrow> Conn \<Rightarrow> bool" where
  "sentFirst p c c' \<longleftrightarrow> (\<exists>t. outbox (netConn c') = outbox (netConn c) @ p @ t)"

lemma noteFailure_ready [simp]: "ready (noteFailure e c) = ready c"
  by (cases e) (auto simp: noteFailure_def MarkBroken_def split: wire_error.splits)

lemma backendStartup_sent:
  assumes "backendStartup x u d st c = (r, c')"
  shows "ready c' = ready c \<and> (\<forall>info. r = Inr info \<longrightarrow> sentFirst (writeStartup u d []) c c')"
proof -
  obtain y io where y: "AuthenticateBackend (cHmac x) (cSha x) (cMd5 x) (cRand x) u d (ClientKey st) (Verifier st) [] (netConn c) = (y, io)"
    by fastforce
  show ?thesis
  proof (cases y)
    case (Inl e)
    then show ?thesis using assms y by (auto simp: backendStartup_def)
  next
    case (Inr z)
    then show ?thesis using assms y AuthenticateBackend_sent [OF y [unfolded Inr]]
      by (auto simp: backendStartup_def sentFirst_def split: sum.splits)
  qed
qed

lemma openAttempt_sent:
  assumes "openAttempt x creds client c req st = (e, client', c', st')"
  shows "User st' = User st \<and> Database st' = Database st \<and> ready c' = ready c \<and> (ready c \<longrightarrow> c' = c) \<and>
    (e = None \<and> \<not> ready c \<longrightarrow> sentFirst (writeStartup (reqUser req) (reqDatabase req) []) c c' \<or> sentFirst (reqRaw req) c c')"
proof -
  have remember: "User (rememberBackendKey i st) = User st" "Database (rememberBackendKey i st) = Database st" for i st
    by (cases i; simp add: rememberBackendKey_def)+
  show ?thesis
  proof (cases "ready c")
    case True
    then show ?thesis using assms remember
      by (auto simp: openAttempt_def openAuthenticatedBackend_def Let_def split: if_splits option.splits)
  next
    case fresh: False
    show ?thesis
    proof (cases creds)
      case True
      obtain r c1 where r: "backendStartup x (reqUser req) (reqDatabase req) st c = (r, c1)" by fastforce
      note b = backendStartup_sent [OF r]
      show ?thesis using assms fresh True r b remember
        by (cases r) (auto simp: openAttempt_def openAuthenticatedBackend_def Let_def SetStartup_def sentFirst_def split: option.splits)
    next
      case False
      obtain r y where r: "CompleteHandshake (\<lambda>_. writable client) (\<lambda>_. writable (netConn c)) req
         \<lparr>fromServer = inbox (netConn c), fromClient = inbox client, toClient = [], toServer = [], relayKey = BackendKey st\<rparr> = (r, y)"
        by fastforce
      have s: "r = AuthReady \<Longrightarrow> \<exists>t. toServer y = reqRaw req @ t" using CompleteHandshake_sent r by fastforce
      show ?thesis using assms fresh False r s
        by (cases r) (auto simp: openAttempt_def relayHandshake_def Let_def sentFirst_def MarkBroken_def split: wire_error.splits)
    qed
  qed
qed

section \<open>The invariant\<close>

definition connFor :: "identity \<Rightarrow> Conn \<Rightarrow> bool" where
  "connFor i c \<longleftrightarrow> ready c \<and> speaksAs (outbox (netConn c)) = Some i"

definition held :: "gw \<Rightarrow> nat \<Rightarrow> bool" where
  "held g n \<longleftrightarrow> (\<exists>sid st. sess g sid = Some (st, Some n))"

definition gw_inv :: "gw \<Rightarrow> bool" where
  "gw_inv g \<longleftrightarrow>
     (\<forall>n\<in>idleSet g. \<not> held g n \<and> (\<exists>c. conns g n = Some c \<and> connFor (poolKey g n) c)) \<and>
     (\<forall>sid st h. sess g sid = Some (st, h) \<longrightarrow> goodSession st) \<and>
     (\<forall>sid st n. sess g sid = Some (st, Some n) \<longrightarrow>
        poolKey g n = (User st, Database st) \<and> (\<exists>c. conns g n = Some c \<and> connFor (User st, Database st) c)) \<and>
     (\<forall>sid sid' st st' n. sess g sid = Some (st, Some n) \<longrightarrow> sess g sid' = Some (st', Some n) \<longrightarrow> sid = sid')"

lemma connFor_grows: "connFor i c \<Longrightarrow> ready c' = ready c \<Longrightarrow> grows (netConn c) (netConn c') \<Longrightarrow> connFor i c'"
  by (auto simp: connFor_def grows_def speaksAs_append)

lemma connFor_started:
  assumes "goodSession st" "outbox (netConn c) = []" "sentFirst (writeStartup (User st) (Database st) []) c c'" "ready c'"
  shows "connFor (User st, Database st) c'"
proof -
  from assms(2,3) obtain t where "outbox (netConn c') = writeStartup (User st) (Database st) [] @ t" by (auto simp: sentFirst_def)
  with assms(1,4) speaksAs_writeStartup [of "User st" "Database st" t] show ?thesis
    by (auto simp: connFor_def goodSession_def)
qed

lemma connFor_relayed:
  assumes "goodRequest req st" "outbox (netConn c) = []" "sentFirst (reqRaw req) c c'" "ready c'"
  shows "connFor (User st, Database st) c'"
proof -
  from assms(2,3) obtain t where "outbox (netConn c') = reqRaw req @ t" by (auto simp: sentFirst_def)
  with assms(1,4) speaksAs_packet [of "reqRaw req" "User st" _ _ t] show ?thesis
    by (auto simp: connFor_def goodRequest_def)
qed

lemma offered_cases:
  assumes "gw_inv g" "offered g i n c"
  shows "\<not> held g n \<and> (ready c \<and> connFor i c \<or> \<not> ready c \<and> outbox (netConn c) = [])"
proof -
  have k: "ready (checkout c0) = ready c0" "netConn (checkout c0) = netConn c0" for c0
    by (simp_all add: checkout_def IncUseCount_def)
  from assms(2) consider c0 where "n \<in> idleSet g" "poolKey g n = i" "conns g n = Some c0" "c = checkout c0"
    | io where "conns g n = None" "outbox io = []" "c = checkout (NewConn io)"
    by (auto simp: offered_def)
  then show ?thesis
  proof cases
    case 1
    then show ?thesis using assms(1) k by (fastforce simp: gw_inv_def connFor_def)
  next
    case 2
    then show ?thesis using assms(1) k by (fastforce simp: gw_inv_def held_def NewConn_def)
  qed
qed

lemma takeConn_inv:
  assumes "gw_inv g" "\<not> held g n" "connFor (User st, Database st) c" "goodSession st"
    and "sess g sid = None \<or> (\<exists>st0. sess g sid = Some (st0, None))"
  shows "gw_inv (takeConn g sid n c st)"
  using assms unfolding gw_inv_def takeConn_def held_def by (auto split: if_splits)

lemma kept_connFor: "kept c c' \<Longrightarrow> connFor i c \<Longrightarrow> connFor i c'"
  by (auto simp: kept_def Recyclable_def markClean_def forgetStatements_def connFor_def grows_def speaksAs_append
      split: if_splits)

lemma putBack_inv:
  assumes "gw_inv g" "\<not> held g n" "ready c \<Longrightarrow> connFor i c" "putBack g n i c g'"
  shows "gw_inv g' \<and> sess g' = sess g"
proof -
  from assms(4) consider "g' = g\<lparr>conns := (conns g)(n := None), idleSet := idleSet g - {n}\<rparr>"
    | c' where "kept (c\<lparr>busy := False\<rparr>) c'"
        "g' = g\<lparr>conns := (conns g)(n \<mapsto> c'), poolKey := (poolKey g)(n := i), idleSet := insert n (idleSet g)\<rparr>"
    by (auto simp: putBack_def)
  then show ?thesis
  proof cases
    case 1
    then show ?thesis using assms(1,2) by (auto simp: gw_inv_def held_def)
  next
    case 2
    have "ready c" using 2(1) by (simp add: kept_def)
    with assms(3) have "connFor i c'" using kept_connFor [OF 2(1)] by (simp add: connFor_def)
    with 2 show ?thesis using assms(1,2) by (auto simp: gw_inv_def held_def)
  qed
qed

lemma putBackAll_inv:
  assumes "putBackAll g i r g'" "gw_inv g" "\<forall>(n, c)\<in>set r. \<not> held g n \<and> (ready c \<longrightarrow> connFor i c)"
  shows "gw_inv g' \<and> sess g' = sess g"
  using assms
proof (induction r arbitrary: g)
  case (Cons a r)
  obtain n c where a: "a = (n, c)" by (cases a)
  from Cons.prems(1) a obtain g1 where g1: "putBack g n i c g1" "putBackAll g1 i r g'" by auto
  with Cons.prems(2,3) a putBack_inv [of g n c i g1] have h: "gw_inv g1" "sess g1 = sess g" by auto
  with Cons.IH [OF g1(2) h(1)] Cons.prems(3) show ?case by (auto simp: held_def)
qed simp

lemma authenticateFreshBackend_sent:
  assumes "authenticateFreshBackend x c st = (e, c')" "\<not> ready c"
  shows "if e = None then ready c' \<and> sentFirst (writeStartup (User st) (Database st) []) c c' else \<not> ready c'"
proof -
  obtain r c1 where r: "backendStartup x (User st) (Database st) st c = (r, c1)" by fastforce
  show ?thesis using assms r backendStartup_sent [OF r]
    by (cases r) (auto simp: authenticateFreshBackend_def MarkReady_def SetIdentity_def SetStartup_def sentFirst_def)
qed

text \<open>Where a connection taken in mid-session came from, and what was released on the way to it.\<close>

lemma acquireForSession_cases:
  assumes "acquireForSession x creds st offer home = (got, rel)"
  obtains (as_offered) n c where "offer = Inr (n, c)" "ready c" "got = Some (n, c)" "rel = []"
  | (opened) n c c' where "offer = Inr (n, c)" "\<not> ready c" "ready c'" "sentFirst (writeStartup (User st) (Database st) []) c c'"
      "got = Some (n, c')" "rel = []"
  | (home_only) pre where "(got, rel) = acquireHome st home pre" "acquireForSession x creds st offer None = (None, pre)"
      "\<forall>(n, c')\<in>set pre. \<exists>c. offer = Inr (n, c) \<and> (if ready c then c' = c else \<not> ready c')"
proof (cases offer)
  case (Inl e)
  with assms home_only [of "[]"] show ?thesis by (simp add: acquireForSession_def acquireHome_def)
next
  case (Inr m)
  obtain n c where m: "m = (n, c)" by (cases m)
  consider (yes) "ready c" "BelongsTo c (User st) (Database st)" | (fresh) "\<not> ready c" "canAuthenticateBackends creds st"
    | (no) "\<not> (ready c \<and> BelongsTo c (User st) (Database st))" "\<not> (\<not> ready c \<and> canAuthenticateBackends creds st)" by blast
  then show ?thesis
  proof cases
    case yes
    with assms Inr m as_offered [of n c] show ?thesis by (simp add: acquireForSession_def usable_def belongsTo_def)
  next
    case fresh
    obtain e c' where a: "authenticateFreshBackend x c st = (e, c')" by fastforce
    show ?thesis
    proof (cases e)
      case None
      with assms Inr m fresh a authenticateFreshBackend_sent [OF a fresh(1)] opened [of n c c'] show ?thesis
        by (simp add: acquireForSession_def usable_def)
    next
      case (Some y)
      with assms Inr m fresh a authenticateFreshBackend_sent [OF a fresh(1)] home_only [of "[(n, c')]"] show ?thesis
        by (simp add: acquireForSession_def usable_def acquireHome_def)
    qed
  next
    case no
    with assms Inr m home_only [of "[(n, c)]"] show ?thesis
      by (auto simp: acquireForSession_def usable_def belongsTo_def acquireHome_def)
  qed
qed

lemma acquireHome_cases:
  assumes "(got, pre @ rel) = acquireHome st home pre"
  obtains (taken) h c where "home = Some (Inr (h, c))" "ready c" "got = Some (h, c)" "rel = []"
  | (none) "got = None" "\<forall>(h, c)\<in>set rel. home = Some (Inr (h, c))"
  using assms by (auto simp: acquireHome_def usable_def split: option.splits sum.splits if_splits)

lemma requestForwarded_identity: "User (requestForwarded d st) = User st" "Database (requestForwarded d st) = Database st"
proof -
  have v: "User (TrackSessionState st d) = User st \<and> Database (TrackSessionState st d) = Database st" for st
    unfolding TrackSessionState_def Let_def by (simp split: prod.split setScope.split)
  have p: "User (TrackPreparedStatement st d) = User st \<and> Database (TrackPreparedStatement st d) = Database st" for st
    unfolding TrackPreparedStatement_def Let_def by (simp split: option.split)
  have f: "User (ForgetPreparedStatement st d) = User st \<and> Database (ForgetPreparedStatement st d) = Database st" for st
    unfolding ForgetPreparedStatement_def Let_def by (simp split: option.split)
  show "User (requestForwarded d st) = User st" "Database (requestForwarded d st) = Database st"
    by (simp_all add: requestForwarded_def v p f)
qed

lemma executeRequestTail_identity:
  assumes "executeRequestTail mode ok pf cap ro d rs st = (st', r, rel)"
  shows "User st' = User st \<and> Database st' = Database st"
  using tail_release [OF assms] requestForwarded_identity [of d st] by (simp add: replyEnded_def ReleaseTransactionPins_def)

section \<open>Every step keeps it\<close>

lemma open_ok_inv:
  assumes "gw_inv g" "good_routes routes" "sess g sid = None" "asksFor x creds routes client req st"
    "offered g (User st, Database st) n c" "openAttempt x creds client c req st = (None, client', c', st')"
  shows "gw_inv (takeConn g sid n (afterSuccess st' c') st')"
proof -
  note r = asksFor_good [OF assms(4,2)] and o' = offered_cases [OF assms(1,5)] and s = openAttempt_sent [OF assms(6)]
  have "speaksAs (outbox (netConn c')) = Some (User st, Database st)"
  proof (cases "ready c")
    case True
    with o' s show ?thesis by (auto simp: connFor_def)
  next
    case False
    then have sent: "sentFirst (writeStartup (User st) (Database st) []) c (c'\<lparr>ready := True\<rparr>) \<or> sentFirst (reqRaw req) c (c'\<lparr>ready := True\<rparr>)"
      using s r by (auto simp: goodRequest_def sentFirst_def)
    have "goodSession st" using r by (simp add: goodRequest_def)
    with sent connFor_started [of st c "c'\<lparr>ready := True\<rparr>"] connFor_relayed [OF r, of c "c'\<lparr>ready := True\<rparr>"] o' False
    show ?thesis by (auto simp: connFor_def)
  qed
  then have "connFor (User st', Database st') (afterSuccess st' c')"
    using s by (simp add: connFor_def afterSuccess_def SetIdentity_def MarkReady_def)
  moreover have "goodSession st'" using r s by (simp add: goodRequest_def goodSession_def)
  ultimately show ?thesis using takeConn_inv assms(1,3) o' by blast
qed

lemma open_fail_inv:
  assumes "gw_inv g" "offered g (User st, Database st) n c" "openAttempt x creds client c req st = (Some e, client', c', st')"
    "putBack g n (User st, Database st) (afterFailure e c') g'"
  shows "gw_inv g'"
proof -
  note o' = offered_cases [OF assms(1,2)] and s = openAttempt_sent [OF assms(3)]
  have "ready (afterFailure e c') \<Longrightarrow> connFor (User st, Database st) (afterFailure e c')"
    using o' s by (auto simp: afterFailure_def MarkBroken_def connFor_def split: if_splits)
  with putBack_inv [OF assms(1) _ _ assms(4)] o' show ?thesis by blast
qed

lemma acquire_inv:
  assumes "gw_inv g" "sess g sid = Some (st, None)"
    "\<forall>n c. offer = Inr (n, c) \<longrightarrow> offered g (User st, Database st) n c"
    "acquireForSession x creds st offer None = (got1, released1)"
    "putBackAll g (User st, Database st) released1 g1"
    "\<forall>h c. home = Some (Inr (h, c)) \<longrightarrow> offered g1 (User st, Database st) h c"
    "acquireForSession x creds st offer home = (got, released1 @ released2)"
    "putBackAll g1 (User st, Database st) released2 g2"
  shows "gw_inv (case got of None \<Rightarrow> g2 | Some (n, c) \<Rightarrow> takeConn g2 sid n c st)"
proof -
  have good: "goodSession st" using assms(1,2) by (auto simp: gw_inv_def)
  from assms(7) show ?thesis
  proof (cases rule: acquireForSession_cases)
    case (as_offered n c)
    then have "g2 = g" using assms(5,8) by simp
    with as_offered offered_cases [OF assms(1), of "(User st, Database st)" n c] assms(1-3) good takeConn_inv [of g n st c sid]
    show ?thesis by simp
  next
    case (opened n c c')
    then have "g2 = g" using assms(5,8) by simp
    with opened offered_cases [OF assms(1), of "(User st, Database st)" n c] connFor_started [OF good, of c c'] assms(1-3) good
      takeConn_inv [of g n st c' sid]
    show ?thesis by simp
  next
    case (home_only pre)
    have pre: "pre = released1" using home_only(2) assms(4) by simp
    have "\<not> held g n \<and> (ready c' \<longrightarrow> connFor (User st, Database st) c')" if "(n, c') \<in> set pre" for n c'
      using home_only(3) that assms(3) offered_cases [OF assms(1), of "(User st, Database st)" n] by (fastforce split: if_splits)
    then have g1: "gw_inv g1" "sess g1 = sess g" using putBackAll_inv [OF assms(5) assms(1)] pre by auto
    have "(got, pre @ released2) = acquireHome st home pre" using home_only(1) pre by simp
    then show ?thesis
    proof (cases rule: acquireHome_cases)
      case (taken h c)
      then have "g2 = g1" using assms(8) by simp
      with taken assms(2,6) g1 good offered_cases [OF g1(1), of "(User st, Database st)" h c] takeConn_inv [of g1 h st c sid]
      show ?thesis by simp
    next
      case none
      then have "\<not> held g1 n \<and> (ready c' \<longrightarrow> connFor (User st, Database st) c')" if "(n, c') \<in> set released2" for n c'
        using that assms(6) offered_cases [OF g1(1), of "(User st, Database st)" n c'] by fastforce
      with none putBackAll_inv [OF assms(8) g1(1)] show ?thesis by auto
    qed
  qed
qed

lemma gw_inv_held:
  assumes "gw_inv g" "sess g sid = Some (st, Some n)"
  shows "poolKey g n = (User st, Database st) \<and> (\<exists>c. conns g n = Some c \<and> connFor (User st, Database st) c)"
  using assms unfolding gw_inv_def by blast

lemma request_inv:
  assumes "gw_inv g" "sess g sid = Some (st, Some n)" "conns g n = Some c" "User st' = User st" "Database st' = Database st"
    "ready c' = ready c" "grows (netConn c) (netConn c')"
  shows "gw_inv (g\<lparr>conns := (conns g)(n \<mapsto> c'), sess := (sess g)(sid \<mapsto> (st', Some n))\<rparr>)"
proof -
  have "connFor (User st, Database st) c" using gw_inv_held [OF assms(1,2)] assms(3) by auto
  then have s: "connFor (User st, Database st) c'" using connFor_grows assms(6,7) by blast
  have s': "goodSession st'" using assms(1,2,4,5) by (auto simp: gw_inv_def goodSession_def)
  have u: "sid' = sid" if "sess g sid' = Some (st0, Some n)" for sid' st0 using assms(1,2) that by (auto simp: gw_inv_def)
  have i: "n \<notin> idleSet g" using assms(1,2) by (auto simp: gw_inv_def held_def)
  have h: "held (g\<lparr>conns := (conns g)(n \<mapsto> c'), sess := (sess g)(sid \<mapsto> (st', Some n))\<rparr>) m \<longleftrightarrow> held g m" for m
  proof -
    have "(\<exists>st0. ((sess g)(sid \<mapsto> (st', Some n))) sid' = Some (st0, Some m)) \<longleftrightarrow> (\<exists>st0. sess g sid' = Some (st0, Some m))" for sid'
      using assms(2) by (cases "sid' = sid") auto
    then show ?thesis by (simp add: held_def)
  qed
  show ?thesis unfolding gw_inv_def h
    using assms(1,2,4,5) s s' u i by (auto simp: gw_inv_def)
qed

lemma give_back_inv:
  assumes "gw_inv g" "sess g sid = Some (st, Some n)" "conns g n = Some c" "c' = c \<or> c' = MarkDirty c \<or> c' = MarkBroken c"
    "putBack g n (poolKey g n) c' g'"
  shows "gw_inv (g'\<lparr>sess := (sess g)(sid \<mapsto> (st, None))\<rparr>)"
proof -
  define g0 where "g0 = g\<lparr>sess := (sess g)(sid \<mapsto> (st, None))\<rparr>"
  have u: "sid' = sid" if "sess g sid' = Some (st0, Some n)" for sid' st0 using assms(1,2) that by (auto simp: gw_inv_def)
  have "\<not> held g0 n" using u by (auto simp: held_def g0_def)
  moreover have "gw_inv g0" using assms(1,2) by (auto simp: gw_inv_def held_def g0_def)
  moreover have "connFor (poolKey g n) c'"
    using gw_inv_held [OF assms(1,2)] assms(3,4) by (auto simp: connFor_def MarkDirty_def MarkBroken_def)
  moreover have "putBack g0 n (poolKey g n) c' (g'\<lparr>sess := (sess g)(sid \<mapsto> (st, None))\<rparr>)"
    using assms(5) by (auto simp: putBack_def g0_def)
  ultimately show ?thesis using putBack_inv by blast
qed

lemma gw_step_inv:
  assumes "gw_step x creds routes g g'" "gw_inv g" "good_routes routes"
  shows "gw_inv g'"
  using assms
proof (cases rule: gw_step.cases)
  case (open_ok sid client req st n c client' c' st')
  then show ?thesis using open_ok_inv assms(2,3) by blast
next
  case (open_fail client req st n c e client' c' st')
  then show ?thesis using open_fail_inv assms(2) by blast
next
  case (acquire sid st offer got1 released1 g1 home got released2 g2)
  then show ?thesis using acquire_inv [OF assms(2)] by blast
next
  case (request sid st n c mode clientOk pumpFails cap readOnly d rs st' r rel io replay b)
  have "ready (AddStatement (ParseStatementName d) (c\<lparr>netConn := io, broken := b\<rparr>)) = ready c"
    "grows (netConn c) (netConn (AddStatement (ParseStatementName d) (c\<lparr>netConn := io, broken := b\<rparr>)))"
    using request(5) by (auto simp: AddStatement_def grows_def)
  with request request_inv [OF assms(2)] executeRequestTail_identity show ?thesis by blast
next
  case (give_back sid st n c c')
  then show ?thesis using give_back_inv assms(2) by blast
next
  case (leave sid st)
  then show ?thesis using assms(2) by (auto simp: gw_inv_def held_def)
next
  case (reap n)
  then show ?thesis using assms(2) by (auto simp: gw_inv_def held_def)
qed

lemma gw_reach_inv: "gw_reach x creds routes g \<Longrightarrow> good_routes routes \<Longrightarrow> gw_inv g"
proof (induction rule: gw_reach.induct)
  case start
  show ?case by (simp add: gw_start_def gw_inv_def)
next
  case (step g g')
  then show ?case using gw_step_inv by blast
qed

text \<open>
  C1.  However sessions, pools and backends interleave, a session that holds a backend
  connection is the only one that does, the pool cannot hand that connection to anyone else,
  its startup exchange is complete, and the startup packet that was sent on it named exactly the
  session's user and database.  With or without a credential store, and whatever the routing
  table renames.
\<close>

theorem session_speaks_as_itself:
  assumes "gw_reach x creds routes g" "good_routes routes" "sess g sid = Some (st, Some n)"
  shows "(\<exists>c. conns g n = Some c \<and> ready c \<and> speaksAs (outbox (netConn c)) = Some (User st, Database st)) \<and>
    n \<notin> idleSet g \<and> (\<forall>sid' st'. sess g sid' = Some (st', Some n) \<longrightarrow> sid' = sid)"
  using gw_reach_inv [OF assms(1,2)] assms(3) by (auto simp: gw_inv_def connFor_def held_def)

text \<open>A client opening a session through the relayed handshake, step by step.\<close>

lemma ReadStartup_plain:
  assumes "wf_packet p" "code p \<notin> {sslRequestCode, gssEncRequestCode, cancelRequestCode}"
    and "extractStartupParams (pktRaw p) = (u, d, r)" "\<not> IsReplication r"
  shows "ReadStartup tls \<lparr>inbox = pktRaw p @ rest, outbox = [], writable = True\<rparr> st =
    Started \<lparr>reqRaw = pktRaw p, reqUser = u, reqDatabase = (if d = [] then u else d), reqReplication = r, Cancel = None\<rparr>
      \<lparr>inbox = rest, outbox = [], writable = True\<rparr> (st\<lparr>User := u, Database := (if d = [] then u else d), Replication := r\<rparr>)"
proof -
  have "readClientStartup tls \<lparr>inbox = pktRaw p @ rest, outbox = [], writable = True\<rparr> =
      Inr (p, \<lparr>inbox = rest, outbox = [], writable = True\<rparr>)"
    using assms(1,2) by (simp add: readClientStartup_def numeral_2_eq_2 readStartupPacket_whole Let_def)
  with assms(2-4) show ?thesis by (simp add: ReadStartup_def Let_def)
qed

definition ex_crypto :: crypto where
  "ex_crypto = \<lparr>cHmac = (\<lambda>_ _. []), cSha = (\<lambda>_. []), cMd5 = (\<lambda>_. []), cRand = (\<lambda>_. None)\<rparr>"

definition ex_state :: SessionState where
  "ex_state = freshSession\<lparr>User := ''bob'', Database := ''shop'', Replication := []\<rparr>"

definition ex_request :: StartupRequest where
  "ex_request = \<lparr>reqRaw = writeStartup ''bob'' ''shop'' [], reqUser = ''bob'', reqDatabase = ''shop'', reqReplication = [], Cancel = None\<rparr>"

definition ex_client :: client_io where
  "ex_client = \<lparr>inbox = [], outbox = [], writable = True\<rparr>"

definition ex_server :: client_io where
  "ex_server = \<lparr>inbox = writeTagged CHR ''Z'' ''I'', outbox = [], writable = True\<rparr>"

lemma ex_asks: "asksFor ex_crypto False [] ex_client ex_request ex_state"
proof -
  let ?w = "writeStartup ''bob'' ''shop'' []"
  have w: "?w = put32 32 @ put32 196608 @ ''user'' @ [NUL] @ ''bob'' @ [NUL] @ ''database'' @ [NUL] @ ''shop'' @ [NUL, NUL]"
    by (simp add: writeStartup_def)
  have wf: "wf_packet \<lparr>pktRaw = ?w, code = 196608\<rparr>" unfolding w by (simp add: wf_packet_def maxStartupLen_def)
  have e: "extractStartupParams ?w = (''bob'', ''shop'', [])" by (subst writeStartup_params) simp_all
  have r: "\<not> IsReplication []" by (simp add: IsReplication_def TrimSpace_def trimLeading.simps)
  have "ReadStartup None \<lparr>inbox = ?w @ [], outbox = [], writable = True\<rparr> freshSession = Started ex_request ex_client ex_state"
    using ReadStartup_plain [OF wf _ _ r, of "''bob''" "''shop''" None "[]" freshSession] e
    by (simp add: sslRequestCode_def gssEncRequestCode_def cancelRequestCode_def ex_request_def ex_client_def ex_state_def)
  moreover have "reqRaw ex_request \<noteq> []" "Cancel ex_request = None" by (simp_all add: ex_request_def w)
  moreover have "loggedIn ex_crypto False ex_client ex_state ex_client ex_state" by (simp add: loggedIn_def)
  moreover have "resolveDatabase [] ex_request ex_state = Inr (ex_request, ex_state)" by (simp add: resolveDatabase_def)
  ultimately show ?thesis unfolding asksFor_def by blast
qed

lemma ex_opens: "\<exists>client' c'. openAttempt ex_crypto False ex_client (checkout (NewConn ex_server)) ex_request ex_state = (None, client', c', ex_state)"
proof -
  let ?z = "\<lparr>kind = CHR ''Z'', raw = writeTagged CHR ''Z'' ''I''\<rparr>"
  have "wf_message ?z" by (simp add: wf_message_def maxStartupMsgLen_def)
  from relayAuth_messages [OF this, of "[]" "[]" "[]" "[]" "[]" "reqRaw ex_request" "BackendKey ex_state"]
  show ?thesis by (simp add: openAttempt_def relayHandshake_def CompleteHandshake_def ex_server_def ex_client_def checkout_def
        IncUseCount_def NewConn_def keyAfter_def Let_def)
qed

theorem session_speaks_as_itself_witness:
  "\<exists>g c. gw_reach ex_crypto False [] g \<and> sess g 7 = Some (ex_state, Some 1) \<and> conns g 1 = Some c \<and>
     speaksAs (outbox (netConn c)) = Some (''bob'', ''shop'')"
proof -
  obtain client' c' where o': "openAttempt ex_crypto False ex_client (checkout (NewConn ex_server)) ex_request ex_state = (None, client', c', ex_state)"
    using ex_opens by blast
  have "offered gw_start (User ex_state, Database ex_state) 1 (checkout (NewConn ex_server))"
    unfolding offered_def by (intro disjI2 conjI exI [of _ ex_server]) (simp_all add: gw_start_def ex_server_def)
  moreover have "sess gw_start 7 = None" by (simp add: gw_start_def)
  ultimately have r: "gw_reach ex_crypto False [] (takeConn gw_start 7 1 (afterSuccess ex_state c') ex_state)"
    using gw_reach.step [OF gw_reach.start open_ok [OF _ ex_asks _ o']] by blast
  from session_speaks_as_itself [OF this, of 7 ex_state 1] r show ?thesis
    by (auto simp: good_routes_def takeConn_def ex_state_def)
qed

end
