(* ===== verification/Probes.thy ===== *)
theory Probes
  imports ReplyScanner
begin

text \<open>
  The statements the handler runs on a backend for its own purposes and reads one value back
  from (\<^verbatim>\<open>postgres_handler.go\<close>): \<^verbatim>\<open>IsReadOnly\<close>, \<^verbatim>\<open>DiscoverTopology\<close>, \<^verbatim>\<open>GetCurrentLSN\<close> and
  \<^verbatim>\<open>WaitLSN\<close>.  They share one loop, which parses every read from its first byte.

  The lemmas show what each returns when the reply comes in one read, that waiting for a
  replica ends exactly when one poll reports it has caught up, and that a reply cut inside a
  row is not understood.
\<close>

section \<open>The loop\<close>

datatype 'a scan_result = ScanMore 'a | ScanReady 'a | ScanRefused bytes

text \<open>
  One read: \<open>row\<close> is what a DataRow does to the value so far, \<open>errs\<close> whether an ErrorResponse
  ends the loop.
\<close>

function probeScan :: "(bytes \<Rightarrow> 'a \<Rightarrow> 'a) \<Rightarrow> bool \<Rightarrow> bytes \<Rightarrow> 'a \<Rightarrow> 'a scan_result" where
  "probeScan row errs b v =
     (if b = [] then ScanMore v
      else let v' = (if hd b = CHR ''D'' then row b v else v) in
        if hd b = CHR ''Z'' then ScanReady v'
        else if errs \<and> hd b = CHR ''E'' then ScanRefused b
        else if length b < 5 then ScanMore v'
        else probeScan row errs (drop (1 + be32 (drop 1 b)) b) v')"
  by pat_completeness auto
termination by (relation "measure (\<lambda>(_, _, b, _). length b)") auto

declare probeScan.simps [simp del]

datatype 'a probe_result = ProbeValue 'a | ProbeRefused bytes | ProbeIOError | ProbeWaiting

fun probeReply :: "(bytes \<Rightarrow> 'a \<Rightarrow> 'a) \<Rightarrow> bool \<Rightarrow> 'a \<Rightarrow> reads \<Rightarrow> 'a probe_result \<times> reads" where
  "probeReply row errs v [] = (ProbeWaiting, [])"
| "probeReply row errs v ((chunk, err) # rs) =
     (if err then (ProbeIOError, rs)
      else (case probeScan row errs chunk v of
              ScanReady v' \<Rightarrow> (ProbeValue v', rs)
            | ScanRefused e \<Rightarrow> (ProbeRefused e, rs)
            | ScanMore v' \<Rightarrow> probeReply row errs v' rs))"

text \<open>The first column of the DataRow that \<open>b\<close> begins with, if all of it is there.\<close>

definition firstColumn :: "bytes \<Rightarrow> bytes option" where
  "firstColumn b =
     (if 11 < length b then
        (let colLen = be32 (drop 7 b) in
         if colLen > 0 \<and> 11 + colLen \<le> length b then Some (take colLen (drop 11 b)) else None)
      else None)"

section \<open>The statements\<close>

definition saysTrue :: "bytes \<Rightarrow> bool \<Rightarrow> bool" where
  "saysTrue b v = (v \<or> 11 < length b \<and> b ! 11 = CHR ''t'')"

definition IsReadOnly :: "bool \<Rightarrow> reads \<Rightarrow> bytes \<times> bool probe_result \<times> reads" where
  "IsReadOnly writable rs =
     (if \<not> writable then ([], ProbeIOError, rs)
      else (queryMessage ''SELECT pg_is_in_recovery()'', probeReply saysTrue False False rs))"

definition addReplica :: "bytes \<Rightarrow> bytes list \<Rightarrow> bytes list" where
  "addReplica b replicas = (case firstColumn b of None \<Rightarrow> replicas | Some addr \<Rightarrow> replicas @ [addr])"

definition DiscoverTopology :: "bool \<Rightarrow> reads \<Rightarrow> bytes \<times> bytes list probe_result \<times> reads" where
  "DiscoverTopology writable rs =
     (if \<not> writable then ([], ProbeIOError, rs)
      else (queryMessage ''SELECT client_addr FROM pg_stat_replication'', probeReply addReplica True [] rs))"

definition takeLSN :: "bytes \<Rightarrow> bytes \<Rightarrow> bytes" where
  "takeLSN b lsn = (case firstColumn b of None \<Rightarrow> lsn | Some v \<Rightarrow> v)"

definition GetCurrentLSN :: "bool \<Rightarrow> reads \<Rightarrow> bytes \<times> bytes probe_result \<times> reads" where
  "GetCurrentLSN writable rs =
     (if \<not> writable then ([], ProbeIOError, rs)
      else (queryMessage ''SELECT pg_current_wal_lsn()'', probeReply takeLSN False [] rs))"

text \<open>
  \<^verbatim>\<open>WaitLSN\<close> polls until the replica has caught up, a poll fails or the context is done.  Each
  poll: whether its write succeeds, the reads its reply comes in, and whether the context was
  done when the answer was not yet.
\<close>

datatype wait_result = CaughtUp | WaitFailed | WaitExpired | StillWaiting

definition waitQuery :: "bytes \<Rightarrow> bytes" where
  "waitQuery targetLSN =
     ''SELECT pg_last_wal_replay_lsn() >= '' @ [CHR 0x27] @ targetLSN @ [CHR 0x27] @ ''::pg_lsn''"

fun waitPolls :: "(bool \<times> reads \<times> bool) list \<Rightarrow> wait_result" where
  "waitPolls [] = StillWaiting"
| "waitPolls ((writable, rs, expired) # polls) =
     (if \<not> writable then WaitFailed
      else (case fst (probeReply saysTrue False False rs) of
              ProbeValue True \<Rightarrow> CaughtUp
            | ProbeValue False \<Rightarrow> if expired then WaitExpired else waitPolls polls
            | ProbeWaiting \<Rightarrow> StillWaiting
            | _ \<Rightarrow> WaitFailed))"

definition WaitLSN :: "bytes \<Rightarrow> (bool \<times> reads \<times> bool) list \<Rightarrow> wait_result" where
  "WaitLSN targetLSN polls = (if targetLSN = [] then CaughtUp else waitPolls polls)"

section \<open>Whole replies\<close>

definition rowBody :: "bytes \<Rightarrow> bytes" where "rowBody v = put16 1 @ put32 (length v) @ v"

text \<open>The reply to a one-column query: a description, a row for every value, the end of the command.\<close>

definition rowsReply :: "bytes \<Rightarrow> bytes list \<Rightarrow> bytes \<Rightarrow> bytes" where
  "rowsReply d vs tag =
     reply_of ([(CHR ''T'', d)] @ map (\<lambda>v. (CHR ''D'', rowBody v)) vs @ [(CHR ''C'', tag)]) CHR ''I''"

lemma probeScan_message:
  assumes "length b + 4 < 2 ^ 32"
  shows "probeScan row errs (writeTagged t b @ r) v =
     (let v' = (if t = CHR ''D'' then row (writeTagged t b @ r) v else v) in
      if t = CHR ''Z'' then ScanReady v'
      else if errs \<and> t = CHR ''E'' then ScanRefused (writeTagged t b @ r)
      else probeScan row errs r v')"
  using assms unfolding probeScan.simps [of row errs "writeTagged t b @ r"]
  by (simp only: tagged_view tagged_next) (simp add: Let_def)

lemma rowBody_length [simp]: "length (rowBody w) = length w + 6"
  by (simp add: rowBody_def put16_def)

lemma row_columns:
  assumes "length w + 10 < 2 ^ 32"
  shows "firstColumn (writeTagged CHR ''D'' (rowBody w) @ r) = (if w = [] then None else Some w)"
    and "w \<noteq> [] \<Longrightarrow> saysTrue (writeTagged CHR ''D'' (rowBody w) @ r) v = (v \<or> hd w = CHR ''t'')"
proof -
  let ?b = "writeTagged CHR ''D'' (rowBody w) @ r"
  have b: "?b = CHR ''D'' # put32 (length w + 10) @ put16 1 @ put32 (length w) @ w @ r"
    by (simp add: writeTagged_Cons rowBody_def put16_def add.commute)
  have l: "length ?b = 11 + length w + length r" by (simp add: b put16_def)
  have d: "drop 7 ?b = put32 (length w) @ w @ r" "drop 11 ?b = w @ r" by (simp_all add: b put16_def)
  have n: "be32 (drop 7 ?b) = length w" unfolding d(1) using assms by simp
  show "firstColumn ?b = (if w = [] then None else Some w)"
    using n by (auto simp only: firstColumn_def l d(2) Let_def n) simp_all
  assume "w \<noteq> []"
  moreover have "?b ! 11 = (drop 11 ?b) ! 0" using l nth_drop [of 11 ?b 0] by (simp only: add_0_right)
  ultimately show "saysTrue ?b v = (v \<or> hd w = CHR ''t'')"
    unfolding saysTrue_def l d(2) by (auto simp: nth_append hd_conv_nth)
qed

text \<open>A reply that comes in one read is read row by row.\<close>

lemma probeScan_rows:
  assumes "\<And>w r v. w \<in> set vs \<Longrightarrow> row (writeTagged CHR ''D'' (rowBody w) @ r) v = eff w v"
    and "\<forall>w\<in>set vs. length w + 10 < 2 ^ 32" "length tag + 4 < 2 ^ 32"
  shows "probeScan row errs (encode (map (\<lambda>v. (CHR ''D'', rowBody v)) vs @ [(CHR ''C'', tag)]) @ writeTagged CHR ''Z'' [c]) v =
    ScanReady (fold eff vs v)"
  using assms(1,2)
proof (induction vs arbitrary: v)
  case Nil
  show ?case
    using probeScan_message [OF assms(3), of row errs "CHR ''C''" "writeTagged CHR ''Z'' [c]" v]
      probeScan_message [of "[c]" row errs "CHR ''Z''" "[]" v] by (simp add: Let_def)
next
  case (Cons w vs)
  then show ?case by (simp add: probeScan_message Let_def)
qed

lemma probeReply_rows:
  assumes "\<And>w r v. w \<in> set vs \<Longrightarrow> row (writeTagged CHR ''D'' (rowBody w) @ r) v = eff w v"
    and "\<forall>w\<in>set vs. length w + 10 < 2 ^ 32" "length tag + 4 < 2 ^ 32" "length d + 4 < 2 ^ 32"
  shows "probeReply row errs v ((rowsReply d vs tag, False) # rest) = (ProbeValue (fold eff vs v), rest)"
  using probeScan_rows [where row = row and eff = eff and errs = errs and c = "CHR ''I''" and v = v, OF assms(1-3)]
  by (simp add: rowsReply_def reply_of_def probeScan_message [OF assms(4)] Let_def)

section \<open>Properties\<close>

lemma topology_rows:
  assumes "\<forall>w\<in>set vs. length w + 10 < 2 ^ 32" "length tag + 4 < 2 ^ 32" "length d + 4 < 2 ^ 32"
  shows "snd (DiscoverTopology True ((rowsReply d vs tag, False) # rest)) = (ProbeValue (filter (\<lambda>w. w \<noteq> []) vs), rest)"
proof -
  have f: "fold (\<lambda>w acc. if w = [] then acc else acc @ [w]) vs acc = acc @ filter (\<lambda>w. w \<noteq> []) vs" for acc
    by (induction vs arbitrary: acc) auto
  show ?thesis
    using probeReply_rows [where row = addReplica and eff = "\<lambda>w acc. if w = [] then acc else acc @ [w]" and errs = True
        and v = "[]", OF _ assms] assms(1)
    by (auto simp: DiscoverTopology_def addReplica_def row_columns f)
qed

lemma currentLSN_row:
  assumes "w \<noteq> []" "length w + 10 < 2 ^ 32" "length tag + 4 < 2 ^ 32" "length d + 4 < 2 ^ 32"
  shows "snd (GetCurrentLSN True ((rowsReply d [w] tag, False) # rest)) = (ProbeValue w, rest)"
  using probeReply_rows [where row = takeLSN and eff = "\<lambda>w _. w" and errs = False and v = "[]" and vs = "[w]", OF _ _ assms(3,4)]
    assms(1,2) by (simp add: GetCurrentLSN_def takeLSN_def row_columns)

lemma poll_answer:
  assumes "w \<in> {''t'', ''f''}" "length tag + 4 < 2 ^ 32" "length d + 4 < 2 ^ 32"
  shows "probeReply saysTrue False False ((rowsReply d [w] tag, False) # rest) = (ProbeValue (w = ''t''), rest)"
  using probeReply_rows [where row = saysTrue and eff = "\<lambda>w v. v \<or> hd w = CHR ''t''" and errs = False and v = False
      and vs = "[w]", OF _ _ assms(2,3)] assms(1)
  by (auto simp: row_columns)



text \<open>
  A reply cut in two inside its row is not understood: the second read begins with the value,
  which the loop takes for a message type, and the ReadyForQuery behind it is missed.
\<close>

lemma probe_split_hangs:
  "concat [CHR ''D'' # put32 11 @ put16 1 @ put32 1, ''t'' @ writeTagged CHR ''Z'' ''I''] =
     reply_of [(CHR ''D'', rowBody ''t'')] CHR ''I''"
  "fst (snd (IsReadOnly True (clean_reads [CHR ''D'' # put32 11 @ put16 1 @ put32 1, ''t'' @ writeTagged CHR ''Z'' ''I''])))
     = ProbeWaiting"
proof -
  show "concat [CHR ''D'' # put32 11 @ put16 1 @ put32 1, ''t'' @ writeTagged CHR ''Z'' ''I''] =
     reply_of [(CHR ''D'', rowBody ''t'')] CHR ''I''"
    by (simp add: reply_of_def writeTagged_Cons rowBody_def put16_def)
  have z: "put32 5 = [NUL, NUL, NUL, CHR 0x05]" using put32_be32 [of "[NUL, NUL, NUL, CHR 0x05]"] by simp
  have "probeScan saysTrue False (CHR ''D'' # put32 11 @ put16 1 @ put32 1) False = ScanMore False"
    by (subst probeScan.simps) (simp add: probeScan.simps saysTrue_def put16_def)
  moreover have "probeScan saysTrue False (''t'' @ writeTagged CHR ''Z'' ''I'') False = ScanMore False"
    by (subst probeScan.simps) (simp add: probeScan.simps writeTagged_Cons z)
  ultimately show "fst (snd (IsReadOnly True (clean_reads [CHR ''D'' # put32 11 @ put16 1 @ put32 1,
      ''t'' @ writeTagged CHR ''Z'' ''I'']))) = ProbeWaiting"
    by (simp add: IsReadOnly_def)
qed

end
