(* ===== verification/Serving.thy ===== *)
theory Serving
  imports RateLimit Gateway Probes
begin

text \<open>
  The life of a session: \<^verbatim>\<open>executeRequest\<close> and \<^verbatim>\<open>handleClient\<close> of \<^verbatim>\<open>gateway.go\<close>, with
  \<^verbatim>\<open>releaseToPool\<close> and \<^verbatim>\<open>resetOnRelease\<close> of \<^verbatim>\<open>session_acquire.go\<close> and the call that collapsed
  requests share (\<^verbatim>\<open>inflight_call.go\<close>).

  A session keeps a trace of the connections it takes, writes to and gives back.  The lemmas
  show that it holds at most one connection at a time, writes only to the one it holds and
  gives back every one it took, whatever fails on the way.
\<close>

section \<open>The session\<close>

text \<open>A connection is known by the address of its backend and a number.\<close>

type_synonym conn_id = "bytes \<times> nat"

datatype event = Took conn_id | Gave conn_id Conn | Wrote conn_id bytes

record PSession = MSession +
  sServer :: "(conn_id \<times> Conn) option"
  ShouldReplay :: bool
  trace :: "event list"
  told :: "bytes list"

datatype serve_error = AcquireFailed | ReplayFailed | ServerWriteFailed | RelayFailed | ClientWriteFailed | Throttled

record config =
  cfgCrypto :: crypto
  cfgUnicode :: unicode
  cfgSha :: "bytes \<Rightarrow> bytes"
  hasCredentials :: bool
  cfgPooling :: poolingMode
  maxCaptureBytes :: int
  timeoutText :: bytes

text \<open>
  What the rest of the system does during one request: the connections offered at the first and
  at the second acquisition, with what the session's first backend has; which backends are
  replicas; the polls of the wait for a replica; the order in which maps are ranged over; how
  the replay's writes and reads go; whether the request can be written; the client's side of
  the reply, the COPY pump and the reads of the reply (after which a read fails, by its
  deadline if \<open>wTimedOut\<close>); the reads of the LSN query; and, for every key, the result another
  request with that key left.
\<close>

record world =
  wOffer :: "unit + conn_id \<times> Conn"
  wHome :: "(unit + conn_id \<times> Conn) option"
  wReplica :: "bytes \<Rightarrow> bool"
  wPolls :: "(bool \<times> reads \<times> bool) list"
  wOffer2 :: "unit + conn_id \<times> Conn"
  wHome2 :: "(unit + conn_id \<times> Conn) option"
  wOrder :: "(bytes \<times> bytes) list \<Rightarrow> (bytes \<times> bytes) list"
  wReplayReads :: reads
  wReplayBreaks :: "nat option"
  wWriteOk :: bool
  wClientOk :: "nat \<Rightarrow> bool"
  wPumpFails :: bool
  wPumpBreaks :: bool
  wReads :: reads
  wTimedOut :: bool
  wLSNWrite :: bool
  wLSNReads :: reads
  wInFlight :: "bytes \<Rightarrow> (bytes \<times> bool) option"

definition logged :: "event list \<Rightarrow> PSession \<Rightarrow> PSession" where
  "logged es s = s\<lparr>trace := trace s @ es\<rparr>"

definition tell :: "bytes \<Rightarrow> PSession \<Rightarrow> PSession" where
  "tell d s = s\<lparr>told := told s @ [d]\<rparr>"

section \<open>Taking a connection\<close>

text \<open>The connections that \<^const>\<open>acquireForSession\<close> takes and gives back on its way.\<close>

definition homeEvents :: "SessionState \<Rightarrow> (unit + conn_id \<times> Conn) option \<Rightarrow> event list" where
  "homeEvents st home =
     (case home of
        Some (Inr (h, hc)) \<Rightarrow>
          if \<not> usable hc \<or> \<not> belongsTo hc (User st) (Database st) then [Took h, Gave h hc] else [Took h]
      | _ \<Rightarrow> [])"

definition acquireEvents :: "crypto \<Rightarrow> bool \<Rightarrow> SessionState \<Rightarrow> unit + conn_id \<times> Conn \<Rightarrow>
    (unit + conn_id \<times> Conn) option \<Rightarrow> event list" where
  "acquireEvents x creds st offer home =
     (case offer of
        Inl _ \<Rightarrow> homeEvents st home
      | Inr (n, c) \<Rightarrow> Took n #
          (case acquireForSession x creds st offer None of
             (Some _, _) \<Rightarrow> []
           | (None, released) \<Rightarrow> map (\<lambda>(n, c). Gave n c) released @ homeEvents st home))"

definition holding :: "conn_id \<Rightarrow> Conn \<Rightarrow> PSession \<Rightarrow> PSession" where
  "holding n c s = s\<lparr>sBackend := Some (fst n), sServer := Some (n, c), ShouldReplay := True\<rparr>"

definition acquireInto :: "config \<Rightarrow> unit + conn_id \<times> Conn \<Rightarrow> (unit + conn_id \<times> Conn) option \<Rightarrow> PSession \<Rightarrow>
    (conn_id \<times> Conn) option \<times> PSession" where
  "acquireInto cfg offer home s =
     (fst (acquireForSession (cfgCrypto cfg) (hasCredentials cfg) (sState s) offer home),
      logged (acquireEvents (cfgCrypto cfg) (hasCredentials cfg) (sState s) offer home) s)"

definition takeServer :: "config \<Rightarrow> world \<Rightarrow> PSession \<Rightarrow> serve_error option \<times> PSession" where
  "takeServer cfg w s =
     (if sServer s \<noteq> None then (None, s)
      else (case acquireInto cfg (wOffer w) (wHome w) s of
              (None, s1) \<Rightarrow> (Some AcquireFailed, s1)
            | (Some (n, c), s1) \<Rightarrow>
                if ReadOnly (sQueryInfo s) \<and> LastLSN (sState s) \<noteq> [] \<and> wReplica w (fst n) then
                  (case WaitLSN (LastLSN (sState s)) (wPolls w) of
                     CaughtUp \<Rightarrow> (None, holding n c s1)
                   | r \<Rightarrow>
                       (case acquireInto cfg (wOffer2 w) (wHome2 w)
                               (logged [Gave n (if r = WaitFailed then MarkBroken c else c)] s1) of
                          (None, s2) \<Rightarrow> (Some AcquireFailed, s2)
                        | (Some (n2, c2), s2) \<Rightarrow> (None, holding n2 c2 s2)))
                else (None, holding n c s1)))"

section \<open>Restoring the session and sending the request\<close>

definition restoreMessage :: bytes where
  "restoreMessage = ErrorResponse ''FATAL'' ''57P01''
     ''terminating connection: Pontus could not restore this session on a new backend connection''"

text \<open>What a failed replay managed to write is not in the trace; the connection is marked broken.\<close>

definition restoreSession :: "world \<Rightarrow> PSession \<Rightarrow> serve_error option \<times> PSession" where
  "restoreSession w s =
     (case sServer s of
        None \<Rightarrow> (None, s)
      | Some (n, c) \<Rightarrow>
          if \<not> ShouldReplay s then (None, s)
          else (case replaySession
                       \<lparr>written = [], incoming = wReplayReads w, breaksAt = wReplayBreaks w, holds = Some (stmts c)\<rparr>
                       (wOrder w (Vars (sState s))) (wOrder w (Stmts (sState s))) of
                  Inl _ \<Rightarrow> (Some ReplayFailed, tell restoreMessage (s\<lparr>sServer := Some (n, MarkBroken c)\<rparr>))
                | Inr b \<Rightarrow> (None, (logged (map (Wrote n) (written b)) s)
                                   \<lparr>sServer := Some (n, fold AddStatement (the (holds b)) c)\<rparr>)))"

definition sendRequest :: "world \<Rightarrow> PSession \<Rightarrow> serve_error option \<times> PSession" where
  "sendRequest w s =
     (case sServer s of
        None \<Rightarrow> (None, s)
      | Some (n, c) \<Rightarrow>
          if \<not> wWriteOk w then (Some ServerWriteFailed, (logged [Gave n (MarkBroken c)] s)\<lparr>sServer := None\<rparr>)
          else (None, (logged [Wrote n (sData s)] s)
                  \<lparr>sState := requestForwarded (sData s) (sState s),
                   sServer := Some (n, AddStatement (ParseStatementName (sData s)) c)\<rparr>))"

section \<open>The reply\<close>

definition captureFor :: "config \<Rightarrow> bool \<Rightarrow> PSession \<Rightarrow> responseCapture option" where
  "captureFor cfg leads s =
     (case ResponseCapture s of
        Some buf \<Rightarrow> Some (newResponseCapture buf (maxCaptureBytes cfg))
      | None \<Rightarrow> if leads then Some (newResponseCapture [] (maxCaptureBytes cfg)) else None)"

fun relayErr :: "relay_outcome \<Rightarrow> bool" where
  "relayErr (RelayDone _ _ _) = False"
| "relayErr _ = True"

fun sawReadOnlyError :: "relay_outcome \<Rightarrow> bool" where
  "sawReadOnlyError (RelayDone _ ro _) = ro"
| "sawReadOnlyError (RelayWriteError ro) = ro"
| "sawReadOnlyError (RelayPumpError ro) = ro"
| "sawReadOnlyError (RelayReadError ro) = ro"
| "sawReadOnlyError RelayWaiting = False"

text \<open>The connection's \<^verbatim>\<open>Read\<close> and \<^verbatim>\<open>Write\<close> mark it broken when they fail.\<close>

fun connAfter :: "bool \<Rightarrow> relay_outcome \<Rightarrow> Conn \<Rightarrow> Conn" where
  "connAfter pumpBreaks (RelayReadError _) c = MarkBroken c"
| "connAfter pumpBreaks (RelayPumpError _) c = (if pumpBreaks then MarkBroken c else c)"
| "connAfter pumpBreaks _ c = c"

definition relayReply :: "config \<Rightarrow> world \<Rightarrow> bool \<Rightarrow> PSession \<Rightarrow> relay_result" where
  "relayReply cfg w leads s =
     proxyResponse (wClientOk w) (wPumpFails w) (captureFor cfg leads s) (ReadOnly (sQueryInfo s))
       (ResponseEndFor (sData s)) (wReads w @ [([], True)])"

definition noteReply :: "relay_result \<Rightarrow> PSession \<Rightarrow> PSession" where
  "noteReply r s = tell (delivered r)
     (s\<lparr>ResponseCapture := (case ResponseCapture s of None \<Rightarrow> None | Some _ \<Rightarrow> map_option capBuf (captured r)),
        ReplyFailed := (case outcome r of RelayDone _ _ failed \<Rightarrow> failed | _ \<Rightarrow> ReplyFailed s),
        sState := replyEnded (relayState (outcome r)) (sState s)\<rparr>)"

definition captureLSN :: "world \<Rightarrow> bool \<Rightarrow> Conn \<Rightarrow> PSession \<Rightarrow> Conn \<times> PSession" where
  "captureLSN w failed c s =
     (if ReadOnly (sQueryInfo s) \<or> failed then (c, s)
      else (case fst (snd (GetCurrentLSN (wLSNWrite w) (wLSNReads w @ [([], True)]))) of
              ProbeValue lsn \<Rightarrow> (c, s\<lparr>sState := (sState s)\<lparr>LastLSN := lsn\<rparr>\<rparr>)
            | _ \<Rightarrow> (MarkBroken c, s)))"

definition timeoutMessage :: "config \<Rightarrow> bytes" where
  "timeoutMessage cfg = ErrorResponse ''FATAL'' ''57014''
     (''canceling statement: exceeded Pontus query_timeout of '' @ timeoutText cfg)"

text \<open>A connection given back to the pool; with credentials it is marked for a reset first.\<close>

definition giveBack :: "config \<Rightarrow> PSession \<Rightarrow> PSession" where
  "giveBack cfg s =
     (case sServer s of
        None \<Rightarrow> s
      | Some (n, c) \<Rightarrow> (logged [Gave n (if hasCredentials cfg then MarkDirty c else c)] s)\<lparr>sServer := None\<rparr>)"

definition finishRequest :: "config \<Rightarrow> world \<Rightarrow> bool \<Rightarrow> PSession \<Rightarrow>
    serve_error option \<times> PSession \<times> (bytes \<times> bool) option" where
  "finishRequest cfg w leads s =
     (case sServer s of
        None \<Rightarrow> (None, s, None)
      | Some (n, c) \<Rightarrow>
          let r = relayReply cfg w leads s;
              failed = relayErr (outcome r);
              call = (if leads then Some (case captureBytes (captured r) of None \<Rightarrow> [] | Some b \<Rightarrow> b,
                                         failed \<or> captureErr (captured r)) else None);
              (c1, s1) = captureLSN w failed (connAfter (wPumpBreaks w) (outcome r) c) (noteReply r s);
              late = (failed \<and> wTimedOut w);
              s2 = s1\<lparr>sServer := Some (n, if late then MarkBroken c1 else c1)\<rparr>;
              s3 = (if late then tell (timeoutMessage cfg) s2 else s2);
              s4 = (if shouldReleaseAt (cfgPooling cfg) (relayState (outcome r)) (IsPinned (sState s3))
                    then giveBack cfg s3 else s3)
          in (if failed \<and> \<not> sawReadOnlyError (outcome r) then Some RelayFailed else None, s4, call))"

section \<open>One request\<close>

definition canCollapse :: "PSession \<Rightarrow> bool" where
  "canCollapse s = (ReadOnly (sQueryInfo s) \<and> \<not> InTransaction (sQueryInfo s) \<and> TxState (sState s) = StateIdle)"

text \<open>
  The result: the error, the session afterwards, and what requests waiting for this one find
  in the shared call when it ends (the reply, and whether it failed).  A call that is never
  filled in holds no reply and no error.
\<close>

definition runRequest :: "config \<Rightarrow> world \<Rightarrow> bool \<Rightarrow> PSession \<Rightarrow>
    serve_error option \<times> PSession \<times> (bytes \<times> bool) option" where
  "runRequest cfg w leads s =
     (let unfilled = (if leads then Some ([], False) else None) in
      case takeServer cfg w s of
        (Some e, s1) \<Rightarrow> (Some e, s1, unfilled)
      | (None, s1) \<Rightarrow> (case restoreSession w s1 of
          (Some e, s2) \<Rightarrow> (Some e, s2, unfilled)
        | (None, s2) \<Rightarrow> (case sendRequest w s2 of
            (Some e, s3) \<Rightarrow> (Some e, s3, unfilled)
          | (None, s3) \<Rightarrow> finishRequest cfg w leads s3)))"

definition executeRequest :: "config \<Rightarrow> world \<Rightarrow> PSession \<Rightarrow> serve_error option \<times> PSession \<times> (bytes \<times> bool) option" where
  "executeRequest cfg w s =
     (if \<not> canCollapse s then runRequest cfg w False s
      else (case wInFlight w (CacheKey (cfgSha cfg) s) of
              None \<Rightarrow> runRequest cfg w True s
            | Some (data, failed) \<Rightarrow>
                if failed then runRequest cfg w False s
                else if wClientOk w 0 then (None, tell data s, None)
                else (Some ClientWriteFailed, s, None)))"

section \<open>A session's life\<close>

definition releaseToPool :: "PSession \<Rightarrow> PSession" where
  "releaseToPool s =
     (case (sBackend s, sServer s) of
        (Some _, Some (n, c)) \<Rightarrow> (logged [Gave n (MarkDirty c)] s)\<lparr>sServer := None\<rparr>
      | _ \<Rightarrow> s)"

text \<open>The middlewares work on the session together with what they share (the store, the limits).\<close>

type_synonym 'm layer = "PSession \<times> 'm \<Rightarrow> (PSession \<times> 'm \<Rightarrow> serve_error option \<times> PSession \<times> 'm) \<Rightarrow>
  serve_error option \<times> PSession \<times> 'm"

datatype serve_outcome = Continue | ClientLeft | RequestFailed

definition refusalMessage :: bytes where
  "refusalMessage = WritePostgresError ''0A000''
     ''statement pooling does not support transactions; use transaction or session pooling''"

definition backendHandler :: "config \<Rightarrow> world \<Rightarrow> PSession \<times> 'm \<Rightarrow> serve_error option \<times> PSession \<times> 'm" where
  "backendHandler cfg w p = (case executeRequest cfg w (fst p) of (e, s, _) \<Rightarrow> (e, s, snd p))"

definition prepared :: "config \<Rightarrow> bytes \<Rightarrow> PSession \<Rightarrow> PSession" where
  "prepared cfg data s =
     s\<lparr>sData := data, Normalized := NormalizeQuery data, sQueryInfo := ClassifyQuery (cfgUnicode cfg) data\<rparr>"

definition abandon :: "PSession \<Rightarrow> PSession" where
  "abandon s = (case sServer s of None \<Rightarrow> s | Some (n, c) \<Rightarrow> (logged [Gave n c] s)\<lparr>sServer := None\<rparr>)"

definition afterRequest :: "config \<Rightarrow> PSession \<Rightarrow> PSession" where
  "afterRequest cfg s =
     (if sServer s \<noteq> None \<and> shouldRelease (cfgPooling cfg) (Some (sState s)) (IsPinned (sState s))
      then (giveBack cfg s)\<lparr>sBackend := None\<rparr> else s)"

definition serveRequest :: "config \<Rightarrow> 'm layer list \<Rightarrow> world \<Rightarrow> bytes \<Rightarrow> PSession \<times> 'm \<Rightarrow>
    serve_outcome \<times> PSession \<times> 'm" where
  "serveRequest cfg layers w data p =
     (let s1 = (fst p)\<lparr>sData := data\<rparr> in
      if hasCredentials cfg \<and> IsTerminate data then (ClientLeft, releaseToPool s1, snd p)
      else let s2 = prepared cfg data s1 in
        if rejectsTransactions (cfgPooling cfg) \<and> InTransaction (sQueryInfo s2)
        then (Continue, tell refusalMessage s2, snd p)
        else (case Chain_Handle layers (s2, snd p) (backendHandler cfg w) of
                (Some _, s3, m) \<Rightarrow> (RequestFailed, abandon s3, m)
              | (None, s3, m) \<Rightarrow> (Continue, afterRequest cfg s3, m)))"

text \<open>The requests of a session, each with its middlewares; when they end the client is gone.\<close>

fun sessionLoop :: "config \<Rightarrow> ('m layer list \<times> world \<times> bytes) list \<Rightarrow> PSession \<times> 'm \<Rightarrow> serve_outcome \<times> PSession \<times> 'm" where
  "sessionLoop cfg [] p = (ClientLeft, releaseToPool (fst p), snd p)"
| "sessionLoop cfg ((layers, w, data) # rqs) p =
     (case serveRequest cfg layers w data p of
        (Continue, p') \<Rightarrow> sessionLoop cfg rqs p'
      | r \<Rightarrow> r)"

text \<open>From the connection that carried the session's startup.\<close>

definition newSession :: "SessionState \<Rightarrow> conn_id \<Rightarrow> Conn \<Rightarrow> PSession" where
  "newSession st n c =
     \<lparr>sBackend = Some (fst n), sState = st, Normalized = [],
      sQueryInfo = \<lparr>ReadOnly = False, InTransaction = False, AffectedTables = []\<rparr>, sData = [],
      ResponseCapture = None, ReplyFailed = False, sServer = Some (n, MarkReady c), ShouldReplay = False,
      trace = [Took n], told = []\<rparr>"

definition handleClient :: "config \<Rightarrow> SessionState \<Rightarrow> conn_id \<Rightarrow> Conn \<Rightarrow> ('m layer list \<times> world \<times> bytes) list \<Rightarrow> 'm \<Rightarrow>
    serve_outcome \<times> PSession \<times> 'm" where
  "handleClient cfg st n c rqs m =
     (let s = newSession st n c;
          s1 = (if hasCredentials cfg \<and> shouldRelease (cfgPooling cfg) (Some st) False
                then (releaseToPool s)\<lparr>sServer := None, sBackend := None\<rparr> else s)
      in sessionLoop cfg rqs (s1, m))"

section \<open>The middlewares\<close>

text \<open>
  What the gateway relies on a middleware for: it leaves the session's connection alone, and
  answers either by itself or by running the next handler once and passing its verdict on.
\<close>

definition sameConn :: "PSession \<Rightarrow> PSession \<Rightarrow> bool" where
  "sameConn s t \<longleftrightarrow> sServer s = sServer t \<and> trace s = trace t \<and> sBackend s = sBackend t"

lemma sameConn_refl [simp]: "sameConn s s"
  by (simp add: sameConn_def)

lemma sameConn_trans: "sameConn s t \<Longrightarrow> sameConn t u \<Longrightarrow> sameConn s u"
  by (simp add: sameConn_def)

definition passesOn :: "PSession \<Rightarrow> (PSession \<times> 'm \<Rightarrow> serve_error option \<times> PSession \<times> 'm) \<Rightarrow>
    serve_error option \<times> PSession \<times> 'm \<Rightarrow> bool" where
  "passesOn s nxt r \<longleftrightarrow> sameConn s (fst (snd r)) \<or>
     (\<exists>t m. sameConn s t \<and> fst (nxt (t, m)) = fst r \<and> sameConn (fst (snd (nxt (t, m)))) (fst (snd r)))"

lemma passesOn_mono:
  assumes "passesOn t nxt r" "sameConn s t" "fst r = fst r'" "sameConn (fst (snd r)) (fst (snd r'))"
  shows "passesOn s nxt r'"
  using assms unfolding passesOn_def sameConn_def by auto

locale request_layer =
  fixes layer :: "'m layer"
  assumes passes: "passesOn s nxt (layer (s, m) nxt)"

lemma chain_passes:
  assumes "\<forall>l\<in>set layers. request_layer l"
  shows "passesOn s nxt (Chain_Handle layers (s, m) nxt)"
  using assms
proof (induction layers arbitrary: s m)
  case Nil
  have "sameConn s s \<and> fst (nxt (s, m)) = fst (nxt (s, m)) \<and> sameConn (fst (snd (nxt (s, m)))) (fst (snd (nxt (s, m))))"
    by simp
  then show ?case unfolding passesOn_def by (metis Chain_Handle.simps(1))
next
  case (Cons l layers)
  let ?rest = "\<lambda>p. Chain_Handle layers p nxt"
  have "request_layer l" using Cons.prems by simp
  from request_layer.passes [OF this] have "passesOn s ?rest (l (s, m) ?rest)" .
  then consider "sameConn s (fst (snd (l (s, m) ?rest)))" |
    t n where "sameConn s t" "fst (?rest (t, n)) = fst (l (s, m) ?rest)"
      "sameConn (fst (snd (?rest (t, n)))) (fst (snd (l (s, m) ?rest)))"
    unfolding passesOn_def by blast
  then show ?case
  proof cases
    case 2
    have "passesOn t nxt (?rest (t, n))" using Cons by simp
    then show ?thesis
      using 2 passesOn_mono [of t nxt "?rest (t, n)" s "l (s, m) ?rest"] by simp
  qed (simp add: passesOn_def)
qed

type_synonym 'l shared = "Manager \<times> 'l TenantLimiters option"

definition cacheLayer :: "(bytes \<Rightarrow> bytes) \<Rightarrow> cache_env \<Rightarrow> bool \<Rightarrow> int \<Rightarrow> bool \<Rightarrow> 'l shared layer" where
  "cacheLayer sha env enabled life clientOk p nxt =
     (case p of (s, m, t) \<Rightarrow>
        (case Cache_Handle sha env enabled life clientOk ClientWriteFailed
                (\<lambda>s m. case nxt (s, m, t) of (e, s', m', _) \<Rightarrow> (e, s', m')) s m of
           (e, s', m', served, refresh) \<Rightarrow>
             (e, case served of None \<Rightarrow> s' | Some reply \<Rightarrow> tell reply s', m', t)))"

definition limitLayer :: "unicode \<Rightarrow> 'l limiterOps \<Rightarrow> 'l option \<Rightarrow> 'l tenants \<Rightarrow> 'l \<Rightarrow> int \<Rightarrow> 'l shared layer" where
  "limitLayer uni ops global ord fresh now p nxt =
     (case p of (s, m, t) \<Rightarrow>
        (case RateLimit_Handle uni ops global t ord fresh now (Some Throttled, s, m, t) s (\<lambda>s. nxt (s, m, t)) of
           ((e, s', m', _), t') \<Rightarrow> (e, s', m', t')))"

lemma sameConn_update [simp]:
  "sameConn s (tell d s)" "sameConn s (s\<lparr>ResponseCapture := b, ReplyFailed := f\<rparr>)"
  by (simp_all add: sameConn_def tell_def)

lemma cacheLayer_passes: "passesOn s nxt (cacheLayer sha env enabled life clientOk (s, m) nxt)"
proof -
  obtain store t where m: "m = (store, t)" by (cases m)
  let ?n = "\<lambda>s m. case nxt (s, m, t) of (e, s', m', _) \<Rightarrow> (e, s', m')"
  have n: "passesOn s nxt (e, s'', x)" if "?n u k = (e, s', m')" "sameConn s u" "sameConn s' s''" for u k e s' m' s'' x
    using that unfolding passesOn_def by (cases "nxt (u, k, t)") (auto intro!: disjI2 exI [of _ u] exI [of _ k] exI [of _ t])
  have h: "sameConn s (s\<lparr>ResponseCapture := Some [], ReplyFailed := False\<rparr>)" by simp
  show ?thesis
    unfolding cacheLayer_def Cache_Handle_def Let_def m
    by (auto split: prod.splits if_splits simp: n [OF _ sameConn_refl sameConn_refl] n [OF _ h sameConn_refl] passesOn_def [of s nxt "(_, tell _ s, _)"]
        passesOn_def [of s nxt "(_, s, _)"])
qed

lemma limitLayer_passes: "passesOn s nxt (limitLayer uni ops global ord fresh now (s, m) nxt)"
proof -
  obtain store t where m: "m = (store, t)" by (cases m)
  have "passesOn s nxt (fst (nxt (s, store, t)), fst (snd (nxt (s, store, t))), x)" for x
    unfolding passesOn_def by (auto intro!: disjI2 exI [of _ s] exI [of _ store] exI [of _ t])
  moreover have "passesOn s nxt (e, s, x)" for e x by (simp add: passesOn_def)
  ultimately show ?thesis
    unfolding limitLayer_def RateLimit_Handle_def Let_def m
    by (auto split: option.splits prod.splits if_splits)
qed

interpretation cache_layer: request_layer "cacheLayer sha env enabled life clientOk" for sha env enabled life clientOk
  by unfold_locales (rule cacheLayer_passes)

interpretation limit_layer: request_layer "limitLayer uni ops global ord fresh now" for uni ops global ord fresh now
  by unfold_locales (rule limitLayer_passes)

text \<open>The chain the gateway builds: the limits first, then the cache.\<close>

record 'l layer_params =
  lpOps :: "'l limiterOps"
  lpGlobal :: "'l option"
  lpOrder :: "'l tenants"
  lpFresh :: 'l
  lpNow :: int
  lpEnv :: cache_env
  lpEnabled :: bool
  lpTTL :: int
  lpClientOk :: bool

definition gatewayChain :: "config \<Rightarrow> 'l layer_params \<Rightarrow> 'l shared layer list" where
  "gatewayChain cfg lp =
     [limitLayer (cfgUnicode cfg) (lpOps lp) (lpGlobal lp) (lpOrder lp) (lpFresh lp) (lpNow lp),
      cacheLayer (cfgSha cfg) (lpEnv lp) (lpEnabled lp) (lpTTL lp) (lpClientOk lp)]"

lemma gatewayChain_layers: "\<forall>l\<in>set (gatewayChain cfg lp). request_layer l"
  by (simp add: gatewayChain_def cache_layer.request_layer_axioms limit_layer.request_layer_axioms)

section \<open>What a session holds\<close>

text \<open>
  The connection held after a trace, if the trace is one of a session that takes a connection
  only when it has none, and writes to and gives back only the one it has.
\<close>

fun heldAfter :: "conn_id option \<Rightarrow> event list \<Rightarrow> conn_id option option" where
  "heldAfter h [] = Some h"
| "heldAfter h (Took n # es) = (if h = None then heldAfter (Some n) es else None)"
| "heldAfter h (Gave n c # es) = (if h = Some n then heldAfter None es else None)"
| "heldAfter h (Wrote n d # es) = (if h = Some n then heldAfter h es else None)"

lemma heldAfter_append: "heldAfter h (xs @ ys) = Option.bind (heldAfter h xs) (\<lambda>h'. heldAfter h' ys)"
  by (induction h xs rule: heldAfter.induct) auto

lemma heldAfter_writes [simp]: "heldAfter (Some n) (map (Wrote n) ds) = Some (Some n)"
  by (induction ds) auto

definition sess_ok :: "PSession \<Rightarrow> bool" where
  "sess_ok s \<longleftrightarrow> heldAfter None (trace s) = Some (map_option fst (sServer s)) \<and> (sServer s \<noteq> None \<longrightarrow> sBackend s \<noteq> None)"

lemma sess_ok_sameConn: "sameConn s t \<Longrightarrow> sess_ok s = sess_ok t"
  by (simp add: sameConn_def sess_ok_def)

lemma homeEvents_held:
  "heldAfter None (homeEvents st home) = Some (map_option fst (fst (acquireHome st home released)))"
  by (auto simp: homeEvents_def acquireHome_def split: option.splits sum.splits prod.splits)

lemma acquireEvents_held:
  "heldAfter None (acquireEvents x creds st offer home) = Some (map_option fst (fst (acquireForSession x creds st offer home)))"
proof (cases offer)
  case (Inl u)
  then show ?thesis by (simp add: acquireEvents_def acquireForSession_def homeEvents_held [of _ _ "[]"])
next
  case (Inr nc)
  obtain n c where nc: "nc = (n, c)" by (cases nc)
  obtain r c1 where a: "authenticateFreshBackend x c st = (r, c1)" by (cases "authenticateFreshBackend x c st")
  note h = homeEvents_held [of st home "[(n, c)]"] homeEvents_held [of st home "[(n, c1)]"]
  show ?thesis
    using h unfolding acquireEvents_def acquireForSession_def Inr nc
    by (cases r) (simp_all add: a acquireHome_def [of st None])
qed

lemma acquireInto_held:
  assumes "sess_ok s" "sServer s = None" "acquireInto cfg offer home s = (got, s')"
  shows "heldAfter None (trace s') = Some (map_option fst got)" "sServer s' = None" "sState s' = sState s" "sQueryInfo s' = sQueryInfo s"
  using assms by (auto simp: acquireInto_def logged_def sess_ok_def heldAfter_append acquireEvents_held)

lemma holding_ok: "heldAfter None (trace s) = Some (Some n) \<Longrightarrow> sess_ok (holding n c s)"
  by (simp add: sess_ok_def holding_def)

lemma takeServer_ok:
  assumes "sess_ok s" "takeServer cfg w s = (e, s')"
  shows "sess_ok s' \<and> (e = None \<longrightarrow> sServer s' \<noteq> None)"
proof (cases "sServer s")
  case None
  obtain got s1 where a: "acquireInto cfg (wOffer w) (wHome w) s = (got, s1)" by (cases "acquireInto cfg (wOffer w) (wHome w) s")
  note h = acquireInto_held [OF assms(1) None a]
  show ?thesis
  proof (cases got)
    case None
    with assms(2) \<open>sServer s = None\<close> a h show ?thesis by (auto simp: takeServer_def sess_ok_def)
  next
    case (Some nc)
    obtain n c where nc: "nc = (n, c)" by (cases nc)
    let ?s2 = "\<lambda>c. logged [Gave n c] s1"
    have g: "sess_ok (?s2 c)" "sServer (?s2 c) = None" for c
      using h Some nc by (auto simp: sess_ok_def logged_def heldAfter_append)
    have r: "sess_ok s'' \<and> (e = None \<longrightarrow> sServer s'' \<noteq> None)"
      if "(case acquireInto cfg (wOffer2 w) (wHome2 w) (?s2 c) of (None, s2) \<Rightarrow> (Some AcquireFailed, s2)
           | (Some (n2, c2), s2) \<Rightarrow> (None, holding n2 c2 s2)) = (e, s'')" for c s''
    proof -
      obtain got2 s2 where a2: "acquireInto cfg (wOffer2 w) (wHome2 w) (?s2 c) = (got2, s2)"
        by (cases "acquireInto cfg (wOffer2 w) (wHome2 w) (?s2 c)")
      from acquireInto_held [OF g a2] that show ?thesis
        by (cases got2) (auto simp: a2 sess_ok_def holding_def)
    qed
    have k: "sess_ok (holding n c s1)" "sServer (holding n c s1) = Some (n, c)"
      using h Some nc by (simp add: holding_ok) (simp add: holding_def)
    show ?thesis
      using assms(2) \<open>sServer s = None\<close> unfolding takeServer_def a Some nc
      by (auto simp: k split: if_splits wait_result.splits dest!: r)
  qed
qed (use assms in \<open>auto simp: takeServer_def\<close>)

lemma restoreSession_ok:
  assumes "sess_ok s" "sServer s \<noteq> None" "restoreSession w s = (e, s')"
  shows "sess_ok s' \<and> sServer s' \<noteq> None"
  using assms by (auto simp: restoreSession_def sess_ok_def tell_def logged_def heldAfter_append split: if_splits sum.splits)

lemma sendRequest_ok:
  assumes "sess_ok s" "sServer s \<noteq> None" "sendRequest w s = (e, s')"
  shows "sess_ok s' \<and> (e = None \<longrightarrow> sServer s' \<noteq> None)"
  using assms by (auto simp: sendRequest_def sess_ok_def logged_def heldAfter_append split: if_splits)

lemma giveBack_ok: "sess_ok s \<Longrightarrow> sess_ok (giveBack cfg s) \<and> sServer (giveBack cfg s) = None"
  by (auto simp: giveBack_def sess_ok_def logged_def heldAfter_append split: option.splits)

lemma replaceConn_ok: "sess_ok s \<Longrightarrow> sServer s = Some (n, c) \<Longrightarrow> sess_ok (s\<lparr>sServer := Some (n, c')\<rparr>)"
  by (simp add: sess_ok_def)

lemma noteReply_sameConn: "sameConn s (noteReply r s)"
  by (simp add: sameConn_def noteReply_def tell_def)

lemma captureLSN_sameConn: "captureLSN w failed c s = (c', s') \<Longrightarrow> sameConn s s'"
  by (auto simp: captureLSN_def sameConn_def split: if_splits probe_result.splits)

lemma finishRequest_ok:
  assumes "sess_ok s" "sServer s \<noteq> None" "finishRequest cfg w leads s = (e, s', call)"
  shows "sess_ok s'"
proof -
  obtain n c where nc: "sServer s = Some (n, c)" using assms(2) by auto
  define r where "r = relayReply cfg w leads s"
  obtain c1 s1 where l: "captureLSN w (relayErr (outcome r)) (connAfter (wPumpBreaks w) (outcome r) c) (noteReply r s) = (c1, s1)"
    by (cases "captureLSN w (relayErr (outcome r)) (connAfter (wPumpBreaks w) (outcome r) c) (noteReply r s)")
  have k: "sameConn s s1" by (rule sameConn_trans [OF noteReply_sameConn captureLSN_sameConn [OF l]])
  then have s1: "sess_ok s1" "sServer s1 = Some (n, c)" using assms(1) nc sess_ok_sameConn [OF k] by (simp_all add: sameConn_def)
  have s2: "sess_ok (s1\<lparr>sServer := Some (n, c')\<rparr>)" for c' by (rule replaceConn_ok [OF s1])
  have s3: "sess_ok (tell d (s1\<lparr>sServer := Some (n, c')\<rparr>))" for c' d
    using s2 sess_ok_sameConn [OF sameConn_update(1)] by simp
  have "s' = (let late = relayErr (outcome r) \<and> wTimedOut w;
              s2 = s1\<lparr>sServer := Some (n, if late then MarkBroken c1 else c1)\<rparr>;
              s3 = (if late then tell (timeoutMessage cfg) s2 else s2)
    in if shouldReleaseAt (cfgPooling cfg) (relayState (outcome r)) (IsPinned (sState s3)) then giveBack cfg s3 else s3)"
    using assms(3) unfolding finishRequest_def nc by (simp add: r_def [symmetric] l Let_def split: if_splits)
  then show ?thesis using giveBack_ok s2 s3 by (simp add: Let_def split: if_splits)
qed

lemma runRequest_ok:
  assumes "sess_ok s" "runRequest cfg w leads s = (e, s', call)"
  shows "sess_ok s'"
proof -
  obtain e1 s1 where t: "takeServer cfg w s = (e1, s1)" by (cases "takeServer cfg w s")
  obtain e2 s2 where r: "restoreSession w s1 = (e2, s2)" by (cases "restoreSession w s1")
  obtain e3 s3 where q: "sendRequest w s2 = (e3, s3)" by (cases "sendRequest w s2")
  note 1 = takeServer_ok [OF assms(1) t]
  note 2 = restoreSession_ok [OF _ _ r]
  note 3 = sendRequest_ok [OF _ _ q]
  consider "e1 \<noteq> None" "s' = s1" | "e1 = None" "e2 \<noteq> None" "s' = s2" | "e1 = None" "e2 = None" "e3 \<noteq> None" "s' = s3"
    | "e1 = None" "e2 = None" "e3 = None" "finishRequest cfg w leads s3 = (e, s', call)"
    using assms(2) unfolding runRequest_def t Let_def by (cases e1; cases e2; cases e3) (auto simp: r q)
  then show ?thesis
  proof cases
    case 4
    with 1 2 3 have "sess_ok s3" "sServer s3 \<noteq> None" by blast+
    then show ?thesis using 4(4) by (rule finishRequest_ok)
  qed (use 1 2 3 in blast)+
qed

lemma executeRequest_cases:
  obtains (shared) data where "executeRequest cfg w s = (None, tell data s, None)"
      "canCollapse s" "wInFlight w (CacheKey (cfgSha cfg) s) = Some (data, False)"
  | (unsent) "executeRequest cfg w s = (Some ClientWriteFailed, s, None)"
  | (run) leads where "executeRequest cfg w s = runRequest cfg w leads s" "leads \<Longrightarrow> canCollapse s"
proof -
  have "executeRequest cfg w s = runRequest cfg w False s \<or> (canCollapse s \<and> executeRequest cfg w s = runRequest cfg w True s) \<or>
      executeRequest cfg w s = (Some ClientWriteFailed, s, None) \<or>
      (\<exists>data. executeRequest cfg w s = (None, tell data s, None) \<and> canCollapse s \<and>
         wInFlight w (CacheKey (cfgSha cfg) s) = Some (data, False))"
    unfolding executeRequest_def by (auto split: option.split)
  then show thesis using that by blast
qed

lemma executeRequest_ok:
  assumes "sess_ok s" "executeRequest cfg w s = (e, s', call)"
  shows "sess_ok s'"
proof (cases rule: executeRequest_cases [of cfg w s])
  case (shared data)
  then show ?thesis using assms sess_ok_sameConn [OF sameConn_update(1)] by auto
next
  case (run leads)
  then show ?thesis using assms runRequest_ok by metis
qed (use assms in auto)

lemma abandon_ok: "sess_ok s \<Longrightarrow> sess_ok (abandon s) \<and> sServer (abandon s) = None"
  by (auto simp: abandon_def sess_ok_def logged_def heldAfter_append split: option.splits)

lemma releaseToPool_ok: "sess_ok s \<Longrightarrow> sess_ok (releaseToPool s) \<and> sServer (releaseToPool s) = None"
  by (auto simp: releaseToPool_def sess_ok_def logged_def heldAfter_append split: option.splits)

lemma afterRequest_ok: "sess_ok s \<Longrightarrow> sess_ok (afterRequest cfg s)"
  using giveBack_ok [of s cfg] by (simp add: afterRequest_def sess_ok_def)

text \<open>What a request keeps of a property of the connection and the trace, the whole chain keeps.\<close>

lemma chain_keeps:
  fixes layers :: "'m layer list"
  assumes "\<forall>l\<in>set layers. request_layer l" "\<And>s t. sameConn s t \<Longrightarrow> P s = P t"
    and "\<And>t e t' c. P t \<Longrightarrow> executeRequest cfg w t = (e, t', c) \<Longrightarrow> P t'"
    and "P s" "Chain_Handle layers (s, m) (backendHandler cfg w) = (e, s', m')"
  shows "P s'"
proof -
  have p: "passesOn s (backendHandler cfg w) (e, s', m')" using chain_passes [OF assms(1)] assms(5) by metis
  have b: "P (fst (snd (backendHandler cfg w (t, m))))" if "P t" for t and m :: 'm
  proof -
    obtain x t' c where "executeRequest cfg w t = (x, t', c)" by (cases "executeRequest cfg w t")
    then show ?thesis using assms(3) [OF that] by (simp add: backendHandler_def)
  qed
  from p consider "sameConn s s'" | t n where "sameConn s t" "sameConn (fst (snd (backendHandler cfg w (t, n :: 'm)))) s'"
    unfolding passesOn_def by auto
  then show ?thesis
  proof cases
    case 1
    then show ?thesis using assms(4) assms(2) [of s s'] by simp
  next
    case 2
    then have "P t" using assms(4) assms(2) [of s t] by simp
    from b [OF this, of n] assms(2) [OF 2(2)] show ?thesis by simp
  qed
qed

lemma chain_ok:
  assumes "\<forall>l\<in>set layers. request_layer l" "sess_ok s" "Chain_Handle layers (s, m) (backendHandler cfg w) = (e, s', m')"
  shows "sess_ok s'"
  by (rule chain_keeps [where P = sess_ok, OF assms(1) _ _ assms(2,3)]) (erule sess_ok_sameConn, erule (1) executeRequest_ok)

lemma serveRequest_ok:
  assumes "\<forall>l\<in>set layers. request_layer l" "sess_ok (fst p)" "serveRequest cfg layers w data p = (r, s', m')"
  shows "sess_ok s' \<and> (r \<noteq> Continue \<longrightarrow> sServer s' = None)"
proof -
  have d: "sameConn (fst p) ((fst p)\<lparr>sData := data\<rparr>)" "sameConn (fst p) (prepared cfg data ((fst p)\<lparr>sData := data\<rparr>))"
    by (simp_all add: sameConn_def prepared_def)
  note ok = assms(2) [unfolded sess_ok_sameConn [OF d(1)]] assms(2) [unfolded sess_ok_sameConn [OF d(2)]]
  obtain e s3 m3 where c: "Chain_Handle layers (prepared cfg data ((fst p)\<lparr>sData := data\<rparr>), snd p) (backendHandler cfg w) = (e, s3, m3)"
    by (cases "Chain_Handle layers (prepared cfg data ((fst p)\<lparr>sData := data\<rparr>), snd p) (backendHandler cfg w)")
  note s3 = chain_ok [OF assms(1) ok(2) c]
  show ?thesis
    using assms(3) releaseToPool_ok [OF ok(1)] ok(2) sess_ok_sameConn [OF sameConn_update(1)] abandon_ok [OF s3]
      afterRequest_ok [OF s3]
    unfolding serveRequest_def Let_def c by (cases e) (auto split: if_splits)
qed

lemma sessionLoop_ok:
  assumes "\<forall>(layers, _, _)\<in>set rqs. \<forall>l\<in>set layers. request_layer l" "sess_ok (fst p)"
    and "sessionLoop cfg rqs p = (r, s', m')"
  shows "sess_ok s' \<and> sServer s' = None \<and> r \<noteq> Continue"
  using assms
proof (induction cfg rqs p rule: sessionLoop.induct)
  case (1 cfg p)
  then show ?case using releaseToPool_ok by auto
next
  case (2 cfg layers w data rqs p)
  obtain r1 s1 m1 where s: "serveRequest cfg layers w data p = (r1, s1, m1)" by (cases "serveRequest cfg layers w data p")
  have "\<forall>l\<in>set layers. request_layer l" using "2.prems"(1) by simp
  note ok = serveRequest_ok [OF this "2.prems"(2) s]
  show ?case
  proof (cases r1)
    case Continue
    then show ?thesis using 2 ok s by simp
  qed (use 2 ok s in auto)
qed

text \<open>
  C2.  No connection is lost.  Whatever the client sends and whatever fails on the way
  (acquisition, replay, either side's socket, a timeout, a rate limit, a lost client), a
  session served through the gateway's middlewares takes a connection only while it holds
  none, writes only to the connection it holds, gives back only that one, and holds none when
  it is over.
\<close>

theorem connections_returned:
  fixes rqs :: "('l layer_params \<times> world \<times> bytes) list"
  shows "heldAfter None (trace (fst (snd (handleClient cfg st n c
      (map (\<lambda>(lp, w, data). (gatewayChain cfg lp, w, data)) rqs) m)))) = Some None"
proof -
  let ?rqs = "map (\<lambda>(lp, w, data). (gatewayChain cfg lp, w, data)) rqs"
  have l: "\<forall>(layers, _, _)\<in>set ?rqs. \<forall>l\<in>set layers. request_layer l" using gatewayChain_layers [of cfg] by auto
  have n: "sess_ok (newSession st n c)" by (simp add: newSession_def sess_ok_def)
  from releaseToPool_ok [OF n] have r: "sess_ok ((releaseToPool (newSession st n c))\<lparr>sServer := None, sBackend := None\<rparr>)"
    by (simp add: sess_ok_def)
  have h: "heldAfter None (trace (fst (snd (sessionLoop cfg ?rqs (s1, m))))) = Some None" if k: "sess_ok s1" for s1
  proof -
    obtain r' s' m' where e: "sessionLoop cfg ?rqs (s1, m) = (r', s', m')" by (cases "sessionLoop cfg ?rqs (s1, m)")
    have "sess_ok s' \<and> sServer s' = None \<and> r' \<noteq> Continue" using sessionLoop_ok [OF l _ e] k by simp
    then show ?thesis unfolding e by (simp add: sess_ok_def)
  qed
  show ?thesis unfolding handleClient_def Let_def by (rule h) (simp only: n r simp_thms split: if_split)
qed

end
