(* ===== verification/Sharing.thy ===== *)
theory Sharing
  imports Serving
begin

text \<open>
  What sessions owe each other when they share connections and replies: the reset of a
  connection before another session gets it, and request collapsing (\<^verbatim>\<open>executeRequest\<close> of
  \<^verbatim>\<open>gateway.go\<close>).

  The lemmas show that with credentials every connection a session used is broken or marked for
  a reset when it is given back, unless a request failed; that a request answered by another's
  reply gets the bytes that one's client got, and asked the same question; and what goes wrong
  when the leading request fails early, when a capture buffer is left over from an earlier
  request, and when the session is replayed inside a failed transaction.
\<close>

section \<open>Reset before reuse\<close>

text \<open>A connection that carried the session's statements is given back broken or marked for reset.\<close>

fun resets :: "bool \<Rightarrow> event list \<Rightarrow> bool" where
  "resets used [] = True"
| "resets used (Took n # es) = resets False es"
| "resets used (Wrote n d # es) = resets True es"
| "resets used (Gave n c # es) = ((used \<longrightarrow> dirty c \<or> broken c) \<and> resets False es)"

fun usedAfter :: "bool \<Rightarrow> event list \<Rightarrow> bool" where
  "usedAfter used [] = used"
| "usedAfter used (Took n # es) = usedAfter False es"
| "usedAfter used (Wrote n d # es) = usedAfter True es"
| "usedAfter used (Gave n c # es) = usedAfter False es"

lemma resets_append [simp]: "resets u (xs @ ys) = (resets u xs \<and> resets (usedAfter u xs) ys)"
  by (induction u xs rule: resets.induct) auto

lemma usedAfter_append [simp]: "usedAfter u (xs @ ys) = usedAfter (usedAfter u xs) ys"
  by (induction u xs rule: usedAfter.induct) auto

lemma resets_writes [simp]: "resets u (map (Wrote n) ds)"
  by (induction ds arbitrary: u) auto

definition writeFree :: "event list \<Rightarrow> bool" where
  "writeFree es \<longleftrightarrow> list_all (\<lambda>e. case e of Wrote _ _ \<Rightarrow> False | _ \<Rightarrow> True) es"

lemma writeFree_resets: "writeFree es \<Longrightarrow> resets False es \<and> \<not> usedAfter False es"
proof (induction es)
  case (Cons e es)
  then show ?case by (cases e) (auto simp: writeFree_def)
qed simp

lemma acquireEvents_writeFree: "writeFree (acquireEvents x creds st offer home)"
proof -
  have h: "writeFree (homeEvents st home)"
    by (auto simp: homeEvents_def writeFree_def split: option.splits sum.splits)
  have m: "writeFree (map (\<lambda>(n, c). Gave n c) rs)" for rs
    by (auto simp: writeFree_def list_all_iff)
  show ?thesis
    using h m unfolding acquireEvents_def writeFree_def by (simp split: sum.split prod.split option.split)
qed

definition reset_ok :: "PSession \<Rightarrow> bool" where
  "reset_ok s \<longleftrightarrow> resets False (trace s) \<and> (sServer s = None \<longrightarrow> \<not> usedAfter False (trace s))"

lemma reset_ok_sameConn: "sameConn s t \<Longrightarrow> reset_ok s = reset_ok t"
  by (simp add: sameConn_def reset_ok_def)

lemma MarkBroken_broken [simp]: "broken (MarkBroken c)" and MarkDirty_dirty [simp]: "dirty (MarkDirty c)"
  by (simp_all add: MarkBroken_def MarkDirty_def)

lemma acquireInto_reset:
  assumes "reset_ok s" "sServer s = None" "acquireInto cfg offer home s = (got, s')"
  shows "resets False (trace s')" "\<not> usedAfter False (trace s')" "sServer s' = None"
  using assms writeFree_resets [OF acquireEvents_writeFree]
  by (auto simp: acquireInto_def logged_def reset_ok_def)

lemma takeServer_reset:
  assumes "reset_ok s" "takeServer cfg w s = (e, s')"
  shows "reset_ok s'"
proof (cases "sServer s")
  case None
  obtain got s1 where a: "acquireInto cfg (wOffer w) (wHome w) s = (got, s1)" by (cases "acquireInto cfg (wOffer w) (wHome w) s")
  note h = acquireInto_reset [OF assms(1) None a]
  have k: "reset_ok (holding n c s1)" "reset_ok s1" for n c using h by (simp_all add: reset_ok_def holding_def)
  have r: "reset_ok s''"
    if "(case acquireInto cfg (wOffer2 w) (wHome2 w) (logged [Gave n c] s1) of (None, s2) \<Rightarrow> (Some AcquireFailed, s2)
         | (Some (n2, c2), s2) \<Rightarrow> (None, holding n2 c2 s2)) = (e, s'')" for n c s''
  proof -
    obtain got2 s2 where a2: "acquireInto cfg (wOffer2 w) (wHome2 w) (logged [Gave n c] s1) = (got2, s2)"
      by (cases "acquireInto cfg (wOffer2 w) (wHome2 w) (logged [Gave n c] s1)")
    have g: "reset_ok (logged [Gave n c] s1)" "sServer (logged [Gave n c] s1) = None"
      using h by (simp_all add: reset_ok_def logged_def)
    from acquireInto_reset [OF g a2] that show ?thesis
      by (cases got2) (auto simp: a2 reset_ok_def holding_def)
  qed
  show ?thesis
    using assms(2) None unfolding takeServer_def a
    using k by (cases got) (auto split: if_splits wait_result.splits dest!: r)
qed (use assms in \<open>auto simp: takeServer_def\<close>)

lemma restoreSession_reset: "reset_ok s \<Longrightarrow> restoreSession w s = (e, s') \<Longrightarrow> reset_ok s'"
  by (auto simp: restoreSession_def reset_ok_def tell_def logged_def split: if_splits sum.splits option.splits)

lemma sendRequest_reset: "reset_ok s \<Longrightarrow> sendRequest w s = (e, s') \<Longrightarrow> reset_ok s'"
  by (auto simp: sendRequest_def reset_ok_def logged_def split: if_splits option.splits)

lemma giveBack_reset: "hasCredentials cfg \<Longrightarrow> reset_ok s \<Longrightarrow> reset_ok (giveBack cfg s)"
  by (auto simp: giveBack_def reset_ok_def logged_def split: option.splits)

lemma releaseToPool_reset: "reset_ok s \<Longrightarrow> reset_ok (releaseToPool s)"
  by (auto simp: releaseToPool_def reset_ok_def logged_def split: option.splits)

lemma finishRequest_reset:
  assumes "hasCredentials cfg" "reset_ok s" "finishRequest cfg w leads s = (e, s', call)"
  shows "reset_ok s'"
proof (cases "sServer s")
  case (Some nc)
  obtain n c where nc: "sServer s = Some (n, c)" using Some by (cases nc) auto
  define r where "r = relayReply cfg w leads s"
  obtain c1 s1 where l: "captureLSN w (relayErr (outcome r)) (connAfter (wPumpBreaks w) (outcome r) c) (noteReply r s) = (c1, s1)"
    by (cases "captureLSN w (relayErr (outcome r)) (connAfter (wPumpBreaks w) (outcome r) c) (noteReply r s)")
  have k: "sameConn s s1" by (rule sameConn_trans [OF noteReply_sameConn captureLSN_sameConn [OF l]])
  then have s2: "reset_ok (s1\<lparr>sServer := Some (n, c')\<rparr>)" "reset_ok (tell d (s1\<lparr>sServer := Some (n, c')\<rparr>))" for c' d
    using assms(2) by (simp_all add: reset_ok_def sameConn_def tell_def)
  have "s' = (let late = relayErr (outcome r) \<and> wTimedOut w;
              s2 = s1\<lparr>sServer := Some (n, if late then MarkBroken c1 else c1)\<rparr>;
              s3 = (if late then tell (timeoutMessage cfg) s2 else s2)
    in if shouldReleaseAt (cfgPooling cfg) (relayState (outcome r)) (IsPinned (sState s3)) then giveBack cfg s3 else s3)"
    using assms(3) unfolding finishRequest_def nc by (simp add: r_def [symmetric] l Let_def split: if_splits)
  then show ?thesis using giveBack_reset [OF assms(1)] s2 by (simp add: Let_def split: if_splits)
qed (use assms in \<open>simp add: finishRequest_def\<close>)

lemma executeRequest_reset:
  assumes "hasCredentials cfg" "reset_ok s" "executeRequest cfg w s = (e, s', call)"
  shows "reset_ok s'"
proof (cases rule: executeRequest_cases [of cfg w s])
  case (shared data)
  then show ?thesis using assms reset_ok_sameConn [OF sameConn_update(1)] by auto
next
  case (run leads)
  obtain e1 s1 where t: "takeServer cfg w s = (e1, s1)" by (cases "takeServer cfg w s")
  obtain e2 s2 where r: "restoreSession w s1 = (e2, s2)" by (cases "restoreSession w s1")
  obtain e3 s3 where q: "sendRequest w s2 = (e3, s3)" by (cases "sendRequest w s2")
  note ok = takeServer_reset [OF assms(2) t] restoreSession_reset [OF _ r] sendRequest_reset [OF _ q]
    finishRequest_reset [OF assms(1)]
  have "s' \<in> {s1, s2, s3} \<or> finishRequest cfg w leads s3 = (e, s', call)"
    using run(1) assms(3) unfolding runRequest_def t Let_def by (cases e1; cases e2; cases e3) (auto simp: r q)
  then show ?thesis using ok(1,2,3) ok(4) [of s3] by blast
qed (use assms in auto)

lemma serveRequest_reset:
  assumes "hasCredentials cfg" "\<forall>l\<in>set layers. request_layer l" "reset_ok (fst p)"
    and "serveRequest cfg layers w data p = (r, s', m')" "r \<noteq> RequestFailed"
  shows "reset_ok s'"
proof -
  have d: "sameConn (fst p) ((fst p)\<lparr>sData := data\<rparr>)" "sameConn (fst p) (prepared cfg data ((fst p)\<lparr>sData := data\<rparr>))"
    by (simp_all add: sameConn_def prepared_def)
  note ok = assms(3) [unfolded reset_ok_sameConn [OF d(1)]] assms(3) [unfolded reset_ok_sameConn [OF d(2)]]
  obtain e s3 m3 where c: "Chain_Handle layers (prepared cfg data ((fst p)\<lparr>sData := data\<rparr>), snd p) (backendHandler cfg w) = (e, s3, m3)"
    by (cases "Chain_Handle layers (prepared cfg data ((fst p)\<lparr>sData := data\<rparr>), snd p) (backendHandler cfg w)")
  have s3: "reset_ok s3"
    by (rule chain_keeps [where P = reset_ok, OF assms(2) _ _ ok(2) c])
      (erule reset_ok_sameConn, erule (1) executeRequest_reset [OF assms(1)])
  have a: "reset_ok (afterRequest cfg s3)"
    using giveBack_reset [OF assms(1) s3] giveBack_ok s3
    by (auto simp: afterRequest_def reset_ok_def giveBack_def logged_def split: option.splits)
  show ?thesis
    using assms(4,5) releaseToPool_reset [OF ok(1)] ok(2) reset_ok_sameConn [OF sameConn_update(1)] a
    unfolding serveRequest_def Let_def c by (cases e) (auto split: if_splits)
qed

lemma sessionLoop_reset:
  assumes "hasCredentials cfg" "\<forall>(layers, _, _)\<in>set rqs. \<forall>l\<in>set layers. request_layer l" "reset_ok (fst p)"
    and "sessionLoop cfg rqs p = (r, s', m')" "r \<noteq> RequestFailed"
  shows "reset_ok s'"
  using assms
proof (induction cfg rqs p rule: sessionLoop.induct)
  case (1 cfg p)
  then show ?case using releaseToPool_reset by auto
next
  case (2 cfg layers w data rqs p)
  obtain r1 s1 m1 where s: "serveRequest cfg layers w data p = (r1, s1, m1)" by (cases "serveRequest cfg layers w data p")
  have l: "\<forall>l\<in>set layers. request_layer l" using "2.prems"(2) by simp
  note ok = serveRequest_reset [OF "2.prems"(1) l "2.prems"(3) s]
  show ?case
  proof (cases r1)
    case Continue
    then show ?thesis using 2 ok s by simp
  qed (use 2 ok s in auto)
qed

section \<open>Properties\<close>

text \<open>
  C5.  Nothing of a session stays behind on a connection.  When Pontus has credentials, every
  connection that carried a session's statements, or the replay of its settings, is broken or
  marked for a reset at the moment it goes back to the pool, unless the session ended because
  a request failed.
\<close>

theorem returned_connections_reset:
  fixes rqs :: "('l layer_params \<times> world \<times> bytes) list"
  assumes "hasCredentials cfg"
    and "handleClient cfg st n c (map (\<lambda>(lp, w, data). (gatewayChain cfg lp, w, data)) rqs) m = (r, s, m')"
    and "r \<noteq> RequestFailed"
  shows "resets False (trace s)"
proof -
  let ?rqs = "map (\<lambda>(lp, w, data). (gatewayChain cfg lp, w, data)) rqs"
  have l: "\<forall>(layers, _, _)\<in>set ?rqs. \<forall>l\<in>set layers. request_layer l" using gatewayChain_layers [of cfg] by auto
  have n: "reset_ok (newSession st n c)" by (simp add: newSession_def reset_ok_def)
  have "reset_ok ((releaseToPool (newSession st n c))\<lparr>sServer := None, sBackend := None\<rparr>)"
    by (simp add: newSession_def releaseToPool_def reset_ok_def logged_def)
  with n obtain s1 where "reset_ok s1" and e: "sessionLoop cfg ?rqs (s1, m) = (r, s, m')"
    using assms(2) unfolding handleClient_def Let_def by (auto split: if_splits)
  with sessionLoop_reset [OF assms(1) l _ e assms(3)] show ?thesis by (simp add: reset_ok_def)
qed

definition exConfig :: config where
  "exConfig = \<lparr>cfgCrypto = ex_crypto, cfgUnicode = exUni, cfgSha = (\<lambda>x. x), hasCredentials = True,
     cfgPooling = poolSession, maxCaptureBytes = 100, timeoutText = ''1s''\<rparr>"

definition exWorld :: world where
  "exWorld = \<lparr>wOffer = Inl (), wHome = None, wReplica = (\<lambda>_. False), wPolls = [], wOffer2 = Inl (), wHome2 = None,
     wOrder = (\<lambda>x. x), wReplayReads = [], wReplayBreaks = None, wWriteOk = True, wClientOk = (\<lambda>_. True),
     wPumpFails = False, wPumpBreaks = False,
     wReads = [([CHR ''Z'', NUL, NUL, NUL, CHR 0x05, CHR ''I''], False)], wTimedOut = False,
     wLSNWrite = True, wLSNReads = [], wInFlight = (\<lambda>_. None)\<rparr>"

definition exLayers :: "unit layer_params" where
  "exLayers = \<lparr>lpOps = \<lparr>unlimited = (\<lambda>_. True), burst = (\<lambda>_. 1), waitN = (\<lambda>_ _. True)\<rparr>, lpGlobal = None, lpOrder = [],
     lpFresh = (), lpNow = 0, lpEnv = exEnv, lpEnabled = True, lpTTL = 1, lpClientOk = True\<rparr>"

theorem returned_connections_reset_witness:
  "let r = handleClient exConfig freshSession (''db'', 1) (NewConn ex_server)
       (map (\<lambda>(lp, w, data). (gatewayChain exConfig lp, w, data)) [(exLayers, exWorld, ''X'' @ put32 4)]) (NewManager, None)
   in fst r = ClientLeft \<and> trace (fst (snd r)) = [Took (''db'', 1), Gave (''db'', 1) (MarkDirty (MarkReady (NewConn ex_server)))] \<and>
      resets False (trace (fst (snd r)))"
proof -
  define r where "r = handleClient exConfig freshSession (''db'', 1) (NewConn ex_server)
       (map (\<lambda>(lp, w, data). (gatewayChain exConfig lp, w, data)) [(exLayers, exWorld, ''X'' @ put32 4)]) (NewManager, None)"
  have e: "fst r = ClientLeft \<and> trace (fst (snd r)) = [Took (''db'', 1), Gave (''db'', 1) (MarkDirty (MarkReady (NewConn ex_server)))]"
    by (simp add: r_def handleClient_def exConfig_def shouldRelease_def shouldReleaseAt_def freshSession_def serveRequest_def
        IsTerminate_def newSession_def releaseToPool_def logged_def)
  obtain o' s' m' where r: "r = (o', s', m')" by (cases r)
  have "hasCredentials exConfig" by (simp add: exConfig_def)
  then have "resets False (trace s')" by (rule returned_connections_reset [OF _ r [unfolded r_def]]) (use e r in simp)
  with e r have "fst r = ClientLeft \<and> trace (fst (snd r)) = [Took (''db'', 1), Gave (''db'', 1) (MarkDirty (MarkReady (NewConn ex_server)))] \<and>
      resets False (trace (fst (snd r)))" by (simp only: fst_conv snd_conv simp_thms)
  then show ?thesis unfolding r_def Let_def .
qed

text \<open>
  When a request fails the connection goes back as it is.  Here the client stops reading in the
  middle of a transaction: the connection, with the rest of the reply unread on it and the
  transaction open, is neither broken nor marked for a reset.
\<close>

lemma failed_request_not_reset:
  assumes "sServer s = Some (n, c)" "\<not> ShouldReplay s" "\<not> dirty c" "\<not> broken c" "TxState (sState s) = StateInTransaction"
    and "\<not> IsTerminate data" "cfgPooling cfg = poolTransaction"
    and "wWriteOk w" "\<not> wClientOk w 0" "wReads w = (chunk, False) # rs" "chunk \<noteq> []" "\<not> wTimedOut w"
  shows "\<exists>s' c'. serveRequest cfg [] w data (s, m) = (RequestFailed, s', m) \<and> last (trace s') = Gave n c' \<and>
    \<not> dirty c' \<and> \<not> broken c'"
proof -
  let ?s = "prepared cfg data (s\<lparr>sData := data\<rparr>)"
  define s3 where "s3 = snd (sendRequest w ?s)"
  define c3 where "c3 = AddStatement (ParseStatementName data) c"
  have q: "sendRequest w ?s = (None, s3)" "sServer s3 = Some (n, c3)"
    using assms(1,8) by (simp_all add: s3_def c3_def sendRequest_def prepared_def)
  have d: "\<not> dirty c3" "\<not> broken c3" using assms(3,4) by (simp_all add: c3_def AddStatement_def)
  have e: "executeRequest cfg w ?s = runRequest cfg w False ?s"
    using assms(5) by (simp add: executeRequest_def canCollapse_def prepared_def)
  have r: "runRequest cfg w False ?s = finishRequest cfg w False s3"
    using assms(1,2) q by (simp add: runRequest_def takeServer_def restoreSession_def prepared_def)
  have ro: "outcome (relayReply cfg w False s3) = RelayWriteError False"
    using assms(9,10,11) by (simp add: relayReply_def proxyResponse_def proxyResponseFastPath_def
        proxyResponseWithCapture_def Let_def)
  have f: "\<exists>s4. finishRequest cfg w False s3 = (Some RelayFailed, s4, None) \<and> sServer s4 = Some (n, c3)"
    using q(2) assms(7,12) by (simp add: finishRequest_def ro Let_def captureLSN_def relayState_def shouldReleaseAt_def)
  then obtain s4 where s4: "finishRequest cfg w False s3 = (Some RelayFailed, s4, None)" "sServer s4 = Some (n, c3)" by blast
  have "rejectsTransactions (cfgPooling cfg) = False" using assms(7) by (simp add: rejectsTransactions_def)
  then have "serveRequest cfg [] w data (s, m) = (RequestFailed, abandon s4, m)"
    using assms(6) by (simp add: serveRequest_def Let_def backendHandler_def e r s4(1))
  then show ?thesis using s4(2) d by (auto simp: abandon_def logged_def)
qed

section \<open>Collapsed requests\<close>

lemma captureLoop_overflowed:
  "overflowed cap \<Longrightarrow> captured (captureLoop ok pf e (Some cap) scan pump ro n got rs) = Some cap"
proof (induction rs arbitrary: scan pump ro n got)
  case (Cons r rs)
  then show ?case by (cases r) (auto simp: captureWrite_def Let_def split: prod.splits)
qed simp

lemma captureLoop_capture:
  assumes "\<not> overflowed cap" "\<not> relayErr (outcome (captureLoop ok pf e (Some cap) scan pump ro n got rs))"
    and "\<not> captureErr (captured (captureLoop ok pf e (Some cap) scan pump ro n got rs))"
  shows "\<exists>d. delivered (captureLoop ok pf e (Some cap) scan pump ro n got rs) = got @ d \<and>
    captureBytes (captured (captureLoop ok pf e (Some cap) scan pump ro n got rs)) = Some (capBuf cap @ d)"
  using assms
proof (induction rs arbitrary: cap scan pump ro n got)
  case (Cons r rs)
  obtain chunk err where r: "r = (chunk, err)" by (cases r)
  obtain scan' dn state where f: "feed scan chunk = (scan', dn, state)" by (metis prod_cases3)
  show ?case
  proof (cases "chunk = []")
    case True
    then show ?thesis using Cons unfolding r by (cases err) simp_all
  next
    case False
    obtain cap' where c: "captureWrite (Some cap) chunk = Some cap'" using Cons.prems(1) by (simp add: captureWrite_Some)
    show ?thesis
    proof (cases "overflowed cap'")
      case True
      then show ?thesis using Cons.prems(2,3) False captureLoop_overflowed [OF True]
        unfolding r by (auto simp: c f Let_def captureErr_def split: if_splits)
    next
      case o: False
      then have b: "capBuf cap' = capBuf cap @ chunk" using c Cons.prems(1) by (auto simp: captureWrite_Some split: if_splits)
      show ?thesis
      proof (cases dn)
        case True
        then show ?thesis using Cons.prems False o b unfolding r
          by (auto simp: c f Let_def captureBytes_def split: if_splits)
      next
        case n: False
        then show ?thesis
          using Cons.prems False o b Cons.IH [of cap' scan' "pump \<or> sawCopyIn scan'" "ro \<or> IsReadOnlyError chunk" "n + length chunk" "got @ chunk"]
          unfolding r by (auto simp: c f Let_def split: if_splits)
      qed
    qed
  qed
qed simp

lemma relayReply_capture:
  assumes "leads" "\<not> relayErr (outcome (relayReply cfg w leads s))" "\<not> captureErr (captured (relayReply cfg w leads s))"
  shows "captureBytes (captured (relayReply cfg w leads s)) =
    Some ((case ResponseCapture s of None \<Rightarrow> [] | Some b \<Rightarrow> b) @ delivered (relayReply cfg w leads s))"
proof -
  let ?b = "case ResponseCapture s of None \<Rightarrow> [] | Some b \<Rightarrow> b"
  have "captureFor cfg leads s = Some (newResponseCapture ?b (maxCaptureBytes cfg))"
    using assms(1) by (simp add: captureFor_def split: option.split)
  then have r: "relayReply cfg w leads s = captureLoop (wClientOk w) (wPumpFails w) (ResponseEndFor (sData s))
      (Some (newResponseCapture ?b (maxCaptureBytes cfg))) (newReplyScanner (ResponseEndFor (sData s))) False False 0 [] (wReads w @ [([], True)])"
    by (simp add: relayReply_def proxyResponse_def proxyResponseWithCapture_def)
  have n: "\<not> overflowed (newResponseCapture ?b (maxCaptureBytes cfg))" "capBuf (newResponseCapture ?b (maxCaptureBytes cfg)) = ?b"
    by (simp_all add: newResponseCapture_def)
  from captureLoop_capture [OF n(1) assms(2,3) [unfolded r]] show ?thesis unfolding r n(2) by auto
qed

text \<open>Up to the reply, a request leaves the capture and what the client was told alone.\<close>

lemma beforeReply:
  "takeServer cfg w s = (None, s1) \<Longrightarrow> restoreSession w s1 = (None, s2) \<Longrightarrow> sendRequest w s2 = (None, s3) \<Longrightarrow>
     ResponseCapture s3 = ResponseCapture s \<and> told s3 = told s"
proof -
  assume t: "takeServer cfg w s = (None, s1)" and r: "restoreSession w s1 = (None, s2)" and q: "sendRequest w s2 = (None, s3)"
  have "ResponseCapture s1 = ResponseCapture s \<and> told s1 = told s"
    using t by (auto simp: takeServer_def acquireInto_def logged_def holding_def split: if_splits option.splits wait_result.splits)
  moreover have "ResponseCapture s2 = ResponseCapture s1 \<and> told s2 = told s1"
    using r by (auto simp: restoreSession_def logged_def split: if_splits option.splits sum.splits)
  moreover have "ResponseCapture s3 = ResponseCapture s2 \<and> told s3 = told s2"
    using q by (auto simp: sendRequest_def logged_def split: if_splits option.splits)
  ultimately show ?thesis by simp
qed

lemma finishRequest_call:
  assumes "finishRequest cfg w leads s = (e, s', Some (data, False))"
  shows "told s' = told s @ [delivered (relayReply cfg w leads s)]"
    and "data = (case ResponseCapture s of None \<Rightarrow> [] | Some b \<Rightarrow> b) @ delivered (relayReply cfg w leads s)"
proof -
  obtain n c where nc: "sServer s = Some (n, c)"
    using assms by (cases "sServer s") (auto simp: finishRequest_def)
  define r where "r = relayReply cfg w leads s"
  obtain c1 s1 where l: "captureLSN w (relayErr (outcome r)) (connAfter (wPumpBreaks w) (outcome r) c) (noteReply r s) = (c1, s1)"
    by (cases "captureLSN w (relayErr (outcome r)) (connAfter (wPumpBreaks w) (outcome r) c) (noteReply r s)")
  have f: "leads" "\<not> relayErr (outcome r)" "\<not> captureErr (captured r)"
    "data = (case captureBytes (captured r) of None \<Rightarrow> [] | Some b \<Rightarrow> b)"
    "told s' = told s1"
    using assms unfolding finishRequest_def nc
    by (auto simp: r_def [symmetric] l Let_def giveBack_def logged_def split: if_splits option.splits)
  have "told s1 = told s @ [delivered r]"
    using l by (auto simp: captureLSN_def noteReply_def tell_def split: if_splits probe_result.splits)
  with f(5) show "told s' = told s @ [delivered (relayReply cfg w leads s)]" by (simp add: r_def)
  show "data = (case ResponseCapture s of None \<Rightarrow> [] | Some b \<Rightarrow> b) @ delivered (relayReply cfg w leads s)"
    using relayReply_capture [OF f(1) f(2,3) [unfolded r_def]] f(4) by (simp add: r_def)
qed

lemma leader_call:
  assumes "executeRequest cfg w s = (None, s', Some (data, False))"
  obtains reply where "told s' = told s @ [reply]" "data = (case ResponseCapture s of None \<Rightarrow> [] | Some b \<Rightarrow> b) @ reply"
proof (cases rule: executeRequest_cases [of cfg w s])
  case (run leads)
  obtain e1 s1 where t: "takeServer cfg w s = (e1, s1)" by (cases "takeServer cfg w s")
  obtain e2 s2 where r: "restoreSession w s1 = (e2, s2)" by (cases "restoreSession w s1")
  obtain e3 s3 where q: "sendRequest w s2 = (e3, s3)" by (cases "sendRequest w s2")
  have f: "e1 = None" "e2 = None" "e3 = None" "finishRequest cfg w leads s3 = (None, s', Some (data, False))"
    using run(1) assms unfolding runRequest_def t Let_def by (cases e1; cases e2; cases e3; simp add: r q)+
  have "ResponseCapture s3 = ResponseCapture s \<and> told s3 = told s"
    by (rule beforeReply) (use t r q f in auto)
  with finishRequest_call [OF f(4)] that show thesis by simp
qed (use assms in auto)

text \<open>
  C4.  A collapsed request gets the leading request's reply.  When a request that others may
  wait for succeeds, with no capture left over from before, a request waiting under the same
  key is answered without touching a backend, with exactly the bytes the first one's client
  got; and it is a request for the same bytes, by the same user, on the same database and with
  the same settings (provided the hash does not collide on the two keys).
\<close>

theorem collapsed_reply_exact:
  assumes "executeRequest cfg w s = (None, s', Some (data, False))" "ResponseCapture s \<in> {None, Some []}"
    and "canCollapse f" "wInFlight v (CacheKey (cfgSha cfg) f) = Some (data, False)" "wClientOk v 0"
    and "CacheKey (cfgSha cfg) f = CacheKey (cfgSha cfg) s" "keyable s" "keyable f"
    and "cfgSha cfg (keyBytes s) = cfgSha cfg (keyBytes f) \<longrightarrow> keyBytes s = keyBytes f"
  shows "told s' = told s @ [data] \<and> executeRequest cfg v f = (None, tell data f, None) \<and> sameQuestion s f"
proof -
  obtain reply where "told s' = told s @ [reply]" "data = (case ResponseCapture s of None \<Rightarrow> [] | Some b \<Rightarrow> b) @ reply"
    using leader_call [OF assms(1)] .
  then have "told s' = told s @ [data]" using assms(2) by auto
  moreover have "executeRequest cfg v f = (None, tell data f, None)" using assms(3-5) by (simp add: executeRequest_def)
  moreover have "sameQuestion s f"
    using keyBytes_separates [OF assms(7,8)] assms(6,9) by (simp add: CacheKey_def)
  ultimately show ?thesis by blast
qed

definition exLead :: PSession where
  "exLead = (newSession freshSession (''db'', 1) (NewConn ex_server))
     \<lparr>sData := [CHR ''S'', NUL, NUL, NUL, CHR 0x04], sQueryInfo := \<lparr>ReadOnly = True, InTransaction = False, AffectedTables = []\<rparr>\<rparr>"

text \<open>A leading request on a connection that is already held, answered by one whole reply.\<close>

lemma leader_answered:
  assumes "canCollapse s" "wInFlight w (CacheKey (cfgSha cfg) s) = None" "sServer s = Some (n, c)" "\<not> ShouldReplay s"
    and "ResponseCapture s = None" "wWriteOk w" "wClientOk w = (\<lambda>_. True)" "\<not> wPumpFails w"
    and "ResponseEndFor (sData s) = untilReady" "wReads w = [(reply_of ms k, False)]"
    and "framable ms" "CHR ''Z'' \<notin> set (map fst ms)" "int (length (reply_of ms k)) \<le> maxCaptureBytes cfg"
  shows "\<exists>s'. executeRequest cfg w s = (None, s', Some (reply_of ms k, False))"
proof -
  define s3 where "s3 = snd (sendRequest w s)"
  have q: "sendRequest w s = (None, s3)" "\<exists>c'. sServer s3 = Some (n, c')" "ResponseCapture s3 = None"
    "sQueryInfo s3 = sQueryInfo s" "sData s3 = sData s"
    using assms(3,5,6) by (simp_all add: s3_def sendRequest_def logged_def)
  have run: "executeRequest cfg w s = finishRequest cfg w True s3"
    using assms(1-4) q(1) by (simp add: executeRequest_def runRequest_def takeServer_def restoreSession_def)
  have pos: "0 < maxCaptureBytes cfg" using assms(13) by (simp add: reply_of_def writeTagged_Cons)
  have "captureFor cfg True s3 = Some (newResponseCapture [] (maxCaptureBytes cfg))" using q(3) by (simp add: captureFor_def)
  then obtain ro where r: "relayReply cfg w True s3 =
      \<lparr>outcome = RelayDone (transactionStatus k) ro (CHR ''E'' \<in> set (map fst ms)), sent = length (reply_of ms k),
       delivered = reply_of ms k, captured = captureAll [reply_of ms k] (Some (newResponseCapture [] (maxCaptureBytes cfg))),
       unread = [([], True)]\<rparr>"
    using proxyResponse_reply [OF assms(11,12), of "[reply_of ms k]" k "captureFor cfg True s3" "ReadOnly (sQueryInfo s3)" "[([], True)]"]
      assms(7-10) q(5) by (auto simp: relayReply_def reply_of_def writeTagged_Cons)
  have b: "captureBytes (captured (relayReply cfg w True s3)) = Some (reply_of ms k)"
    using captureBytes_all [OF pos, of "[reply_of ms k]"] assms(13) unfolding r by simp
  then have x: "\<not> captureErr (captured (relayReply cfg w True s3))"
    by (auto simp: captureBytes_def captureErr_def split: option.splits if_splits)
  obtain c' where "sServer s3 = Some (n, c')" using q(2) by blast
  then show ?thesis
    unfolding run finishRequest_def using b x by (simp add: r Let_def case_prod_unfold)
qed

definition exWait :: world where
  "exWait = exWorld\<lparr>wInFlight := (\<lambda>_. Some (reply_of [] CHR ''I'', False))\<rparr>"

theorem collapsed_reply_exact_witness:
  "canCollapse exLead \<and> executeRequest exConfig exWait exLead = (None, tell (reply_of [] CHR ''I'') exLead, None)"
proof -
  have c: "canCollapse exLead" "ResponseCapture exLead = None" "sServer exLead = Some ((''db'', 1), MarkReady (NewConn ex_server))"
      "\<not> ShouldReplay exLead" "sData exLead = [CHR ''S'', NUL, NUL, NUL, CHR 0x04]"
    by (simp_all add: exLead_def newSession_def freshSession_def canCollapse_def)
  have z: "reply_of [] CHR ''I'' = [CHR ''Z'', NUL, NUL, NUL, CHR 0x05, CHR ''I'']"
    using put32_be32 [of "[NUL, NUL, NUL, CHR 0x05]"] by (simp add: reply_of_def writeTagged_Cons)
  have e: "ResponseEndFor (sData exLead) = untilReady" unfolding c(5) ResponseEndFor_def by (simp add: responseEndLoop.simps)
  obtain s' where s': "executeRequest exConfig exWorld exLead = (None, s', Some (reply_of [] CHR ''I'', False))"
    using leader_answered [OF c(1) _ c(3,4,2) _ _ _ e, of exWorld exConfig "[]" "CHR ''I''"] z
    by (auto simp: exWorld_def exConfig_def)
  have k: "keyable exLead"
    by (simp add: keyable_def keyParts_def exLead_def newSession_def freshSession_def)
  have "wInFlight exWait (CacheKey (cfgSha exConfig) exLead) = Some (reply_of [] CHR ''I'', False)" "wClientOk exWait 0"
    by (simp_all add: exWait_def exWorld_def)
  from collapsed_reply_exact [OF s' _ c(1) this refl k k] c show ?thesis by simp
qed

text \<open>
  A leading request that fails before its reply leaves the shared call empty and without an
  error: whoever waits for it is told nothing and counts as answered.
\<close>

lemma early_failure_answers_followers:
  assumes "canCollapse s" "wInFlight w (CacheKey (cfgSha cfg) s) = None" "takeServer cfg w s = (Some e, s1)"
    and "canCollapse f" "wInFlight v (CacheKey (cfgSha cfg) f) = snd (snd (executeRequest cfg w s))" "wClientOk v 0"
  shows "fst (executeRequest cfg w s) = Some e" "executeRequest cfg v f = (None, tell [] f, None)"
  using assms by (simp_all add: executeRequest_def runRequest_def)

text \<open>
  The capture a session made for the cache is still there at its next request.  If that request
  may be collapsed but is not cacheable (an extended-protocol batch), the old reply is put in
  front of the new one for everyone who waits.
\<close>

lemma stale_capture_shared:
  assumes "executeRequest cfg w s = (None, s', Some (data, False))" "ResponseCapture s = Some old"
  shows "\<exists>reply. told s' = told s @ [reply] \<and> data = old @ reply"
  using leader_call [OF assms(1)] assms(2) by (metis option.simps(5))

text \<open>
  \<^verbatim>\<open>ShouldReplay\<close> is set when a connection is acquired and never cleared, so the settings are
  replayed before every request on that connection.  Inside a failed transaction PostgreSQL
  refuses them, and the session is ended whatever the request was, a ROLLBACK included.
\<close>

lemma failed_transaction_ends_session:
  assumes "sServer s = Some (n, c)" "ShouldReplay s" "wOrder w (Vars (sState s)) = (k, q) # vs" "wReplayBreaks w = None"
    and "framable ms" "CHR ''Z'' \<notin> set (map fst ms)" "CHR ''E'' \<in> set (map fst ms)"
    and "wReplayReads w = [(reply_of ms CHR ''E'', False)]" "TxState (sState s) = StateError"
  shows "\<exists>s' call. executeRequest cfg w s = (Some ReplayFailed, s', call) \<and> told s' = told s @ [restoreMessage]"
proof -
  obtain why where a: "awaitReply [(reply_of ms CHR ''E'', False)] = (Refused why, [])"
    using awaitReply_reply [OF assms(5,6), of "[reply_of ms CHR ''E'']" "CHR ''E''" "[]"] assms(7)
    by (auto simp: reply_of_def writeTagged_Cons)
  have "replaySession \<lparr>written = [], incoming = wReplayReads w, breaksAt = wReplayBreaks w, holds = Some (stmts c)\<rparr>
      (wOrder w (Vars (sState s))) ss = Inl (replay_error.ReplyFailed (Refused why))" for ss
    using assms(3,4,8) a by (simp add: replaySession_def ReplaySessionState_def connWrite_def sendAndAwait_def)
  then have "restoreSession w s = (Some ReplayFailed, tell restoreMessage (s\<lparr>sServer := Some (n, MarkBroken c)\<rparr>))"
    using assms(1,2) by (simp add: restoreSession_def)
  then show ?thesis
    using assms(1,9) by (simp add: executeRequest_def canCollapse_def runRequest_def takeServer_def tell_def)
qed

end
