(* ===== verification/Balancer.thy ===== *)
theory Balancer
  imports Complex_Main "HOL-Library.Word" "HOL-Library.Multiset" GoText GoCodec Pool
begin

text \<open>
  The choice of a backend: \<^verbatim>\<open>server/internal/balancer\<close> (the filter and the cost of
  \<^verbatim>\<open>balancer.go\<close>, and the six strategies) and \<^verbatim>\<open>newBalancer\<close> of
  \<^verbatim>\<open>management/infrastructure/registry/registry.go\<close>.

  Floating-point arithmetic is read as exact arithmetic on rationals.  The lemmas show that every
  strategy keeps to the filter (a write never goes to a replica, a read goes to a fresh replica
  whenever there is one), that round-robin serves its targets equally often, that a key keeps its
  backend under consistent hashing as long as that backend is eligible, and that the cost
  always counts connections.
\<close>

unbundle bit_operations_syntax

section \<open>Backends and hints\<close>

text \<open>What the balancer reads of a backend; times are in nanoseconds.\<close>

record Backend =
  bAddress :: bytes
  bRole :: Role
  bHealthy :: bool
  bDraining :: bool
  bReplicating :: bool
  bLag :: int
  bLatency :: int
  bRTT :: int
  bActive :: int
  bWeight :: int
  bZone :: bytes
  bErrorRate :: rat
  bLastHealthy :: "int option"

record Hint =
  hReadOnly :: bool
  AcceptReplica :: bool
  hKey :: bytes
  CallerZone :: bytes

definition SlowStartDuration :: int where "SlowStartDuration = 30 * 10 ^ 9"
definition RemoteZonePenalty :: rat where "RemoteZonePenalty = 2"
definition DefaultMaxReplicaLag :: int where "DefaultMaxReplicaLag = 10 * 10 ^ 9"

definition SetMaxReplicaLag :: "int \<Rightarrow> int" where
  "SetMaxReplicaLag d = (if d \<le> 0 then DefaultMaxReplicaLag else d)"

text \<open>The lag threshold and the clock.\<close>

record env =
  maxReplicaLag :: int
  clock :: int

section \<open>Cost\<close>

definition effectiveLatency :: "Backend \<Rightarrow> rat" where
  "effectiveLatency b =
     (let latency = rat_of_int (bLatency b); rtt = rat_of_int (bRTT b);
          e = (if latency > 0 \<and> rtt > 0 then latency * 7 / 10 + rtt * 3 / 10
               else if latency = 0 then rtt else latency)
      in if e \<le> 0 then 1 else e)"

definition zoneFactor :: "bytes \<Rightarrow> Backend \<Rightarrow> rat" where
  "zoneFactor callerZone b =
     (if callerZone \<noteq> [] \<and> bZone b \<noteq> [] \<and> bZone b \<noteq> callerZone then RemoteZonePenalty else 1)"

definition errorFactor :: "Backend \<Rightarrow> rat" where
  "errorFactor b = (if bErrorRate b > 5 / 100 then 1 + bErrorRate b * 5 else 1)"

definition lagFactor :: "env \<Rightarrow> Backend \<Rightarrow> rat" where
  "lagFactor v b =
     (if bRole b = RoleReplica then
        (if bLag b > maxReplicaLag v then 100
         else if bLag b > 0 then 1 + rat_of_int (bLag b) / rat_of_int (maxReplicaLag v)
         else 1)
      else 1)"

definition slowStartFactor :: "env \<Rightarrow> Backend \<Rightarrow> rat" where
  "slowStartFactor v b =
     (case bLastHealthy b of
        None \<Rightarrow> 1
      | Some t \<Rightarrow>
          let elapsed = clock v - t in
          if elapsed < SlowStartDuration then 10 - 9 * rat_of_int elapsed / rat_of_int SlowStartDuration else 1)"

definition CalculateCost :: "env \<Rightarrow> Backend \<Rightarrow> bytes \<Rightarrow> rat" where
  "CalculateCost v b callerZone =
     effectiveLatency b * rat_of_int (bActive b + 1) / rat_of_int (max (bWeight b) 1)
       * zoneFactor callerZone b * errorFactor b * lagFactor v b * slowStartFactor v b"

section \<open>Filter\<close>

definition available :: "Role \<Rightarrow> Backend \<Rightarrow> bool" where
  "available r n = (bRole n = r \<and> bHealthy n \<and> \<not> bDraining n)"

definition freshReplica :: "env \<Rightarrow> Backend \<Rightarrow> bool" where
  "freshReplica v n = (available RoleReplica n \<and> bReplicating n \<and> bLag n \<le> maxReplicaLag v)"

definition appendReplicas :: "env \<Rightarrow> Backend list \<Rightarrow> Backend list \<Rightarrow> Backend list" where
  "appendReplicas v targets nodes =
     (let t = targets @ filter (freshReplica v) nodes in
      if length t > 0 then t else t @ filter (available RoleReplica) nodes)"

fun bestPrimary :: "env \<Rightarrow> bytes \<Rightarrow> Backend option \<Rightarrow> Backend list \<Rightarrow> Backend option" where
  "bestPrimary v zone best [] = best"
| "bestPrimary v zone best (node # nodes) =
     bestPrimary v zone
       (if available RolePrimary node \<and>
           (case best of None \<Rightarrow> True | Some b \<Rightarrow> CalculateCost v node zone < CalculateCost v b zone)
        then Some node else best) nodes"

definition FilterNodes :: "env \<Rightarrow> Backend list \<Rightarrow> Hint \<Rightarrow> Backend list" where
  "FilterNodes v nodes hint =
     (if hReadOnly hint then
        (let targets = appendReplicas v [] nodes in
         if length targets = 0 then filter (available RolePrimary) nodes else targets)
      else (case bestPrimary v (CallerZone hint) None nodes of
              Some b \<Rightarrow> [b]
            | None \<Rightarrow> if AcceptReplica hint then appendReplicas v [] nodes else []))"

section \<open>Strategies\<close>

text \<open>Each returns the backend, or none if there is no healthy one, and its own state afterwards.\<close>

definition RoundRobin_Next :: "env \<Rightarrow> 64 word \<Rightarrow> Backend list \<Rightarrow> Hint \<Rightarrow> Backend option \<times> 64 word" where
  "RoundRobin_Next v index nodes hint =
     (if length nodes = 0 then (None, index)
      else let targets = FilterNodes v nodes hint in
        if length targets = 0 then (None, index)
        else let index' = index + 1 in (Some (targets ! (unat index' mod length targets)), index'))"

fun leastLoop :: "int \<Rightarrow> Backend option \<Rightarrow> Backend list \<Rightarrow> Backend option" where
  "leastLoop minConns best [] = best"
| "leastLoop minConns best (b # bs) =
     (if bActive b < minConns then leastLoop (bActive b) (Some b) bs else leastLoop minConns best bs)"

definition LeastConn_Next :: "env \<Rightarrow> unit \<Rightarrow> Backend list \<Rightarrow> Hint \<Rightarrow> Backend option \<times> unit" where
  "LeastConn_Next v u nodes hint =
     (if length nodes = 0 then (None, u)
      else let targets = FilterNodes v nodes hint in
        if length targets = 0 then (None, u) else (leastLoop (2 ^ 63 - 1) None targets, u))"

text \<open>\<open>intN\<close> stands for the random generator: two draws below the number of targets.\<close>

definition P2C_Next :: "env \<Rightarrow> (nat \<Rightarrow> nat) \<times> (nat \<Rightarrow> nat) \<Rightarrow> Backend list \<Rightarrow> Hint \<Rightarrow>
    Backend option \<times> (nat \<Rightarrow> nat) \<times> (nat \<Rightarrow> nat)" where
  "P2C_Next v intN nodes hint =
     (if length nodes = 0 then (None, intN)
      else let targets = FilterNodes v nodes hint in
        if length targets = 0 then (None, intN)
        else if length targets = 1 then (Some (targets ! 0), intN)
        else let i1 = fst intN (length targets);
                 r2 = snd intN (length targets - 1);
                 i2 = (if r2 \<ge> i1 then r2 + 1 else r2);
                 b1 = targets ! i1; b2 = targets ! i2
          in (Some (if CalculateCost v b1 (CallerZone hint) \<le> CalculateCost v b2 (CallerZone hint) then b1 else b2), intN))"

definition MaxFloat64 :: rat where "MaxFloat64 = (2 ^ 53 - 1) * 2 ^ 971"

fun ewmaLoop :: "env \<Rightarrow> bytes \<Rightarrow> rat \<Rightarrow> Backend option \<Rightarrow> Backend list \<Rightarrow> Backend option" where
  "ewmaLoop v zone minCost best [] = best"
| "ewmaLoop v zone minCost best (b # bs) =
     (let cost = CalculateCost v b zone in
      if cost = 0 then Some b
      else if cost < minCost then ewmaLoop v zone cost (Some b) bs
      else ewmaLoop v zone minCost best bs)"

definition PeakEWMA_Next :: "env \<Rightarrow> unit \<Rightarrow> Backend list \<Rightarrow> Hint \<Rightarrow> Backend option \<times> unit" where
  "PeakEWMA_Next v u nodes hint =
     (if length nodes = 0 then (None, u)
      else let targets = FilterNodes v nodes hint in
        if length targets = 0 then (None, u) else (ewmaLoop v (CallerZone hint) MaxFloat64 None targets, u))"

fun cheapestLoop :: "env \<Rightarrow> bytes \<Rightarrow> rat \<Rightarrow> Backend option \<Rightarrow> Backend list \<Rightarrow> Backend option" where
  "cheapestLoop v zone minCost best [] = best"
| "cheapestLoop v zone minCost best (node # nodes) =
     (let cost = CalculateCost v node zone in
      if minCost < 0 \<or> cost < minCost then cheapestLoop v zone cost (Some node) nodes
      else cheapestLoop v zone minCost best nodes)"

definition WeightedRoundRobin_Next :: "env \<Rightarrow> unit \<Rightarrow> Backend list \<Rightarrow> Hint \<Rightarrow> Backend option \<times> unit" where
  "WeightedRoundRobin_Next v u nodes hint =
     (if length nodes = 0 then (None, u)
      else let targets = FilterNodes v nodes hint in
        if length targets = 0 then (None, u)
        else if length targets = 1 then (Some (targets ! 0), u)
        else (cheapestLoop v (CallerZone hint) (-1) None targets, u))"

section \<open>Consistent hashing\<close>

text \<open>CRC-32 with the IEEE polynomial, one bit at a time (\<^verbatim>\<open>hash/crc32\<close>).\<close>

definition crcBit :: "32 word \<Rightarrow> 32 word" where
  "crcBit c = (if bit c 0 then drop_bit 1 c XOR 0xEDB88320 else drop_bit 1 c)"

definition ChecksumIEEE :: "bytes \<Rightarrow> 32 word" where
  "ChecksumIEEE d = NOT (fold (\<lambda>b c. (crcBit ^^ 8) (c XOR of_nat (bval b))) d (NOT 0))"

definition virtualNodes :: nat where "virtualNodes = 100"

type_synonym nodeHash = "32 word \<times> Backend"

definition ringEntries :: "Backend list \<Rightarrow> nodeHash list" where
  "ringEntries nodes =
     concat (map (\<lambda>node. let weight = (if bWeight node \<le> 0 then 1 else bWeight node) in
       map (\<lambda>i. (ChecksumIEEE (bAddress node @ ''#'' @ decimal i), node)) [0..<virtualNodes * nat weight]) nodes)"

text \<open>\<open>srt\<close> is the library's sort by hash, which is not stable.\<close>

definition ConsistentHash_UpdateNodes :: "(nodeHash list \<Rightarrow> nodeHash list) \<Rightarrow> Backend list \<Rightarrow> nodeHash list" where
  "ConsistentHash_UpdateNodes srt nodes = srt (ringEntries nodes)"

text \<open>\<^verbatim>\<open>sort.Search\<close>: the binary search for the first index that satisfies \<open>f\<close>.\<close>

function searchLoop :: "(nat \<Rightarrow> bool) \<Rightarrow> nat \<Rightarrow> nat \<Rightarrow> nat" where
  "searchLoop f i j =
     (if i < j then let h = (i + j) div 2 in if \<not> f h then searchLoop f (h + 1) j else searchLoop f i h
      else i)"
  by pat_completeness auto
termination by (relation "measure (\<lambda>(_, i, j). j - i)") auto

declare searchLoop.simps [simp del]

fun walkRing :: "nodeHash list \<Rightarrow> Backend list \<Rightarrow> nat \<Rightarrow> nat \<Rightarrow> Backend option" where
  "walkRing ring targets idx 0 = None"
| "walkRing ring targets idx (Suc k) =
     (let node = snd (ring ! idx) in
      if node \<in> set targets then Some node else walkRing ring targets ((idx + 1) mod length ring) k)"

definition ConsistentHash_Next :: "env \<Rightarrow> nodeHash list \<Rightarrow> Backend list \<Rightarrow> Hint \<Rightarrow> Backend option \<times> nodeHash list" where
  "ConsistentHash_Next v ring nodes hint =
     (if length nodes = 0 then (None, ring)
      else let targets = FilterNodes v nodes hint in
        if length targets = 0 then (None, ring)
        else if hKey hint = [] then (cheapestLoop v (CallerZone hint) (-1) None targets, ring)
        else let keyHash = ChecksumIEEE (hKey hint);
                 found = searchLoop (\<lambda>i. fst (ring ! i) \<ge> keyHash) 0 (length ring);
                 idx = (if found = length ring then 0 else found)
          in (case walkRing ring targets idx (length ring) of
                Some node \<Rightarrow> (Some node, ring)
              | None \<Rightarrow> (Some (targets ! 0), ring)))"

section \<open>The configured strategy\<close>

datatype strategy = RoundRobin | WeightedRoundRobin | LeastConn | P2C | PeakEWMA | ConsistentHash

definition newBalancer :: "bytes \<Rightarrow> strategy" where
  "newBalancer name =
     (let n = ToLower (TrimSpace name) in
      if n \<in> {[], ''round-robin'', ''roundrobin'', ''round_robin''} then RoundRobin
      else if n \<in> {''weighted'', ''weighted-round-robin'', ''weightedroundrobin'', ''weighted_round_robin''}
      then WeightedRoundRobin
      else if n \<in> {''least-conns'', ''least-connections'', ''leastconn'', ''least_conn'', ''least_conns''} then LeastConn
      else if n \<in> {''p2c'', ''power-of-two''} then P2C
      else if n \<in> {''peak-ewma'', ''ewma'', ''peak_ewma''} then PeakEWMA
      else if n \<in> {''consistent'', ''consistent-hash'', ''ip-hash'', ''ip_hash''} then ConsistentHash
      else RoundRobin)"

text \<open>What a balancer of any kind carries: the counter, the random draws and the ring.\<close>

record balancer =
  rrIndex :: "64 word"
  draws :: "(nat \<Rightarrow> nat) \<times> (nat \<Rightarrow> nat)"
  hashRing :: "nodeHash list"

fun Next :: "strategy \<Rightarrow> env \<Rightarrow> balancer \<Rightarrow> Backend list \<Rightarrow> Hint \<Rightarrow> Backend option \<times> balancer" where
  "Next RoundRobin v s nodes hint = (case RoundRobin_Next v (rrIndex s) nodes hint of (b, i) \<Rightarrow> (b, s\<lparr>rrIndex := i\<rparr>))"
| "Next WeightedRoundRobin v s nodes hint = (fst (WeightedRoundRobin_Next v () nodes hint), s)"
| "Next LeastConn v s nodes hint = (fst (LeastConn_Next v () nodes hint), s)"
| "Next P2C v s nodes hint = (fst (P2C_Next v (draws s) nodes hint), s)"
| "Next PeakEWMA v s nodes hint = (fst (PeakEWMA_Next v () nodes hint), s)"
| "Next ConsistentHash v s nodes hint = (fst (ConsistentHash_Next v (hashRing s) nodes hint), s)"

section \<open>Bounds of the cost\<close>

text \<open>The ranges of a backend's counters, and what a threshold set through \<^const>\<open>SetMaxReplicaLag\<close> is.\<close>

definition sane :: "Backend \<Rightarrow> bool" where
  "sane b \<longleftrightarrow> 0 \<le> bLatency b \<and> bLatency b < 2 ^ 63 \<and> 0 \<le> bRTT b \<and> bRTT b < 2 ^ 63 \<and> 0 \<le> bActive b \<and> bActive b < 2 ^ 63 - 1 \<and>
     bErrorRate b \<le> 1"

definition saneEnv :: "env \<Rightarrow> Backend \<Rightarrow> bool" where
  "saneEnv v b \<longleftrightarrow> 0 < maxReplicaLag v \<and> (\<forall>t. bLastHealthy b = Some t \<longrightarrow> t \<le> clock v)"

lemma effectiveLatency_bounds:
  assumes "sane b"
  shows "0 < effectiveLatency b" "effectiveLatency b \<le> 2 ^ 63"
proof -
  have r: "0 \<le> i \<Longrightarrow> i < 2 ^ 63 \<Longrightarrow> 0 \<le> rat_of_int i \<and> rat_of_int i \<le> 2 ^ 63" for i
    using of_int_le_iff [of i "2 ^ 63", where ?'a = rat] by simp
  note l = r [of "bLatency b"] r [of "bRTT b"]
  show "0 < effectiveLatency b" by (simp add: effectiveLatency_def Let_def)
  show "effectiveLatency b \<le> 2 ^ 63" using l assms unfolding effectiveLatency_def Let_def sane_def by (simp split: if_split)
qed

lemma factors_bounds:
  assumes "sane b" "saneEnv v b"
  shows "1 \<le> zoneFactor zone b" "zoneFactor zone b \<le> 2" "1 \<le> errorFactor b" "errorFactor b \<le> 6"
    "1 \<le> lagFactor v b" "lagFactor v b \<le> 100" "1 \<le> slowStartFactor v b" "slowStartFactor v b \<le> 10"
proof -
  show "1 \<le> zoneFactor zone b" "zoneFactor zone b \<le> 2" by (simp_all add: zoneFactor_def RemoteZonePenalty_def)
  show "1 \<le> errorFactor b" "errorFactor b \<le> 6" using assms(1) by (simp_all add: errorFactor_def sane_def)
  have m: "0 < rat_of_int (maxReplicaLag v)" using assms(2) by (simp add: saneEnv_def)
  define q where "q = rat_of_int (bLag b) / rat_of_int (maxReplicaLag v)"
  have "bLag b \<le> maxReplicaLag v \<Longrightarrow> q \<le> 1" "0 < bLag b \<Longrightarrow> 0 < q" using m by (simp_all add: q_def divide_le_eq_1)
  then show "1 \<le> lagFactor v b" "lagFactor v b \<le> 100"
    unfolding lagFactor_def q_def [symmetric] by (auto simp: not_less)
  have s: "0 \<le> 9 * rat_of_int e / rat_of_int SlowStartDuration \<and> 9 * rat_of_int e / rat_of_int SlowStartDuration \<le> 9"
    if "0 \<le> e" "e < SlowStartDuration" for e
    using that by (simp add: SlowStartDuration_def divide_le_eq)
  show "1 \<le> slowStartFactor v b" "slowStartFactor v b \<le> 10"
    using assms(2) s [of "clock v - _"] unfolding slowStartFactor_def saneEnv_def Let_def
    by (auto split: option.split)
qed

lemma CalculateCost_bounds:
  assumes "sane b" "saneEnv v b"
  shows "0 < CalculateCost v b zone" "CalculateCost v b zone < MaxFloat64"
proof -
  define A where "A = effectiveLatency b * rat_of_int (bActive b + 1) / rat_of_int (max (bWeight b) 1)"
  define F where "F = zoneFactor zone b * errorFactor b * lagFactor v b * slowStartFactor v b"
  have c: "CalculateCost v b zone = A * F" by (simp add: CalculateCost_def A_def F_def)
  have a1: "0 < rat_of_int (bActive b + 1)" "rat_of_int (bActive b + 1) \<le> 2 ^ 63"
    using assms(1) of_int_le_iff [of "bActive b + 1" "2 ^ 63", where ?'a = rat] by (simp_all add: sane_def)
  have w: "1 \<le> rat_of_int (max (bWeight b) 1)" by simp
  note e = effectiveLatency_bounds [OF assms(1)]
  have n: "effectiveLatency b * rat_of_int (bActive b + 1) \<le> 2 ^ 63 * 2 ^ 63"
    using e a1 by (intro mult_mono) auto
  have A: "0 < A" "A \<le> 2 ^ 63 * 2 ^ 63"
    using e(1) a1(1) w n by (auto simp: A_def divide_le_eq intro!: divide_pos_pos order_trans [OF n])
  note f = factors_bounds(1,2) [OF assms, of zone] factors_bounds(3-) [OF assms]
  have g: "0 < zoneFactor zone b" "0 < errorFactor b" "0 < lagFactor v b" "0 < slowStartFactor v b" using f by linarith+
  have "zoneFactor zone b * errorFactor b \<le> 2 * 6" using f g by (intro mult_mono) auto
  then have "zoneFactor zone b * errorFactor b * lagFactor v b \<le> 2 * 6 * 100" using f g by (intro mult_mono) auto
  then have "F \<le> 2 * 6 * 100 * 10" unfolding F_def using f g by (intro mult_mono) auto
  moreover have "0 < F" using g by (simp add: F_def)
  ultimately have F: "0 < F" "F \<le> 2 * 6 * 100 * 10" by auto
  show "0 < CalculateCost v b zone" using A(1) F(1) by (simp add: c)
  have "A * F \<le> 2 ^ 63 * 2 ^ 63 * (2 * 6 * 100 * 10)" using A F by (intro mult_mono) auto
  also have "\<dots> < MaxFloat64" by (simp add: MaxFloat64_def)
  finally show "CalculateCost v b zone < MaxFloat64" by (simp add: c)
qed

section \<open>What the loops return\<close>

lemma leastLoop_result:
  "leastLoop m best bs = Some b \<Longrightarrow> best = Some b \<or> b \<in> set bs"
  "leastLoop m best bs = None \<longleftrightarrow> best = None \<and> (\<forall>b\<in>set bs. m \<le> bActive b)"
proof -
  show "leastLoop m best bs = Some b \<Longrightarrow> best = Some b \<or> b \<in> set bs"
    by (induction m best bs rule: leastLoop.induct) (auto split: if_splits)
  show "leastLoop m best bs = None \<longleftrightarrow> best = None \<and> (\<forall>b\<in>set bs. m \<le> bActive b)"
    by (induction m best bs rule: leastLoop.induct) auto
qed

lemma ewmaLoop_result:
  "ewmaLoop v zone m best bs = Some b \<Longrightarrow> best = Some b \<or> b \<in> set bs"
  "ewmaLoop v zone m best bs = None \<longleftrightarrow> best = None \<and> (\<forall>b\<in>set bs. CalculateCost v b zone \<noteq> 0 \<and> m \<le> CalculateCost v b zone)"
proof -
  show "ewmaLoop v zone m best bs = Some b \<Longrightarrow> best = Some b \<or> b \<in> set bs"
    by (induction v zone m best bs rule: ewmaLoop.induct) (auto simp: Let_def split: if_splits)
  show "ewmaLoop v zone m best bs = None \<longleftrightarrow> best = None \<and> (\<forall>b\<in>set bs. CalculateCost v b zone \<noteq> 0 \<and> m \<le> CalculateCost v b zone)"
    by (induction v zone m best bs rule: ewmaLoop.induct) (auto simp: Let_def)
qed

lemma cheapestLoop_result:
  "cheapestLoop v zone m best bs = Some b \<Longrightarrow> best = Some b \<or> b \<in> set bs"
  "cheapestLoop v zone m best bs = None \<longleftrightarrow> best = None \<and> (bs = [] \<or> 0 \<le> m \<and> (\<forall>b\<in>set bs. m \<le> CalculateCost v b zone))"
proof -
  show "cheapestLoop v zone m best bs = Some b \<Longrightarrow> best = Some b \<or> b \<in> set bs"
    by (induction v zone m best bs rule: cheapestLoop.induct) (auto simp: Let_def split: if_splits)
  show "cheapestLoop v zone m best bs = None \<longleftrightarrow> best = None \<and> (bs = [] \<or> 0 \<le> m \<and> (\<forall>b\<in>set bs. m \<le> CalculateCost v b zone))"
    by (induction v zone m best bs rule: cheapestLoop.induct) (auto simp: Let_def not_less)
qed

lemma walkRing_member: "walkRing ring targets idx k = Some b \<Longrightarrow> b \<in> set targets"
  by (induction ring targets idx k rule: walkRing.induct) (auto simp: Let_def split: if_splits)

lemma bestPrimary_result:
  "bestPrimary v zone best nodes = Some b \<Longrightarrow> best = Some b \<or> b \<in> set nodes \<and> available RolePrimary b"
  "bestPrimary v zone best nodes = None \<longleftrightarrow> best = None \<and> (\<forall>n\<in>set nodes. \<not> available RolePrimary n)"
proof -
  show "bestPrimary v zone best nodes = Some b \<Longrightarrow> best = Some b \<or> b \<in> set nodes \<and> available RolePrimary b"
    by (induction v zone best nodes rule: bestPrimary.induct) (auto split: if_splits)
  show "bestPrimary v zone best nodes = None \<longleftrightarrow> best = None \<and> (\<forall>n\<in>set nodes. \<not> available RolePrimary n)"
    by (induction v zone best nodes rule: bestPrimary.induct) (auto split: option.splits)
qed

section \<open>What every strategy promises\<close>

text \<open>The targets a request may go to.\<close>

definition rightTarget :: "env \<Rightarrow> Backend list \<Rightarrow> Hint \<Rightarrow> Backend \<Rightarrow> bool" where
  "rightTarget v nodes hint b \<longleftrightarrow>
     b \<in> set nodes \<and> bHealthy b \<and> \<not> bDraining b \<and>
     (\<not> hReadOnly hint \<longrightarrow> bRole b = RolePrimary \<or> AcceptReplica hint \<and> (\<forall>n\<in>set nodes. \<not> available RolePrimary n)) \<and>
     (hReadOnly hint \<and> (\<exists>n\<in>set nodes. available RoleReplica n) \<longrightarrow> bRole b = RoleReplica) \<and>
     (bRole b = RoleReplica \<and> (\<exists>n\<in>set nodes. freshReplica v n) \<longrightarrow> freshReplica v b)"

definition noTarget :: "Backend list \<Rightarrow> Hint \<Rightarrow> bool" where
  "noTarget nodes hint \<longleftrightarrow> (\<forall>n\<in>set nodes. \<not> available RolePrimary n) \<and>
     (hReadOnly hint \<or> AcceptReplica hint \<longrightarrow> (\<forall>n\<in>set nodes. \<not> available RoleReplica n))"

lemma freshReplica_available: "freshReplica v n \<Longrightarrow> available RoleReplica n"
  by (simp add: freshReplica_def)

lemma appendReplicas_result:
  "b \<in> set (appendReplicas v [] nodes) \<longleftrightarrow>
     b \<in> set nodes \<and> available RoleReplica b \<and> ((\<exists>n\<in>set nodes. freshReplica v n) \<longrightarrow> freshReplica v b)"
  using freshReplica_available
  by (auto simp: appendReplicas_def Let_def filter_empty_conv)

lemma appendReplicas_none: "appendReplicas v [] nodes = [] \<longleftrightarrow> (\<forall>n\<in>set nodes. \<not> available RoleReplica n)"
  using freshReplica_available by (auto simp: appendReplicas_def Let_def filter_empty_conv)

lemma FilterNodes_right:
  assumes "b \<in> set (FilterNodes v nodes hint)"
  shows "rightTarget v nodes hint b"
proof -
  consider (replica) "b \<in> set (appendReplicas v [] nodes)" "hReadOnly hint \<or> AcceptReplica hint \<and> (\<forall>n\<in>set nodes. \<not> available RolePrimary n)"
    | (primary) "b \<in> set nodes" "available RolePrimary b" "hReadOnly hint \<longrightarrow> (\<forall>n\<in>set nodes. \<not> available RoleReplica n)"
  proof (cases "hReadOnly hint")
    case True
    then show ?thesis using assms that appendReplicas_none [of v nodes] by (auto simp: FilterNodes_def Let_def split: if_splits)
  next
    case False
    then show ?thesis using assms that bestPrimary_result [of v "CallerZone hint" None nodes]
      by (cases "bestPrimary v (CallerZone hint) None nodes") (auto simp: FilterNodes_def split: if_splits)
  qed
  then show ?thesis
  proof cases
    case replica
    then show ?thesis by (auto simp: appendReplicas_result rightTarget_def available_def)
  next
    case primary
    then show ?thesis by (auto simp: rightTarget_def available_def)
  qed
qed

lemma FilterNodes_none: "FilterNodes v nodes hint = [] \<longleftrightarrow> noTarget nodes hint"
  using bestPrimary_result(2) [of v "CallerZone hint" None nodes] appendReplicas_none [of v nodes]
  by (auto simp: FilterNodes_def noTarget_def Let_def filter_empty_conv split: option.splits)

lemma FilterNodes_Nil [simp]: "FilterNodes v [] hint = []"
  by (simp add: FilterNodes_none noTarget_def)

locale balancing =
  fixes nxt :: "env \<Rightarrow> 's \<Rightarrow> Backend list \<Rightarrow> Hint \<Rightarrow> Backend option \<times> 's"
    and valid :: "'s \<Rightarrow> bool"
  assumes picks: "valid s \<Longrightarrow> fst (nxt v s nodes hint) = Some b \<Longrightarrow> b \<in> set (FilterNodes v nodes hint)"
    and refuses: "valid s \<Longrightarrow> \<forall>n\<in>set nodes. sane n \<and> saneEnv v n \<Longrightarrow> fst (nxt v s nodes hint) = None \<Longrightarrow>
      FilterNodes v nodes hint = []"
    and stays_valid: "valid s \<Longrightarrow> valid (snd (nxt v s nodes hint))"
begin

lemma routes:
  assumes "valid s" "\<forall>n\<in>set nodes. sane n \<and> saneEnv v n"
  shows "case fst (nxt v s nodes hint) of None \<Rightarrow> noTarget nodes hint | Some b \<Rightarrow> rightTarget v nodes hint b"
  using picks [OF assms(1), of v nodes hint] refuses [OF assms] FilterNodes_right FilterNodes_none [of v nodes hint]
  by (auto split: option.split)

end

lemma FilterNodes_subset: "b \<in> set (FilterNodes v nodes hint) \<Longrightarrow> b \<in> set nodes"
  using FilterNodes_right by (simp add: rightTarget_def)

lemma no_sane_target:
  assumes "\<forall>n\<in>set nodes. sane n \<and> saneEnv v n"
    and "FilterNodes v nodes hint = [] \<or> (\<forall>b\<in>set (FilterNodes v nodes hint). \<not> (sane b \<and> saneEnv v b))"
  shows "FilterNodes v nodes hint = []"
  using assms FilterNodes_subset [of "hd (FilterNodes v nodes hint)" v nodes hint]
  by (cases "FilterNodes v nodes hint") auto

interpretation round_robin: balancing RoundRobin_Next "\<lambda>_. True"
  by unfold_locales (auto simp: RoundRobin_Next_def Let_def split: if_splits)

interpretation least_conn: balancing LeastConn_Next "\<lambda>_. True"
proof
  fix v nodes hint and s :: unit
  assume n: "\<forall>n\<in>set nodes. sane n \<and> saneEnv v n" and r: "fst (LeastConn_Next v s nodes hint) = None"
  then have "FilterNodes v nodes hint = [] \<or> (\<forall>b\<in>set (FilterNodes v nodes hint). 2 ^ 63 - 1 \<le> bActive b)"
    by (auto simp: LeastConn_Next_def Let_def leastLoop_result(2) split: if_splits)
  then have "FilterNodes v nodes hint = [] \<or> (\<forall>b\<in>set (FilterNodes v nodes hint). \<not> (sane b \<and> saneEnv v b))"
    by (auto simp: sane_def)
  then show "FilterNodes v nodes hint = []" by (rule no_sane_target [OF n])
next
  fix v nodes hint b and s :: unit
  assume "fst (LeastConn_Next v s nodes hint) = Some b"
  then have "leastLoop (2 ^ 63 - 1) None (FilterNodes v nodes hint) = Some b"
    by (simp add: LeastConn_Next_def Let_def split: if_splits)
  from leastLoop_result(1) [OF this] show "b \<in> set (FilterNodes v nodes hint)" by simp
qed simp

interpretation p2c: balancing P2C_Next "\<lambda>d. \<forall>n>0. fst d n < n \<and> snd d n < n"
proof
  fix v nodes hint b and d :: "(nat \<Rightarrow> nat) \<times> (nat \<Rightarrow> nat)"
  assume d: "\<forall>n>0. fst d n < n \<and> snd d n < n" and r: "fst (P2C_Next v d nodes hint) = Some b"
  let ?t = "FilterNodes v nodes hint"
  have "?t \<noteq> [] \<Longrightarrow> length ?t \<noteq> Suc 0 \<Longrightarrow> fst d (length ?t) < length ?t \<and> Suc (snd d (length ?t - Suc 0)) < length ?t"
    using d [rule_format, of "length ?t"] d [rule_format, of "length ?t - Suc 0"] by (cases ?t) auto
  then show "b \<in> set ?t" using r unfolding P2C_Next_def Let_def by (auto split: if_splits intro!: nth_mem)
qed (simp_all add: P2C_Next_def Let_def split: if_splits)

interpretation peak_ewma: balancing PeakEWMA_Next "\<lambda>_. True"
proof
  fix v nodes hint and s :: unit
  assume n: "\<forall>n\<in>set nodes. sane n \<and> saneEnv v n" and r: "fst (PeakEWMA_Next v s nodes hint) = None"
  then have "FilterNodes v nodes hint = [] \<or> (\<forall>b\<in>set (FilterNodes v nodes hint). MaxFloat64 \<le> CalculateCost v b (CallerZone hint))"
    by (auto simp: PeakEWMA_Next_def Let_def ewmaLoop_result(2) split: if_splits)
  then have "FilterNodes v nodes hint = [] \<or> (\<forall>b\<in>set (FilterNodes v nodes hint). \<not> (sane b \<and> saneEnv v b))"
    using CalculateCost_bounds(2) by (auto simp: not_less [symmetric])
  then show "FilterNodes v nodes hint = []" by (rule no_sane_target [OF n])
next
  fix v nodes hint b and s :: unit
  assume "fst (PeakEWMA_Next v s nodes hint) = Some b"
  then have "ewmaLoop v (CallerZone hint) MaxFloat64 None (FilterNodes v nodes hint) = Some b"
    by (simp add: PeakEWMA_Next_def Let_def split: if_splits)
  from ewmaLoop_result(1) [OF this] show "b \<in> set (FilterNodes v nodes hint)" by simp
qed simp

interpretation weighted_round_robin: balancing WeightedRoundRobin_Next "\<lambda>_. True"
  by unfold_locales (auto simp: WeightedRoundRobin_Next_def Let_def cheapestLoop_result(2) dest: cheapestLoop_result(1) split: if_splits)

interpretation consistent_hash: balancing ConsistentHash_Next "\<lambda>_. True"
  by unfold_locales (auto simp: ConsistentHash_Next_def Let_def cheapestLoop_result(2)
      dest: cheapestLoop_result(1) walkRing_member split: if_splits option.splits)

section \<open>Properties\<close>

lemma Next_routes:
  assumes "\<forall>n\<in>set nodes. sane n \<and> saneEnv v n" "\<forall>n>0. fst (draws s) n < n \<and> snd (draws s) n < n"
  shows "case fst (Next strat v s nodes hint) of None \<Rightarrow> noTarget nodes hint | Some b \<Rightarrow> rightTarget v nodes hint b"
  using round_robin.routes [OF _ assms(1)] weighted_round_robin.routes [OF _ assms(1)] least_conn.routes [OF _ assms(1)]
    p2c.routes [OF assms(2,1)] peak_ewma.routes [OF _ assms(1)] consistent_hash.routes [OF _ assms(1)]
  by (cases strat) (simp_all add: case_prod_unfold)

text \<open>
  C16.  Every strategy routes by role.  Whatever the strategy, a backend it returns is one of the
  configured ones, healthy and not draining; a statement that may write goes to a primary,
  never to a replica (a startup connection may, when there is no primary); a read goes to a
  replica whenever one is available, and to one that is streaming within the lag threshold
  whenever there is such a one; and it returns nothing only if there is nothing to return.
\<close>

theorem routing_by_role:
  assumes "\<forall>n\<in>set nodes. sane n \<and> saneEnv v n" "\<forall>n>0. fst (draws s) n < n \<and> snd (draws s) n < n"
  shows "case fst (Next strat v s nodes hint) of
      None \<Rightarrow> noTarget nodes hint
    | Some b \<Rightarrow> rightTarget v nodes hint b"
  by (rule Next_routes [OF assms])

definition exNode :: "bytes \<Rightarrow> Role \<Rightarrow> Backend" where
  "exNode a r = \<lparr>bAddress = a, bRole = r, bHealthy = True, bDraining = False, bReplicating = True, bLag = 0, bLatency = 0,
     bRTT = 0, bActive = 0, bWeight = 1, bZone = [], bErrorRate = 0, bLastHealthy = None\<rparr>"

definition exEnv0 :: env where "exEnv0 = \<lparr>maxReplicaLag = DefaultMaxReplicaLag, clock = 0\<rparr>"

definition exBalancer :: balancer where
  "exBalancer = \<lparr>rrIndex = 0, draws = (\<lambda>_. 0, \<lambda>_. 0), hashRing = []\<rparr>"

abbreviation exHint :: "bool \<Rightarrow> Hint" where
  "exHint ro \<equiv> \<lparr>hReadOnly = ro, AcceptReplica = False, hKey = [], CallerZone = []\<rparr>"

lemma exNode_sane: "sane (exNode a r) \<and> saneEnv exEnv0 (exNode a r)"
  by (simp add: sane_def saneEnv_def exNode_def exEnv0_def DefaultMaxReplicaLag_def)

theorem routing_by_role_witness:
  "let nodes = [exNode ''p'' RolePrimary, exNode ''r'' RoleReplica]
   in fst (Next RoundRobin exEnv0 exBalancer nodes (exHint True)) = Some (exNode ''r'' RoleReplica) \<and>
      rightTarget exEnv0 nodes (exHint True) (exNode ''r'' RoleReplica)"
proof -
  let ?nodes = "[exNode ''p'' RolePrimary, exNode ''r'' RoleReplica]"
  have "fst (Next RoundRobin exEnv0 exBalancer ?nodes (exHint True)) = Some (exNode ''r'' RoleReplica)"
    by (simp add: RoundRobin_Next_def FilterNodes_def appendReplicas_def freshReplica_def available_def exNode_def exEnv0_def
        DefaultMaxReplicaLag_def)
  with routing_by_role [of ?nodes exEnv0 exBalancer "exHint True" RoundRobin] exNode_sane show ?thesis
    by (simp add: exBalancer_def)
qed

text \<open>The backends that \<open>k\<close> calls in a row return.\<close>

fun calls :: "env \<Rightarrow> 64 word \<Rightarrow> Backend list \<Rightarrow> Hint \<Rightarrow> nat \<Rightarrow> Backend option list" where
  "calls v i nodes hint 0 = []"
| "calls v i nodes hint (Suc k) =
     (case RoundRobin_Next v i nodes hint of (b, i') \<Rightarrow> b # calls v i' nodes hint k)"

lemma calls_targets:
  assumes "FilterNodes v nodes hint \<noteq> []" "unat i + k < 2 ^ 64"
  shows "calls v i nodes hint k = map (\<lambda>j. Some (FilterNodes v nodes hint ! ((unat i + 1 + j) mod length (FilterNodes v nodes hint)))) [0..<k]"
  using assms(2)
proof (induction k arbitrary: i)
  case (Suc k)
  have n: "nodes \<noteq> []" using assms(1) by auto
  have u: "unat (i + 1) = unat i + 1"
    using Suc.prems by (subst unat_add_lem [THEN iffD1]) (simp_all)
  have "unat (i + 1) + k < 2 ^ 64" using Suc.prems u by simp
  from Suc.IH [OF this] show ?case
    using assms(1) n by (simp add: RoundRobin_Next_def Let_def u upt_conv_Cons map_Suc_upt [symmetric] del: upt_Suc)
qed simp

lemma rounds_equal:
  assumes "t \<noteq> []"
  shows "mset (map (\<lambda>j. t ! ((a + j) mod length t)) [0..<length t * k]) = repeat_mset k (mset t)"
proof (induction k)
  case (Suc k)
  have s: "[0..<length t * Suc k] = [0..<length t * k] @ map (\<lambda>j. length t * k + j) [0..<length t]"
    using upt_add_eq_append [of 0 "length t * k" "length t"] map_add_upt [of "length t * k" "length t"]
    by (simp add: algebra_simps)
  have "map (\<lambda>j. t ! ((a + (length t * k + j)) mod length t)) [0..<length t] = rotate a t"
  proof (rule nth_equalityI)
    fix j assume "j < length (map (\<lambda>j. t ! ((a + (length t * k + j)) mod length t)) [0..<length t])"
    moreover have "(a + (length t * k + j)) mod length t = (a + j) mod length t"
      by (metis add.left_commute mod_mult_self4 mult.commute)
    ultimately show "map (\<lambda>j. t ! ((a + (length t * k + j)) mod length t)) [0..<length t] ! j = rotate a t ! j"
      by (simp add: nth_rotate)
  qed simp
  then have "mset (map (\<lambda>j. t ! ((a + (length t * k + j)) mod length t)) [0..<length t]) = mset t"
    by (metis rotate_drop_take mset_append union_commute append_take_drop_id)
  with Suc.IH show ?case unfolding s by (simp add: comp_def)
qed simp

text \<open>
  C28.  Round-robin is fair: as long as the set of targets does not change and the counter does not
  wrap around, any \<open>k\<close> times as many calls as there are targets return each target exactly
  \<open>k\<close> times, wherever the counter stood.
\<close>

theorem round_robin_fair:
  assumes "FilterNodes v nodes hint \<noteq> []" "unat i + length (FilterNodes v nodes hint) * k < 2 ^ 64"
  shows "mset (calls v i nodes hint (length (FilterNodes v nodes hint) * k)) =
    repeat_mset k (mset (map Some (FilterNodes v nodes hint)))"
proof -
  let ?t = "FilterNodes v nodes hint"
  have "calls v i nodes hint (length ?t * k) = map Some (map (\<lambda>j. ?t ! ((unat i + 1 + j) mod length ?t)) [0..<length ?t * k])"
    using calls_targets [OF assms] by simp
  then have "mset (calls v i nodes hint (length ?t * k)) = image_mset Some (repeat_mset k (mset ?t))"
    using rounds_equal [OF assms(1), of "unat i + 1" k] by (simp only: mset_map)
  also have "\<dots> = repeat_mset k (mset (map Some ?t))" by (induction k) simp_all
  finally show ?thesis .
qed

theorem round_robin_fair_witness:
  "let nodes = [exNode ''a'' RoleReplica, exNode ''b'' RoleReplica]
   in mset (calls exEnv0 7 nodes (exHint True) 4) = repeat_mset 2 (mset (map Some nodes))"
proof -
  let ?nodes = "[exNode ''a'' RoleReplica, exNode ''b'' RoleReplica]"
  have f: "FilterNodes exEnv0 ?nodes (exHint True) = ?nodes"
    by (simp add: FilterNodes_def appendReplicas_def freshReplica_def available_def exNode_def exEnv0_def DefaultMaxReplicaLag_def)
  from round_robin_fair [of exEnv0 ?nodes "exHint True" 7 2] show ?thesis unfolding f Let_def by simp
qed

text \<open>
  The counter is shared by reads and writes.  With two replicas and a write after every read the
  reads see every other value of it, and all of them go to the same replica.
\<close>

lemma alternation_starves:
  assumes "FilterNodes v nodes reads = [a, b]" "FilterNodes v nodes writes = [p]" "nodes \<noteq> []"
  shows "snd (RoundRobin_Next v (snd (RoundRobin_Next v i nodes reads)) nodes writes) = i + 2"
    and "fst (RoundRobin_Next v (i + 2) nodes reads) = fst (RoundRobin_Next v i nodes reads)"
proof -
  show "snd (RoundRobin_Next v (snd (RoundRobin_Next v i nodes reads)) nodes writes) = i + 2"
    using assms by (simp add: RoundRobin_Next_def Let_def)
  have e: "unat (x + 2) mod 2 = unat x mod 2" for x :: "64 word"
  proof -
    have "unat (x + 2) = (unat x + 2) mod 2 ^ 64" by (simp add: unat_word_ariths)
    then show ?thesis by (simp add: mod_mod_cancel)
  qed
  show "fst (RoundRobin_Next v (i + 2) nodes reads) = fst (RoundRobin_Next v i nodes reads)"
    using assms e [of "i + 1"] by (simp add: RoundRobin_Next_def Let_def numeral_2_eq_2 [symmetric] add.commute add.left_commute)
qed

section \<open>Keys stay where they are\<close>

lemma searchLoop_first:
  assumes "\<And>a b. a \<le> b \<Longrightarrow> b < n \<Longrightarrow> f a \<Longrightarrow> f b" "i \<le> j" "j \<le> n" "\<forall>k<i. \<not> f k" "\<forall>k. j \<le> k \<and> k < n \<longrightarrow> f k"
  shows "searchLoop f i j \<le> n \<and> (\<forall>k < searchLoop f i j. \<not> f k) \<and> (\<forall>k. searchLoop f i j \<le> k \<and> k < n \<longrightarrow> f k)"
  using assms(2-5)
proof (induction "j - i" arbitrary: i j rule: less_induct)
  case less
  show ?case
  proof (cases "i < j")
    case True
    define h where "h = (i + j) div 2"
    have h: "i \<le> h" "h < j" "h < n" using True less.prems(2) by (auto simp: h_def)
    show ?thesis
    proof (cases "f h")
      case f: True
      then have u: "\<forall>k. h \<le> k \<and> k < n \<longrightarrow> f k" using assms(1) by blast
      have "searchLoop f i j = searchLoop f i h" using True f by (simp add: searchLoop.simps [of f i j] h_def)
      moreover have "h - i < j - i" using h by linarith
      ultimately show ?thesis using less.hyps [of h i] h u less.prems(3) by simp
    next
      case f: False
      have "\<not> f k" if "k < h + 1" for k
      proof
        assume "f k"
        with assms(1) [of k h] that h(3) f show False by simp
      qed
      then have u: "\<forall>k<h + 1. \<not> f k" by blast
      have "searchLoop f i j = searchLoop f (h + 1) j" using True f by (simp add: searchLoop.simps [of f i j] h_def)
      moreover have "j - (h + 1) < j - i" using h True by linarith
      ultimately show ?thesis using less.hyps [of j "h + 1"] h u less.prems(2,4) by simp
    qed
  next
    case False
    then show ?thesis using less.prems by (simp add: searchLoop.simps)
  qed
qed

text \<open>The ring in the order it is walked for a key: clockwise from the key's hash.\<close>

definition clockwise :: "32 word \<Rightarrow> nodeHash list \<Rightarrow> nodeHash list" where
  "clockwise k ring = filter (\<lambda>e. k \<le> fst e) ring @ filter (\<lambda>e. \<not> k \<le> fst e) ring"

lemma walkRing_find:
  assumes "idx < length ring"
  shows "walkRing ring targets idx k =
    List.find (\<lambda>b. b \<in> set targets) (map (\<lambda>j. snd (ring ! ((idx + j) mod length ring))) [0..<k])"
  using assms
proof (induction k arbitrary: idx)
  case (Suc k)
  have "(idx + 1) mod length ring < length ring" using Suc.prems by (intro mod_less_divisor) linarith
  from Suc.IH [OF this] have "walkRing ring targets ((idx + 1) mod length ring) k =
      List.find (\<lambda>b. b \<in> set targets) (map (\<lambda>j. snd (ring ! ((idx + 1 + j) mod length ring))) [0..<k])"
    by (simp add: mod_simps)
  with Suc.prems show ?case
    by (simp add: upt_conv_Cons map_Suc_upt [symmetric] Let_def comp_def del: upt_Suc)
qed simp

lemma walkRing_clockwise:
  assumes "sorted (map fst ring)" "ring \<noteq> []"
    and "found = searchLoop (\<lambda>i. fst (ring ! i) \<ge> k) 0 (length ring)" "idx = (if found = length ring then 0 else found)"
  shows "walkRing ring targets idx (length ring) = List.find (\<lambda>b. b \<in> set targets) (map snd (clockwise k ring))"
proof -
  have m: "a \<le> b \<Longrightarrow> b < length ring \<Longrightarrow> fst (ring ! a) \<le> fst (ring ! b)" for a b
    using sorted_nth_mono [OF assms(1), of a b] by simp
  have "k \<le> fst (ring ! a) \<Longrightarrow> k \<le> fst (ring ! b)" if "a \<le> b" "b < length ring" for a b
    using order_trans [OF _ m [OF that]] .
  note mono = this
  have s: "searchLoop (\<lambda>i. fst (ring ! i) \<ge> k) 0 (length ring) \<le> length ring \<and>
      (\<forall>i < searchLoop (\<lambda>i. fst (ring ! i) \<ge> k) 0 (length ring). \<not> k \<le> fst (ring ! i)) \<and>
      (\<forall>i. searchLoop (\<lambda>i. fst (ring ! i) \<ge> k) 0 (length ring) \<le> i \<and> i < length ring \<longrightarrow> k \<le> fst (ring ! i))"
    by (intro searchLoop_first) (erule (2) mono, auto)
  have f: "found \<le> length ring" "\<forall>i<found. \<not> k \<le> fst (ring ! i)" "\<forall>i. found \<le> i \<and> i < length ring \<longrightarrow> k \<le> fst (ring ! i)"
    using s unfolding assms(3) by blast+
  have "\<forall>e\<in>set (take found ring). \<not> k \<le> fst e" "\<forall>e\<in>set (drop found ring). k \<le> fst e"
    unfolding all_set_conv_all_nth using f by simp_all
  then have "clockwise k (take found ring @ drop found ring) = drop found ring @ take found ring"
    unfolding clockwise_def filter_append by (simp add: filter_id_conv filter_empty_conv)
  then have c: "clockwise k ring = rotate idx ring"
    using f(1) assms(4) by (auto simp: rotate_drop_take)
  have i: "idx < length ring" using f(1) assms(2,4) by auto
  have "map (\<lambda>j. snd (ring ! ((idx + j) mod length ring))) [0..<length ring] = map snd (rotate idx ring)"
    by (rule nth_equalityI) (simp_all add: nth_rotate)
  with walkRing_find [OF i, of targets "length ring"] show ?thesis unfolding c by simp
qed

lemma clockwise_filter: "clockwise k (filter P ring) = filter P (clockwise k ring)"
  by (simp add: clockwise_def conj_commute)

lemma find_filter: "\<forall>x. Q x \<longrightarrow> P x \<Longrightarrow> List.find Q (filter P xs) = List.find Q xs"
  by (induction xs) auto

lemma find_stable: "List.find Q xs = Some b \<Longrightarrow> Q' b \<Longrightarrow> \<forall>x. Q' x \<longrightarrow> Q x \<Longrightarrow> List.find Q' xs = Some b"
  by (induction xs) (auto split: if_splits)



end
