(* ===== verification/Failover.thy ===== *)
theory Failover
  imports Balancer
begin

text \<open>
  Waiting for a primary: \<^verbatim>\<open>acquire\<close>, \<^verbatim>\<open>waitWhilePaused\<close>, \<^verbatim>\<open>wakePaused\<close>, \<^verbatim>\<open>resolveFailover\<close>,
  \<^verbatim>\<open>triggerFailover\<close> and \<^verbatim>\<open>drain\<close> of \<^verbatim>\<open>gateway.go\<close>.

  The pause is a step relation over any number of waiting writers, the goroutine that watches
  each writer's context, and the goroutines that resolve a failover, with the read-write lock
  they share.  The lemmas show that no wakeup is lost, that a writer whose wait is over can
  always return, that \<^verbatim>\<open>acquire\<close> makes at most three attempts, and that a connection it gets for
  a write is one to a primary.
\<close>

section \<open>The pause\<close>

text \<open>
  Where a writer is in \<^verbatim>\<open>waitWhilePaused\<close>: before the first look at the flag; about to take the
  read lock; in the loop with the read lock, before and after the decision to wait; registered
  with the condition and asleep; woken and about to take the read lock again; returned.
\<close>

datatype wait_pc = Arriving | Locking | Checking | Parking | Parked | Woken | Proceeds | GaveUp

text \<open>Its goroutine: not started, waiting for the context, wanting and having the write lock, finished.\<close>

datatype waker_pc = NoWaker | Watching | WWants | WHolding | WDone

text \<open>A goroutine of \<^verbatim>\<open>triggerFailover\<close>: the failover still on, then \<^verbatim>\<open>resolveFailover\<close> step by step.\<close>

datatype resolver_pc = RIdle | RWaiting | RHolding | RStored | RDone

datatype lock_owner = Resolver nat | Waker nat

record pause =
  inFailover :: bool
  wlock :: "lock_owner option"
  waiting :: "nat \<Rightarrow> wait_pc"
  wakers :: "nat \<Rightarrow> waker_pc"
  expired :: "nat \<Rightarrow> bool"
  resolvers :: "nat \<Rightarrow> resolver_pc"

definition pauseStart :: pause where
  "pauseStart = \<lparr>inFailover = False, wlock = None, waiting = (\<lambda>_. Arriving), wakers = (\<lambda>_. NoWaker),
     expired = (\<lambda>_. False), resolvers = (\<lambda>_. RIdle)\<rparr>"

definition readLocked :: "wait_pc \<Rightarrow> bool" where "readLocked p \<longleftrightarrow> p = Checking \<or> p = Parking"

definition wakeAll :: "pause \<Rightarrow> pause" where
  "wakeAll g = g\<lparr>waiting := (\<lambda>i. if waiting g i = Parked then Woken else waiting g i), wlock := None\<rparr>"

definition writeLockFree :: "pause \<Rightarrow> bool" where
  "writeLockFree g \<longleftrightarrow> wlock g = None \<and> (\<forall>i. \<not> readLocked (waiting g i))"

inductive pause_step :: "pause \<Rightarrow> pause \<Rightarrow> bool" where
  notPaused: "waiting g i = Arriving \<Longrightarrow> \<not> inFailover g \<Longrightarrow> pause_step g (g\<lparr>waiting := (waiting g)(i := Proceeds)\<rparr>)"
| arrive: "waiting g i = Arriving \<Longrightarrow> inFailover g \<Longrightarrow>
    pause_step g (g\<lparr>waiting := (waiting g)(i := Locking), wakers := (wakers g)(i := Watching)\<rparr>)"
| rlock: "waiting g i = Locking \<Longrightarrow> wlock g = None \<Longrightarrow> pause_step g (g\<lparr>waiting := (waiting g)(i := Checking)\<rparr>)"
| proceed: "waiting g i = Checking \<Longrightarrow> \<not> inFailover g \<Longrightarrow> pause_step g (g\<lparr>waiting := (waiting g)(i := Proceeds)\<rparr>)"
| giveUp: "waiting g i = Checking \<Longrightarrow> inFailover g \<Longrightarrow> expired g i \<Longrightarrow>
    pause_step g (g\<lparr>waiting := (waiting g)(i := GaveUp)\<rparr>)"
| decide: "waiting g i = Checking \<Longrightarrow> inFailover g \<Longrightarrow> \<not> expired g i \<Longrightarrow>
    pause_step g (g\<lparr>waiting := (waiting g)(i := Parking)\<rparr>)"
| park: "waiting g i = Parking \<Longrightarrow> pause_step g (g\<lparr>waiting := (waiting g)(i := Parked)\<rparr>)"
| relock: "waiting g i = Woken \<Longrightarrow> wlock g = None \<Longrightarrow> pause_step g (g\<lparr>waiting := (waiting g)(i := Checking)\<rparr>)"
| expire: "pause_step g (g\<lparr>expired := (expired g)(i := True)\<rparr>)"
| wakerFires: "wakers g i = Watching \<Longrightarrow> expired g i \<Longrightarrow> pause_step g (g\<lparr>wakers := (wakers g)(i := WWants)\<rparr>)"
| wakerEnds: "wakers g i = Watching \<Longrightarrow> waiting g i = Proceeds \<or> waiting g i = GaveUp \<Longrightarrow>
    pause_step g (g\<lparr>wakers := (wakers g)(i := WDone)\<rparr>)"
| wakerLocks: "wakers g i = WWants \<Longrightarrow> writeLockFree g \<Longrightarrow>
    pause_step g (g\<lparr>wakers := (wakers g)(i := WHolding), wlock := Some (Waker i)\<rparr>)"
| wakerBroadcasts: "wakers g i = WHolding \<Longrightarrow> pause_step g ((wakeAll g)\<lparr>wakers := (wakers g)(i := WDone)\<rparr>)"
| trigger: "\<not> inFailover g \<Longrightarrow> resolvers g r = RIdle \<Longrightarrow>
    pause_step g (g\<lparr>inFailover := True, resolvers := (resolvers g)(r := RWaiting)\<rparr>)"
| resolverLocks: "resolvers g r = RWaiting \<Longrightarrow> writeLockFree g \<Longrightarrow>
    pause_step g (g\<lparr>resolvers := (resolvers g)(r := RHolding), wlock := Some (Resolver r)\<rparr>)"
| resolverStores: "resolvers g r = RHolding \<Longrightarrow>
    pause_step g (g\<lparr>inFailover := False, resolvers := (resolvers g)(r := RStored)\<rparr>)"
| resolverBroadcasts: "resolvers g r = RStored \<Longrightarrow>
    pause_step g ((wakeAll g)\<lparr>resolvers := (resolvers g)(r := RDone)\<rparr>)"

inductive pause_reach :: "pause \<Rightarrow> bool" where
  start: "pause_reach pauseStart"
| step: "pause_reach g \<Longrightarrow> pause_step g g' \<Longrightarrow> pause_reach g'"

inductive_cases pause_stepE: "pause_step g g'"

text \<open>The write lock has one owner and excludes the readers.\<close>

definition lock_inv :: "pause \<Rightarrow> bool" where
  "lock_inv g \<longleftrightarrow>
     (\<forall>r. wlock g = Some (Resolver r) \<longleftrightarrow> resolvers g r = RHolding \<or> resolvers g r = RStored) \<and>
     (\<forall>i. wlock g = Some (Waker i) \<longleftrightarrow> wakers g i = WHolding) \<and>
     (wlock g \<noteq> None \<longrightarrow> (\<forall>i. \<not> readLocked (waiting g i))) \<and>
     (\<forall>i. waiting g i = Arriving \<longrightarrow> wakers g i = NoWaker)"

definition unresolved :: "resolver_pc \<Rightarrow> bool" where "unresolved p \<longleftrightarrow> p = RWaiting \<or> p = RHolding"

text \<open>
  The flag is up exactly while one goroutine has still to take it down; whoever has decided to
  wait did so while it was up; and whoever sleeps while it is down is about to be woken.
\<close>

definition flag_inv :: "pause \<Rightarrow> bool" where
  "flag_inv g \<longleftrightarrow>
     (inFailover g \<longleftrightarrow> (\<exists>r. unresolved (resolvers g r))) \<and>
     (\<forall>r r'. unresolved (resolvers g r) \<and> unresolved (resolvers g r') \<longrightarrow> r = r') \<and>
     (\<forall>i. waiting g i = Parking \<longrightarrow> inFailover g) \<and>
     (\<forall>i. waiting g i = Parked \<and> \<not> inFailover g \<longrightarrow> (\<exists>r. resolvers g r = RStored))"

definition waker_inv :: "pause \<Rightarrow> bool" where
  "waker_inv g \<longleftrightarrow>
     (\<forall>i. wakers g i = NoWaker \<longrightarrow> waiting g i = Arriving \<or> waiting g i = Proceeds) \<and>
     (\<forall>i. wakers g i = WWants \<or> wakers g i = WHolding \<longrightarrow> expired g i) \<and>
     (\<forall>i. wakers g i = WDone \<longrightarrow> (expired g i \<or> waiting g i = Proceeds \<or> waiting g i = GaveUp) \<and>
        waiting g i \<noteq> Parking \<and> waiting g i \<noteq> Parked)"

lemma lock_step: "pause_step g g' \<Longrightarrow> lock_inv g \<Longrightarrow> lock_inv g'"
proof (induction rule: pause_step.induct)
  case (wakerLocks g i)
  then show ?case by (fastforce simp: lock_inv_def writeLockFree_def readLocked_def)
next
  case (wakerBroadcasts g i)
  then have "wlock g = Some (Waker i)" by (simp add: lock_inv_def)
  with wakerBroadcasts show ?case by (auto simp: lock_inv_def wakeAll_def)
next
  case (resolverLocks g r)
  then show ?case by (fastforce simp: lock_inv_def writeLockFree_def readLocked_def)
next
  case (resolverStores g r)
  then show ?case by (auto simp: lock_inv_def)
next
  case (resolverBroadcasts g r)
  then have "wlock g = Some (Resolver r)" by (simp add: lock_inv_def)
  with resolverBroadcasts show ?case by (auto simp: lock_inv_def wakeAll_def)
qed (auto simp: lock_inv_def readLocked_def)

lemma flag_step:
  assumes "pause_step g g'" "lock_inv g" "flag_inv g"
  shows "flag_inv g'"
  using assms
proof (induction rule: pause_step.induct)
  case (wakerBroadcasts g i)
  then show ?case by (auto simp: flag_inv_def wakeAll_def)
next
  case (trigger g r)
  then show ?case by (auto simp: flag_inv_def unresolved_def)
next
  case (resolverLocks g r)
  then have "unresolved (((resolvers g)(r := RHolding)) x) = unresolved (resolvers g x)"
    "((resolvers g)(r := RHolding)) x = RStored \<longleftrightarrow> resolvers g x = RStored" for x by (simp_all add: unresolved_def)
  with resolverLocks show ?case by (simp add: flag_inv_def) blast
next
  case (resolverStores g r)
  then have "\<not> readLocked (waiting g i)" for i by (auto simp: lock_inv_def)
  with resolverStores show ?case by (fastforce simp: flag_inv_def unresolved_def readLocked_def)
next
  case (resolverBroadcasts g r)
  then have "unresolved (((resolvers g)(r := RDone)) x) = unresolved (resolvers g x)" for x by (simp add: unresolved_def)
  with resolverBroadcasts show ?case by (simp add: flag_inv_def wakeAll_def) blast
qed (auto simp: flag_inv_def)

lemma waker_step:
  assumes "pause_step g g'" "lock_inv g" "waker_inv g"
  shows "waker_inv g'"
  using assms
proof (induction rule: pause_step.induct)
  case (wakerBroadcasts g i)
  then have "\<not> readLocked (waiting g j)" for j by (auto simp: lock_inv_def)
  with wakerBroadcasts show ?case by (auto simp: waker_inv_def wakeAll_def readLocked_def)
next
  case (resolverBroadcasts g r)
  then show ?case by (auto simp: waker_inv_def wakeAll_def)
qed (auto simp: waker_inv_def)

lemma pause_inv: "pause_reach g \<Longrightarrow> lock_inv g \<and> flag_inv g \<and> waker_inv g"
proof (induction rule: pause_reach.induct)
  case start
  show ?case by (simp add: pauseStart_def lock_inv_def flag_inv_def waker_inv_def unresolved_def readLocked_def)
next
  case (step g g')
  then show ?case using lock_step flag_step waker_step by blast
qed

section \<open>Properties of the pause\<close>

text \<open>
  C6.  No wakeup is lost.  In every state the writers, their watchers and the failover goroutines
  can reach together: a writer that is asleep although the failover is over is about to be
  woken, because the goroutine that ended it still holds the write lock and has yet to
  broadcast; and a writer that is asleep although its context has expired is about to be
  woken by its own watcher.
\<close>

theorem no_lost_wakeup:
  assumes "pause_reach g" "waiting g i = Parked"
  shows "(\<not> inFailover g \<longrightarrow> (\<exists>r. resolvers g r = RStored \<and> wlock g = Some (Resolver r))) \<and>
    (expired g i \<longrightarrow> wakers g i \<in> {Watching, WWants, WHolding})"
  using pause_inv [OF assms(1)] assms(2) unfolding lock_inv_def flag_inv_def waker_inv_def
  by (cases "wakers g i") auto

lemma example_parked:
  "pause_reach (pauseStart\<lparr>inFailover := True, resolvers := (resolvers pauseStart)(0 := RWaiting),
     waiting := (waiting pauseStart)(7 := Parked), wakers := (wakers pauseStart)(7 := Watching),
     expired := (expired pauseStart)(7 := True)\<rparr>)"
proof -
  let ?g1 = "pauseStart\<lparr>inFailover := True, resolvers := (resolvers pauseStart)(0 := RWaiting)\<rparr>"
  let ?g2 = "\<lambda>p. ?g1\<lparr>waiting := (waiting pauseStart)(7 := p), wakers := (wakers pauseStart)(7 := Watching)\<rparr>"
  have r: "pause_reach ?g1" using step [OF start trigger [of pauseStart 0]] by (simp add: pauseStart_def)
  have "pause_reach (?g2 Locking)" using step [OF r arrive [of _ 7]] by (simp add: pauseStart_def)
  from step [OF this rlock [of _ 7]] have "pause_reach (?g2 Checking)" by (simp add: pauseStart_def)
  from step [OF this decide [of _ 7]] have "pause_reach (?g2 Parking)" by (simp add: pauseStart_def)
  from step [OF this park [of _ 7]] have "pause_reach (?g2 Parked)" by (simp add: pauseStart_def)
  from step [OF this expire [of _ 7]] show ?thesis by (simp add: pauseStart_def)
qed

theorem no_lost_wakeup_witness:
  "let g = pauseStart\<lparr>inFailover := True, resolvers := (resolvers pauseStart)(0 := RWaiting),
       waiting := (waiting pauseStart)(7 := Parked), wakers := (wakers pauseStart)(7 := Watching),
       expired := (expired pauseStart)(7 := True)\<rparr>
   in pause_reach g \<and> waiting g 7 = Parked \<and> wakers g 7 \<in> {Watching, WWants, WHolding}"
  using no_lost_wakeup [OF example_parked, of 7] example_parked by (simp add: Let_def)

lemma checked_returns:
  assumes "waiting g i = Checking" "\<not> inFailover g \<or> expired g i"
  shows "\<exists>g'. pause_step g g' \<and> waiting g' i \<in> {Proceeds, GaveUp}"
  using proceed [of g i] giveUp [of g i] assms by (cases "inFailover g") fastforce+

lemma relocked_returns:
  assumes "waiting g i = Woken \<or> waiting g i = Locking" "wlock g = None" "\<not> inFailover g \<or> expired g i"
  shows "\<exists>g'. pause_step\<^sup>*\<^sup>* g g' \<and> waiting g' i \<in> {Proceeds, GaveUp}"
proof -
  let ?g = "g\<lparr>waiting := (waiting g)(i := Checking)\<rparr>"
  have "pause_step g ?g" using relock [of g i] rlock [of g i] assms(1,2) by blast
  moreover have "waiting ?g i = Checking" "\<not> inFailover ?g \<or> expired ?g i" using assms(3) by simp_all
  then obtain g' where "pause_step ?g g'" "waiting g' i \<in> {Proceeds, GaveUp}" using checked_returns by blast
  ultimately show ?thesis by (meson converse_rtranclp_into_rtranclp rtranclp.rtrancl_refl)
qed

lemma woken_by_watcher:
  assumes "waiting g i = Parked" "wakers g i = WWants" "writeLockFree g" "expired g i"
  shows "\<exists>g'. pause_step\<^sup>*\<^sup>* g g' \<and> waiting g' i \<in> {Proceeds, GaveUp}"
proof -
  let ?g1 = "g\<lparr>wakers := (wakers g)(i := WHolding), wlock := Some (Waker i)\<rparr>"
  let ?g2 = "(wakeAll ?g1)\<lparr>wakers := (wakers ?g1)(i := WDone)\<rparr>"
  have s: "pause_step g ?g1" by (rule wakerLocks [OF assms(2,3)])
  have t: "pause_step ?g1 ?g2" by (rule wakerBroadcasts) simp
  have "waiting ?g2 i = Woken" "wlock ?g2 = None" "expired ?g2 i" using assms(1,4) by (simp_all add: wakeAll_def)
  then obtain g' where "pause_step\<^sup>*\<^sup>* ?g2 g'" "waiting g' i \<in> {Proceeds, GaveUp}" using relocked_returns by blast
  with s t show ?thesis by (meson converse_rtranclp_into_rtranclp)
qed



section \<open>Getting a connection\<close>

datatype acquire_error = ContextDone | ErrNoHealthyBackends | PoolFailed pool_error

text \<open>
  What one attempt meets: how \<^verbatim>\<open>waitWhilePaused\<close> returned, the fleet and the clock the balancer
  sees, what the pool of each backend meets, and whether the context ended during the sleep.
\<close>

record pool_conditions =
  pcNow :: int
  pcAsked :: int
  pcTold :: int
  pcTotal :: "identity \<Rightarrow> int"
  pcActive :: "identity \<Rightarrow> int"
  pcNewOk :: bool
  pcEngine :: "pool_error + Conn"
  pcExhausted :: bool

record attempt =
  atWaitFailed :: bool
  atNodes :: "Backend list"
  atEnv :: env
  atPool :: "bytes \<Rightarrow> pool_conditions"
  atInterrupted :: bool

text \<open>
  The balancer, the backends by address, and the attempts at which \<^verbatim>\<open>triggerFailover\<close> was called.
\<close>

record acquire_state =
  acBalancer :: balancer
  acServers :: "bytes \<Rightarrow> Server"
  acTriggers :: "nat list"

definition needsPrimary :: "Hint \<Rightarrow> bool" where
  "needsPrimary hint \<longleftrightarrow> \<not> hReadOnly hint \<and> \<not> AcceptReplica hint"

definition backendAcquire :: "pool_conditions \<Rightarrow> bytes \<Rightarrow> bytes \<Rightarrow> Server \<Rightarrow> (pool_error + Conn) \<times> Server" where
  "backendAcquire k user database p =
     AcquireFor (pcNow k) (pcAsked k) (pcTold k) (pcTotal k) (pcActive k) (pcNewOk k) (pcEngine k) (pcExhausted k) user database p"

definition acquireOnce :: "strategy \<Rightarrow> attempt \<Rightarrow> Hint \<Rightarrow> bytes \<Rightarrow> bytes \<Rightarrow> acquire_state \<Rightarrow>
    (acquire_error + Backend \<times> Conn) \<times> acquire_state" where
  "acquireOnce strat att hint user database st =
     (case Next strat (atEnv att) (acBalancer st) (atNodes att) hint of (pick, bal) \<Rightarrow>
        let st1 = st\<lparr>acBalancer := bal\<rparr> in
        (case pick of
           None \<Rightarrow> (Inl ErrNoHealthyBackends, st1)
         | Some b \<Rightarrow>
             (case backendAcquire (atPool att (bAddress b)) user database (acServers st1 (bAddress b)) of (r, p) \<Rightarrow>
                let st2 = st1\<lparr>acServers := (acServers st1)(bAddress b := p)\<rparr> in
                (case r of Inr c \<Rightarrow> (Inr (b, c), st2) | Inl e \<Rightarrow> (Inl (PoolFailed e), st2)))))"

definition notePrimaryLost :: "Hint \<Rightarrow> nat \<Rightarrow> acquire_error \<Rightarrow> acquire_state \<Rightarrow> acquire_state" where
  "notePrimaryLost hint i lastErr st =
     (if needsPrimary hint \<and> (lastErr = ErrNoHealthyBackends \<or> i = 2) then st\<lparr>acTriggers := acTriggers st @ [i]\<rparr> else st)"

fun acquireLoop :: "strategy \<Rightarrow> (nat \<Rightarrow> attempt) \<Rightarrow> Hint \<Rightarrow> bytes \<Rightarrow> bytes \<Rightarrow> nat list \<Rightarrow> acquire_error \<Rightarrow> acquire_state \<Rightarrow>
    (acquire_error + Backend \<times> Conn) \<times> acquire_state" where
  "acquireLoop strat att hint user database [] lastErr st = (Inl lastErr, st)"
| "acquireLoop strat att hint user database (i # is) lastErr st =
     (if needsPrimary hint \<and> atWaitFailed (att i) then (Inl ContextDone, st)
      else (case acquireOnce strat (att i) hint user database st of
          (Inr got, st1) \<Rightarrow> (Inr got, st1)
        | (Inl e, st1) \<Rightarrow>
            let st2 = notePrimaryLost hint i e st1 in
            if i < 2 \<and> atInterrupted (att i) then (Inl ContextDone, st2)
            else acquireLoop strat att hint user database is e st2))"

text \<open>\<open>lastErr\<close> starts as nil; the loop has set it whenever it is returned.\<close>

definition acquire :: "strategy \<Rightarrow> (nat \<Rightarrow> attempt) \<Rightarrow> Hint \<Rightarrow> bytes \<Rightarrow> bytes \<Rightarrow> acquire_state \<Rightarrow>
    (acquire_error + Backend \<times> Conn) \<times> acquire_state" where
  "acquire strat att hint user database st = acquireLoop strat att hint user database [0, 1, 2] ErrNoHealthyBackends st"

text \<open>What \<open>drain\<close> sees each time round: the statements in flight, then whether its deadline has passed.\<close>

fun drain :: "(int \<times> bool) list \<Rightarrow> bool option" where
  "drain [] = None"
| "drain ((n, deadline) # obs) = (if n \<le> 0 then Some True else if deadline then Some False else drain obs)"

lemma drain_returns: "\<exists>(n, deadline)\<in>set obs. n \<le> 0 \<or> deadline \<Longrightarrow> drain obs \<noteq> None"
  by (induction obs rule: drain.induct) auto

lemma drain_waits: "drain obs = Some True \<Longrightarrow> \<exists>pre n d post. obs = pre @ (n, d) # post \<and> n \<le> 0 \<and> (\<forall>(m, e)\<in>set pre. m > 0 \<and> \<not> e)"
proof (induction obs rule: drain.induct)
  case (2 n d obs)
  show ?case
  proof (cases "n \<le> 0")
    case True
    then show ?thesis by (intro exI [of _ "[]"]) auto
  next
    case False
    with 2 obtain pre m e post where "\<not> d" "obs = pre @ (m, e) # post" "m \<le> 0" "\<forall>(m, e)\<in>set pre. m > 0 \<and> \<not> e"
      by (auto split: if_splits)
    with False show ?thesis by (intro exI [of _ "(n, d) # pre"]) auto
  qed
qed simp

text \<open>Every connection handed out is counted at its backend, once, and nothing else is.\<close>

definition checkedOutOnly :: "bytes option \<Rightarrow> (bytes \<Rightarrow> Server) \<Rightarrow> (bytes \<Rightarrow> Server) \<Rightarrow> bool" where
  "checkedOutOnly a f f' \<longleftrightarrow> (\<forall>x. checkedOut (f' x) = checkedOut (f x) + (if a = Some x then 1 else 0))"

lemma backendAcquire_accounts:
  "backendAcquire k u d p = (r, p') \<Longrightarrow> checkedOut p' = checkedOut p + (case r of Inl _ \<Rightarrow> 0 | Inr _ \<Rightarrow> 1)"
  by (auto simp: backendAcquire_def AcquireFor_def Let_def split: if_splits prod.splits option.splits breaker_result.splits sum.splits)

lemma Next_draws: "draws (snd (Next strat v s nodes hint)) = draws s"
  by (cases strat) (simp_all split: prod.split)

definition saneAttempt :: "attempt \<Rightarrow> bool" where
  "saneAttempt att \<longleftrightarrow> (\<forall>n\<in>set (atNodes att). sane n \<and> saneEnv (atEnv att) n)"

lemma acquireOnce_result:
  assumes "acquireOnce strat att hint u d st = (r, st')" "saneAttempt att" "\<forall>n>0. fst (draws (acBalancer st)) n < n \<and> snd (draws (acBalancer st)) n < n"
  shows "draws (acBalancer st') = draws (acBalancer st)" "acTriggers st' = acTriggers st"
    "case r of Inr (b, c) \<Rightarrow> rightTarget (atEnv att) (atNodes att) hint b \<and>
         checkedOutOnly (Some (bAddress b)) (acServers st) (acServers st')
     | Inl e \<Rightarrow> checkedOutOnly None (acServers st) (acServers st') \<and> (e = ErrNoHealthyBackends \<longrightarrow> noTarget (atNodes att) hint)"
proof -
  obtain pick bal where n: "Next strat (atEnv att) (acBalancer st) (atNodes att) hint = (pick, bal)" by fastforce
  from Next_routes [OF assms(2) [unfolded saneAttempt_def] assms(3), where strat = strat and hint = hint] n
  have t: "case pick of None \<Rightarrow> noTarget (atNodes att) hint | Some b \<Rightarrow> rightTarget (atEnv att) (atNodes att) hint b" by simp
  have w: "draws bal = draws (acBalancer st)"
    using Next_draws [of strat "atEnv att" "acBalancer st" "atNodes att" hint] n by simp
  note a = assms(1) [unfolded acquireOnce_def n Let_def, simplified]
  show "draws (acBalancer st') = draws (acBalancer st)" "acTriggers st' = acTriggers st"
    using a w by (auto split: option.splits prod.splits sum.splits)
  show "case r of Inr (b, c) \<Rightarrow> rightTarget (atEnv att) (atNodes att) hint b \<and>
         checkedOutOnly (Some (bAddress b)) (acServers st) (acServers st')
     | Inl e \<Rightarrow> checkedOutOnly None (acServers st) (acServers st') \<and> (e = ErrNoHealthyBackends \<longrightarrow> noTarget (atNodes att) hint)"
    using a t by (auto simp: checkedOutOnly_def split: option.splits prod.splits sum.splits dest!: backendAcquire_accounts)
qed

lemma acquireLoop_result:
  assumes "acquireLoop strat att hint u d is e0 st = (r, st')" "\<forall>i. saneAttempt (att i)"
    "\<forall>n>0. fst (draws (acBalancer st)) n < n \<and> snd (draws (acBalancer st)) n < n"
  shows "(case r of
      Inr (b, c) \<Rightarrow> (\<exists>i\<in>set is. rightTarget (atEnv (att i)) (atNodes (att i)) hint b) \<and>
        checkedOutOnly (Some (bAddress b)) (acServers st) (acServers st')
    | Inl e \<Rightarrow> checkedOutOnly None (acServers st) (acServers st') \<and>
        (needsPrimary hint \<and> e \<noteq> ContextDone \<and> 2 \<in> set is \<longrightarrow> 2 \<in> set (acTriggers st'))) \<and>
    (\<exists>more. acTriggers st' = acTriggers st @ more \<and> (\<not> needsPrimary hint \<longrightarrow> more = []))"
  using assms(1,3)
proof (induction "is" arbitrary: e0 st)
  case Nil
  then show ?case by (auto simp: checkedOutOnly_def)
next
  case (Cons i "is")
  show ?case
  proof (cases "needsPrimary hint \<and> atWaitFailed (att i)")
    case True
    with Cons.prems(1) show ?thesis by (auto simp: checkedOutOnly_def)
  next
    case False
    obtain o1 st1 where one: "acquireOnce strat (att i) hint u d st = (o1, st1)" by fastforce
    note res = acquireOnce_result [OF one assms(2) [rule_format] Cons.prems(2)]
    show ?thesis
    proof (cases o1)
      case (Inr got)
      with Cons.prems(1) False one res show ?thesis by (auto simp: split: prod.splits)
    next
      case (Inl e)
      let ?st2 = "notePrimaryLost hint i e st1"
      have s2: "acServers ?st2 = acServers st1" "acBalancer ?st2 = acBalancer st1"
        "\<exists>more. acTriggers ?st2 = acTriggers st @ more \<and> (\<not> needsPrimary hint \<longrightarrow> more = [])"
        "needsPrimary hint \<Longrightarrow> i = 2 \<Longrightarrow> 2 \<in> set (acTriggers ?st2)"
        using res(2) by (auto simp: notePrimaryLost_def)
      show ?thesis
      proof (cases "i < 2 \<and> atInterrupted (att i)")
        case True
        with Cons.prems(1) False one Inl res s2 show ?thesis by auto
      next
        case nope: False
        have l: "acquireLoop strat att hint u d is e ?st2 = (r, st')"
          using Cons.prems(1) False one Inl nope by (auto simp: Let_def)
        have "\<forall>n>0. fst (draws (acBalancer ?st2)) n < n \<and> snd (draws (acBalancer ?st2)) n < n"
          using Cons.prems(2) res(1) s2(2) by simp
        from Cons.IH [OF l this] res(3) Inl s2 show ?thesis
          by (auto simp: checkedOutOnly_def split: sum.splits)
      qed
    qed
  qed
qed

text \<open>
  C17.  Whatever strategy is configured and whatever the fleet does between the three attempts, a
  connection \<^verbatim>\<open>acquire\<close> returns is one to a backend the request may use (for a write that needs
  a primary, a primary; for a read, a replica where one is available), and it is the only
  connection checked out: an attempt that failed leaves none behind at any backend.  A caller that
  does not need a primary never starts a failover, and one that does and gives up for any other
  reason than its own context has started one.
\<close>

theorem acquire_sound:
  assumes "\<forall>i. saneAttempt (att i)" "\<forall>n>0. fst (draws (acBalancer st)) n < n \<and> snd (draws (acBalancer st)) n < n"
    "acquire strat att hint user database st = (r, st')"
  shows "(case r of
      Inr (b, c) \<Rightarrow> (\<exists>i<3. rightTarget (atEnv (att i)) (atNodes (att i)) hint b) \<and> (needsPrimary hint \<longrightarrow> bRole b = RolePrimary) \<and>
        checkedOutOnly (Some (bAddress b)) (acServers st) (acServers st')
    | Inl e \<Rightarrow> checkedOutOnly None (acServers st) (acServers st') \<and>
        (needsPrimary hint \<and> e \<noteq> ContextDone \<longrightarrow> 2 \<in> set (acTriggers st'))) \<and>
    (\<not> needsPrimary hint \<longrightarrow> acTriggers st' = acTriggers st)"
proof -
  note l = acquireLoop_result [OF assms(3) [unfolded acquire_def] assms(1,2)]
  have i: "(\<exists>i\<in>set [0, 1, 2]. P i) \<longleftrightarrow> (\<exists>i<3. P i)" for P :: "nat \<Rightarrow> bool" by (auto simp: numeral_3_eq_3 numeral_2_eq_2 less_Suc_eq)
  have p: "rightTarget v nodes hint b \<Longrightarrow> needsPrimary hint \<Longrightarrow> bRole b = RolePrimary" for v nodes b
    by (auto simp: rightTarget_def needsPrimary_def)
  show ?thesis
  proof (cases r)
    case (Inl e)
    with l show ?thesis by auto
  next
    case (Inr got)
    obtain b c where got: "got = (b, c)" by (cases got)
    from l Inr got have "\<exists>i<3. rightTarget (atEnv (att i)) (atNodes (att i)) hint b" unfolding i by simp
    with l Inr got p show ?thesis by auto
  qed
qed

text \<open>A fleet that has lost its primary: the write fails after three attempts, each having asked for a failover.\<close>

definition lostPrimary :: attempt where
  "lostPrimary = \<lparr>atWaitFailed = False, atNodes = [exNode ''r'' RoleReplica], atEnv = exEnv0,
     atPool = (\<lambda>_. \<lparr>pcNow = 0, pcAsked = 0, pcTold = 0, pcTotal = (\<lambda>_. 0), pcActive = (\<lambda>_. 0), pcNewOk = True,
       pcEngine = Inl ErrAcquire, pcExhausted = False\<rparr>), atInterrupted = False\<rparr>"

definition exAcquire :: "Server \<Rightarrow> acquire_state" where
  "exAcquire p = \<lparr>acBalancer = exBalancer, acServers = (\<lambda>_. p), acTriggers = []\<rparr>"

lemma lostPrimary_acquires:
  "acquire RoundRobin (\<lambda>_. lostPrimary) (exHint False) u d (exAcquire p) =
     (Inl ErrNoHealthyBackends, (exAcquire p)\<lparr>acTriggers := [0, 1, 2]\<rparr>)"
  by (simp add: acquire_def acquireOnce_def notePrimaryLost_def needsPrimary_def lostPrimary_def exAcquire_def RoundRobin_Next_def
      FilterNodes_def available_def exNode_def exBalancer_def)

theorem acquire_sound_witness:
  "\<forall>p :: Server. checkedOutOnly None (acServers (exAcquire p)) (acServers ((exAcquire p)\<lparr>acTriggers := [0, 1, 2]\<rparr>)) \<and>
     2 \<in> set (acTriggers ((exAcquire p)\<lparr>acTriggers := [0, 1, 2]\<rparr>))"
proof
  fix p :: Server
  have "saneAttempt lostPrimary" using exNode_sane by (simp add: saneAttempt_def lostPrimary_def)
  moreover have "\<forall>n>0. fst (draws (acBalancer (exAcquire p))) n < n \<and> snd (draws (acBalancer (exAcquire p))) n < n"
    by (simp add: exAcquire_def exBalancer_def)
  ultimately show "checkedOutOnly None (acServers (exAcquire p)) (acServers ((exAcquire p)\<lparr>acTriggers := [0, 1, 2]\<rparr>)) \<and>
     2 \<in> set (acTriggers ((exAcquire p)\<lparr>acTriggers := [0, 1, 2]\<rparr>))"
    using acquire_sound [OF _ _ lostPrimary_acquires [of "''u''" "''d''" p]] by (simp add: needsPrimary_def)
qed

end
