(* ===== verification/Orchestration.thy ===== *)
theory Orchestration
  imports Balancer
begin

text \<open>
  Automatic failover: the manager of \<^verbatim>\<open>server/internal/orchestration\<close> (\<^verbatim>\<open>failover_manager.go\<close>,
  \<^verbatim>\<open>follow_primary.go\<close>, \<^verbatim>\<open>rejoin.go\<close>, \<^verbatim>\<open>options.go\<close>) and the parts of \<^verbatim>\<open>postgres_provisioner.go\<close> that
  decide rather than talk to an agent.

  The provisioner and consensus are interfaces: what they answer is an argument.  The lemmas
  show that the monitor promotes only after the configured number of checks without a primary,
  that a split brain is resolved in favour of one primary, and that rebuilding a node is bounded,
  spaced and never doubled.
\<close>

section \<open>Options\<close>

record Options =
  oEnabled :: bool
  FailureThreshold :: int
  FollowPrimary :: bool
  FollowPrimaryTimeout :: int
  AutoReattach :: bool
  AutoReattachInterval :: int
  AutoRejoin :: bool
  AutoRejoinInterval :: int
  AutoRejoinTimeout :: int
  AutoRejoinMaxAttempts :: int

definition minutes :: "int \<Rightarrow> int" where "minutes n = n * 60 * 10 ^ 9"

definition orDefault :: "int \<Rightarrow> int \<Rightarrow> int" where "orDefault n d = (if n \<le> 0 then d else n)"

definition Options_sane :: "Options \<Rightarrow> Options" where
  "Options_sane c = c\<lparr>FailureThreshold := orDefault (FailureThreshold c) 3,
     FollowPrimaryTimeout := orDefault (FollowPrimaryTimeout c) (minutes 30),
     AutoReattachInterval := orDefault (AutoReattachInterval c) (minutes 1),
     AutoRejoinInterval := orDefault (AutoRejoinInterval c) (minutes 5),
     AutoRejoinTimeout := orDefault (AutoRejoinTimeout c) (minutes 30),
     AutoRejoinMaxAttempts := orDefault (AutoRejoinMaxAttempts c) 3\<rparr>"

section \<open>Rebuild attempts\<close>

text \<open>\<open>None\<close> is the zero time.\<close>

record rejoinState =
  attempts :: int
  lastAttempt :: "int option"
  inFlight :: bool

type_synonym rejoinTracker = "(bytes \<times> rejoinState) list"

definition newRejoinState :: rejoinState where
  "newRejoinState = \<lparr>attempts = 0, lastAttempt = None, inFlight = False\<rparr>"

text \<open>The result is whether the caller may proceed, and whether the node has used its budget.\<close>

definition rejoin_begin :: "bytes \<Rightarrow> int \<Rightarrow> int \<Rightarrow> int \<Rightarrow> rejoinTracker \<Rightarrow> (bool \<times> bool) \<times> rejoinTracker" where
  "rejoin_begin addr interval maxAttempts now t =
     (let found = (map_of t addr \<noteq> None);
          st = (case map_of t addr of None \<Rightarrow> newRejoinState | Some st \<Rightarrow> st);
          t1 = (if found then t else AList.update addr st t)
      in if inFlight st then ((False, False), t1)
         else if attempts st \<ge> maxAttempts then ((False, True), t1)
         else if found \<and> (case lastAttempt st of None \<Rightarrow> False | Some l \<Rightarrow> now - l < interval) then ((False, False), t1)
         else ((True, False), AList.update addr (st\<lparr>inFlight := True, lastAttempt := Some now, attempts := attempts st + 1\<rparr>) t1))"

definition rejoin_finish :: "bytes \<Rightarrow> bool \<Rightarrow> rejoinTracker \<Rightarrow> rejoinTracker" where
  "rejoin_finish addr succeeded t =
     (case map_of t addr of
        None \<Rightarrow> t
      | Some st \<Rightarrow> if succeeded then AList.delete addr t else AList.update addr (st\<lparr>inFlight := False\<rparr>) t)"

definition rejoin_forget :: "bytes \<Rightarrow> rejoinTracker \<Rightarrow> rejoinTracker" where
  "rejoin_forget addr t =
     (case map_of t addr of None \<Rightarrow> t | Some st \<Rightarrow> if inFlight st then t else AList.delete addr t)"

definition needsRejoin :: "Backend \<Rightarrow> bytes \<Rightarrow> bool" where
  "needsRejoin b primary \<longleftrightarrow> bAddress b \<noteq> primary \<and> bRole b = RoleReplica \<and> bHealthy b \<and> \<not> bReplicating b \<and> \<not> bDraining b"

section \<open>The manager\<close>

datatype FailoverState = FStateIdle | FStateMonitoring | FStatePromoting | FStateVerifying | FStateFailed

fun FailoverState_String :: "FailoverState \<Rightarrow> bytes" where
  "FailoverState_String FStateMonitoring = ''monitoring''"
| "FailoverState_String FStatePromoting = ''promoting''"
| "FailoverState_String FStateVerifying = ''verifying''"
| "FailoverState_String FStateFailed = ''failed''"
| "FailoverState_String FStateIdle = ''idle''"

record FailoverManager =
  fmState :: FailoverState
  lastPromoted :: bytes
  missedPrimary :: int
  rejoins :: rejoinTracker
  fmOpts :: Options

definition NewFailoverManager :: "Options \<Rightarrow> FailoverManager" where
  "NewFailoverManager c =
     \<lparr>fmState = FStateIdle, lastPromoted = [], missedPrimary = 0, rejoins = [], fmOpts = Options_sane c\<rparr>"

text \<open>
  What the manager asks others to do: the provisioner, consensus, the pool's role check, and
  the goroutines it starts.
\<close>

datatype action =
    Promote bytes
  | SetPrimary bytes
  | ReevaluateRole bytes
  | Demote bytes bytes
  | StartRejoin bytes bytes
  | StartFollow bytes
  | StartVerify bytes

text \<open>The lag of a replica is what the provisioner answers; \<open>None\<close> is an error.  Lags start at no lag known, \<open>-1\<close>.\<close>

fun bestReplicaLoop :: "(bytes \<Rightarrow> int option) \<Rightarrow> int \<Rightarrow> Backend option \<Rightarrow> Backend list \<Rightarrow> Backend option" where
  "bestReplicaLoop lagOf minLag best [] = best"
| "bestReplicaLoop lagOf minLag best (b # bs) =
     (if bRole b \<noteq> RoleReplica \<or> \<not> bHealthy b then bestReplicaLoop lagOf minLag best bs
      else (case lagOf (bAddress b) of
              None \<Rightarrow> bestReplicaLoop lagOf minLag best bs
            | Some lag \<Rightarrow>
                if minLag = -1 \<or> lag < minLag then bestReplicaLoop lagOf lag (Some b) bs
                else bestReplicaLoop lagOf minLag best bs))"

definition findBestReplica :: "(bytes \<Rightarrow> int option) \<Rightarrow> Backend list \<Rightarrow> Backend option" where
  "findBestReplica lagOf backends = bestReplicaLoop lagOf (-1) None backends"
datatype failover_error = FailoverInProgress | NoHealthyReplicas | PromoteFailed bytes

datatype begun = Disabled | Refused | Begun

text \<open>
  \<open>TriggerFailover\<close> in three parts, because other goroutines run between them: taking the
  promoting state, the promotion, and the deferred reset.
\<close>

definition beginFailover :: "FailoverManager \<Rightarrow> begun \<times> FailoverManager" where
  "beginFailover m =
     (if \<not> oEnabled (fmOpts m) then (Disabled, m)
      else if fmState m = FStatePromoting then (Refused, m)
      else (Begun, m\<lparr>fmState := FStatePromoting\<rparr>))"

text \<open>
  What a promotion meets: the backends as the search and as the notification afterwards see them,
  the answers of the provisioner, and whether there is a consensus to tell.
\<close>

record promotion =
  pwNodes :: "Backend list"
  pwLag :: "bytes \<Rightarrow> int option"
  pwPromoteOk :: "bytes \<Rightarrow> bool"
  pwConsensus :: bool
  pwNodesAfter :: "Backend list"

definition runFailover :: "promotion \<Rightarrow> FailoverManager \<Rightarrow> failover_error option \<times> FailoverManager \<times> action list" where
  "runFailover w m =
     (case findBestReplica (pwLag w) (pwNodes w) of
        None \<Rightarrow> (Some NoHealthyReplicas, m\<lparr>fmState := FStateFailed\<rparr>, [])
      | Some best \<Rightarrow>
          let addr = bAddress best in
          if \<not> pwPromoteOk w addr then (Some (PromoteFailed addr), m\<lparr>fmState := FStateFailed\<rparr>, [Promote addr])
          else (None, m\<lparr>lastPromoted := addr, missedPrimary := 0, fmState := FStateVerifying\<rparr>,
            [Promote addr] @ (if pwConsensus w then [SetPrimary addr] else []) @ [ReevaluateRole addr] @
            map (ReevaluateRole \<circ> bAddress) (filter (\<lambda>b. bRole b = RolePrimary \<and> bAddress b \<noteq> addr) (pwNodesAfter w)) @
            (if FollowPrimary (fmOpts m) then [StartFollow addr] else []) @ [StartVerify addr]))"

definition endFailover :: "FailoverManager \<Rightarrow> FailoverManager" where
  "endFailover m = (if fmState m = FStatePromoting then m\<lparr>fmState := FStateIdle\<rparr> else m)"

definition TriggerFailover :: "promotion \<Rightarrow> FailoverManager \<Rightarrow> failover_error option \<times> FailoverManager \<times> action list" where
  "TriggerFailover w m =
     (case beginFailover m of
        (Disabled, m1) \<Rightarrow> (None, m1, [])
      | (Refused, m1) \<Rightarrow> (Some FailoverInProgress, m1, [])
      | (Begun, m1) \<Rightarrow> (case runFailover w m1 of (e, m2, acts) \<Rightarrow> (e, endFailover m2, acts)))"

text \<open>What a tick of the monitor meets; consensus, when there is one, says whether this node leads and who is primary.\<close>

record tick =
  tkOwned :: bool
  tkConsensus :: "(bool \<times> bytes) option"
  tkNodes :: "Backend list"
  tkDemoteOk :: "bytes \<Rightarrow> bool"
  tkNow :: int

definition primaries :: "Backend list \<Rightarrow> Backend list" where "primaries bs = filter (\<lambda>b. bRole b = RolePrimary) bs"
definition healthyPrimaries :: "Backend list \<Rightarrow> Backend list" where "healthyPrimaries bs = filter bHealthy (primaries bs)"

definition orElse :: "'a option \<Rightarrow> 'a option \<Rightarrow> 'a option" where "orElse a b = (case a of None \<Rightarrow> b | Some x \<Rightarrow> Some x)"

definition splitBrainWinner :: "bytes \<Rightarrow> bytes \<Rightarrow> Backend list \<Rightarrow> Backend option" where
  "splitBrainWinner consensusPrimary promoted bs =
     orElse (if consensusPrimary \<noteq> [] then List.find (\<lambda>p. bAddress p = consensusPrimary) (primaries bs) else None)
       (orElse (List.find (\<lambda>p. bAddress p = promoted \<and> bHealthy p) (primaries bs))
         (case healthyPrimaries bs of [] \<Rightarrow> None | b # _ \<Rightarrow> Some b))"

definition demoteOthers :: "(bytes \<Rightarrow> bool) \<Rightarrow> Backend \<Rightarrow> Backend list \<Rightarrow> action list" where
  "demoteOthers demoteOk winner bs =
     concat (map (\<lambda>p. Demote (bAddress p) (bAddress winner) # (if demoteOk (bAddress p) then [ReevaluateRole (bAddress p)] else []))
       (filter (\<lambda>p. bAddress p \<noteq> bAddress winner) (primaries bs)))"

fun reconcileRejoins :: "Options \<Rightarrow> int \<Rightarrow> bytes \<Rightarrow> Backend list \<Rightarrow> rejoinTracker \<Rightarrow> rejoinTracker \<times> action list" where
  "reconcileRejoins c now primary [] t = (t, [])"
| "reconcileRejoins c now primary (b # bs) t =
     (if \<not> needsRejoin b primary then reconcileRejoins c now primary bs (rejoin_forget (bAddress b) t)
      else if \<not> AutoRejoin c then reconcileRejoins c now primary bs t
      else (case rejoin_begin (bAddress b) (AutoRejoinInterval c) (AutoRejoinMaxAttempts c) now t of
              ((ok, _), t1) \<Rightarrow> (case reconcileRejoins c now primary bs t1 of
                (t2, acts) \<Rightarrow> (t2, (if ok then [StartRejoin (bAddress b) primary] else []) @ acts))))"

definition leads :: "tick \<Rightarrow> bool" where
  "leads tk \<longleftrightarrow> (case tkConsensus tk of None \<Rightarrow> True | Some (leader, _) \<Rightarrow> leader)"

text \<open>The monitor up to the point where it wants a failover (the last component).\<close>

definition monitorCheck :: "tick \<Rightarrow> FailoverManager \<Rightarrow> FailoverManager \<times> action list \<times> bool" where
  "monitorCheck tk m =
     (if fmState m = FStatePromoting \<or> \<not> leads tk then (m, [], False)
      else if healthyPrimaries (tkNodes tk) = [] then
        let m1 = m\<lparr>missedPrimary := missedPrimary m + 1\<rparr>
        in (m1, [], oEnabled (fmOpts m) \<and> missedPrimary m1 \<ge> FailureThreshold (fmOpts m))
      else let m1 = m\<lparr>missedPrimary := 0\<rparr> in
        if length (primaries (tkNodes tk)) > 1 then
          (m1, case splitBrainWinner (case tkConsensus tk of None \<Rightarrow> [] | Some (_, p) \<Rightarrow> p) (lastPromoted m) (tkNodes tk) of
                 None \<Rightarrow> []
               | Some winner \<Rightarrow> demoteOthers (tkDemoteOk tk) winner (tkNodes tk), False)
        else (case reconcileRejoins (fmOpts m) (tkNow tk) (bAddress (hd (healthyPrimaries (tkNodes tk)))) (tkNodes tk) (rejoins m) of
                (t, acts) \<Rightarrow> (m1\<lparr>rejoins := t\<rparr>, acts, False)))"

definition monitor :: "tick \<Rightarrow> promotion \<Rightarrow> FailoverManager \<Rightarrow> FailoverManager \<times> action list" where
  "monitor tk w m =
     (case monitorCheck tk m of
        (m1, acts, True) \<Rightarrow> (case TriggerFailover w m1 of (_, m2, acts2) \<Rightarrow> (m2, acts @ acts2))
      | (m1, acts, False) \<Rightarrow> (m1, acts))"

section \<open>After a promotion\<close>

text \<open>
  What \<open>verifyPromotion\<close> sees each time round: whether the node is a healthy primary by now, whether
  the deadline has passed, whether the context ended.
\<close>

fun verifyPromotion :: "(bool \<times> bool \<times> bool) list \<Rightarrow> FailoverState option" where
  "verifyPromotion [] = None"
| "verifyPromotion ((promoted, late, done) # obs) =
     (if promoted then Some FStateIdle else if late then Some FStateFailed else if done then Some FStateIdle
      else verifyPromotion obs)"

definition replicasToFollow :: "bytes \<Rightarrow> Backend list \<Rightarrow> Backend list" where
  "replicasToFollow primary bs = filter (\<lambda>b. \<not> (bAddress b = primary \<or> bRole b \<noteq> RoleReplica) \<and> bHealthy b) bs"

definition followNewPrimary :: "bytes \<Rightarrow> Backend list \<Rightarrow> action list" where
  "followNewPrimary primary bs = map (\<lambda>b. Demote (bAddress b) primary) (replicasToFollow primary bs)"

text \<open>What \<open>confirmRejoined\<close> sees: whether the node is a streaming replica, whether its time or its context is over.\<close>

fun confirmRejoined :: "(bool \<times> bool \<times> bool) list \<Rightarrow> bool option" where
  "confirmRejoined [] = None"
| "confirmRejoined ((streaming, late, done) # obs) =
     (if streaming then Some True else if late then Some False else if done then Some False else confirmRejoined obs)"

definition rejoin :: "bytes \<Rightarrow> bool \<Rightarrow> bool \<Rightarrow> rejoinTracker \<Rightarrow> rejoinTracker" where
  "rejoin addr demoteOk confirmed t = rejoin_finish addr (demoteOk \<and> confirmed) t"

section \<open>The PostgreSQL provisioner\<close>

text \<open>A configured node: a backend with what the provisioner reads of it; \<open>None\<close> is a missing optional method.\<close>

record Node = Backend +
  nAgentAddr :: bytes
  nPeerAddress :: "bytes option"
  nAdminCredentials :: "(bytes \<times> bytes) option"
  nDataDirectory :: "bytes option"
  nReportedDirectory :: bytes

definition findBackend :: "bytes \<Rightarrow> 'a Backend_scheme list \<Rightarrow> 'a Backend_scheme option" where
  "findBackend addr bs = List.find (\<lambda>b. bAddress b = addr) bs"

text \<open>The lag the provisioner reports; \<open>acquires\<close> is whether the backend's pool hands out a connection.\<close>

definition CheckReplicationLag :: "(bytes \<Rightarrow> bool) \<Rightarrow> 'a Backend_scheme list \<Rightarrow> bytes \<Rightarrow> int option" where
  "CheckReplicationLag acquires bs addr =
     (case findBackend addr bs of None \<Rightarrow> None | Some _ \<Rightarrow> if acquires addr then Some 0 else None)"

definition peerAddressFor :: "Node list \<Rightarrow> bytes \<Rightarrow> bytes" where
  "peerAddressFor bs addr =
     (case List.find (\<lambda>p. p \<noteq> []) (List.map_filter (\<lambda>b. if bAddress b = addr then nPeerAddress b else None) bs) of
        None \<Rightarrow> addr | Some p \<Rightarrow> p)"

definition replicationCredentials :: "Node list \<Rightarrow> bytes \<Rightarrow> bytes \<times> bytes" where
  "replicationCredentials bs addr =
     (case List.map_filter (\<lambda>b. if bAddress b = addr then nAdminCredentials b else None) bs of [] \<Rightarrow> ([], []) | c # _ \<Rightarrow> c)"

text \<open>\<^verbatim>\<open>net.SplitHostPort\<close> and \<^verbatim>\<open>net.JoinHostPort\<close>.\<close>

definition lastColon :: "bytes \<Rightarrow> nat option" where
  "lastColon s = (if CHR '':'' \<in> set s then Some (length s - 1 - length (takeWhile (\<lambda>c. c \<noteq> CHR '':'') (rev s))) else None)"

definition SplitHostPort :: "bytes \<Rightarrow> (bytes \<times> bytes) option" where
  "SplitHostPort s =
     (case lastColon s of
        None \<Rightarrow> None
      | Some i \<Rightarrow>
          if hd s = CHR ''['' then
            (if CHR '']'' \<notin> set s then None
             else let e = length (takeWhile (\<lambda>c. c \<noteq> CHR '']'') s) in
               if e + 1 \<noteq> i then None
               else if CHR ''['' \<in> set (drop 1 s) \<or> CHR '']'' \<in> set (drop (e + 1) s) then None
               else Some (take (e - 1) (drop 1 s), drop (i + 1) s))
          else if CHR '':'' \<in> set (take i s) then None
          else if CHR ''['' \<in> set s \<or> CHR '']'' \<in> set s then None
          else Some (take i s, drop (i + 1) s))"

definition JoinHostPort :: "bytes \<Rightarrow> bytes \<Rightarrow> bytes" where
  "JoinHostPort host port = (if CHR '':'' \<in> set host then ''['' @ host @ '']:'' @ port else host @ '':'' @ port)"

definition getHost :: "bytes \<Rightarrow> bytes" where
  "getHost addr = (case SplitHostPort addr of None \<Rightarrow> addr | Some (host, _) \<Rightarrow> host)"

definition defaultAgentPort :: bytes where "defaultAgentPort = ''9091''"
definition defaultPostgresPort :: int where "defaultPostgresPort = 5432"

definition agentAddressFor :: "Node option \<Rightarrow> bytes \<Rightarrow> bytes" where
  "agentAddressFor b fallbackHost =
     (case b of
        Some n \<Rightarrow> if nAgentAddr n \<noteq> [] then nAgentAddr n else JoinHostPort fallbackHost defaultAgentPort
      | None \<Rightarrow> JoinHostPort fallbackHost defaultAgentPort)"

definition isFailureStage :: "bytes \<Rightarrow> bool" where
  "isFailureStage stage = (ToLower (TrimSpace stage) \<in> {''error'', ''failed'', ''failure''})"

definition orNoOutput :: "bytes \<Rightarrow> bytes" where
  "orNoOutput s = (if s = [] then ''(no output; the usual cause is -D pointing somewhere that is not this server's data directory)'' else s)"

text \<open>
  How the agent's progress messages (stage, percentage, text) end: \<open>None\<close> is success, otherwise the
  reason given in the error.
\<close>

fun setupOutcome :: "bool \<Rightarrow> bytes \<Rightarrow> (bytes \<times> int \<times> bytes) list \<Rightarrow> bytes option" where
  "setupOutcome completed said [] =
     (if completed then None else Some (if said = [] then ''the agent reported no reason'' else said))"
| "setupOutcome completed said ((stage, percentage, message) # msgs) =
     (let said1 = (if message \<noteq> [] then message else said) in
      if isFailureStage stage then Some (orNoOutput said1) else setupOutcome (completed \<or> percentage = 100) said1 msgs)"

definition splitHostPort :: "bytes \<Rightarrow> int \<Rightarrow> bytes \<times> int" where
  "splitHostPort addr fallback =
     (case SplitHostPort addr of
        None \<Rightarrow> (addr, fallback)
      | Some (h, p) \<Rightarrow> (case Atoi p of None \<Rightarrow> (h, fallback) | Some n \<Rightarrow> (h, n)))"

record SetupReplicationRequest =
  PrimaryHost :: bytes
  PrimaryPort :: int
  ReplicationUser :: bytes
  ReplicationPassword :: bytes
  DataDirectory :: bytes

datatype demote_error = BackendNotFound | AgentUnreachable | SetupRefused | RebuildFailed bytes

definition dataDirectoryOf :: "Node \<Rightarrow> bytes" where
  "dataDirectoryOf n =
     (case nDataDirectory n of Some d \<Rightarrow> if d \<noteq> [] then d else nReportedDirectory n | None \<Rightarrow> nReportedDirectory n)"

text \<open>
  \<open>connects\<close> says which agents can be reached, \<open>setup\<close> how the one asked answers.  The port is sent
  in 32 bits.
\<close>

definition demoteRequest :: "Node list \<Rightarrow> Node \<Rightarrow> bytes \<Rightarrow> SetupReplicationRequest" where
  "demoteRequest bs target primaryAddr =
     (case splitHostPort (peerAddressFor bs primaryAddr) defaultPostgresPort of (host, port) \<Rightarrow>
      case replicationCredentials bs primaryAddr of (user, password) \<Rightarrow>
        \<lparr>PrimaryHost = host, PrimaryPort = sint (word_of_int port :: 32 word), ReplicationUser = user,
         ReplicationPassword = password, DataDirectory = dataDirectoryOf target\<rparr>)"

definition DemoteToReplica :: "(bytes \<Rightarrow> bool) \<Rightarrow> (bytes \<Rightarrow> SetupReplicationRequest \<Rightarrow> (bytes \<times> int \<times> bytes) list option) \<Rightarrow>
    Node list \<Rightarrow> bytes \<Rightarrow> bytes \<Rightarrow> demote_error option" where
  "DemoteToReplica connects setup bs backendAddr primaryAddr =
     (case findBackend backendAddr bs of
        None \<Rightarrow> Some BackendNotFound
      | Some target \<Rightarrow>
          let agentAddr = agentAddressFor (Some target) (getHost backendAddr) in
          if \<not> connects agentAddr then Some AgentUnreachable
          else (case setup agentAddr (demoteRequest bs target primaryAddr) of
                  None \<Rightarrow> Some SetupRefused
                | Some msgs \<Rightarrow> map_option RebuildFailed (setupOutcome False [] msgs)))"

section \<open>The choice of a replica\<close>

definition candidate :: "(bytes \<Rightarrow> int option) \<Rightarrow> Backend \<Rightarrow> bool" where
  "candidate lagOf b \<longleftrightarrow> bRole b = RoleReplica \<and> bHealthy b \<and> lagOf (bAddress b) \<noteq> None"

lemma bestReplicaLoop_skip: "\<not> candidate lagOf x \<Longrightarrow> bestReplicaLoop lagOf l best (x # bs) = bestReplicaLoop lagOf l best bs"
  by (auto simp: candidate_def split: option.splits)

definition leastLag :: "(bytes \<Rightarrow> int option) \<Rightarrow> Backend list \<Rightarrow> Backend \<Rightarrow> bool" where
  "leastLag lagOf bs b \<longleftrightarrow> b \<in> set bs \<and> candidate lagOf b \<and>
     (\<forall>x\<in>set bs. candidate lagOf x \<longrightarrow> the (lagOf (bAddress b)) \<le> the (lagOf (bAddress x)))"

lemma bestReplicaLoop_known:
  assumes "\<forall>a l. lagOf a = Some l \<longrightarrow> 0 \<le> l" "candidate lagOf b0" "lagOf (bAddress b0) = Some l0"
  shows "\<exists>b. bestReplicaLoop lagOf l0 (Some b0) bs = Some b \<and> leastLag lagOf (b0 # bs) b"
  using assms(2,3)
proof (induction bs arbitrary: b0 l0)
  case Nil
  then show ?case by (simp add: leastLag_def)
next
  case (Cons x bs)
  have p: "l0 \<noteq> -1" using assms(1) Cons.prems(2) by fastforce
  consider (skip) "\<not> candidate lagOf x" | (less) l where "candidate lagOf x" "lagOf (bAddress x) = Some l" "l < l0"
    | (keep) l where "candidate lagOf x" "lagOf (bAddress x) = Some l" "\<not> l < l0"
    by (cases "lagOf (bAddress x)") (auto simp: candidate_def)
  then show ?case
  proof cases
    case skip
    obtain b where "bestReplicaLoop lagOf l0 (Some b0) bs = Some b" "leastLag lagOf (b0 # bs) b" using Cons.IH [OF Cons.prems] by blast
    with skip show ?thesis by (simp add: bestReplicaLoop_skip leastLag_def del: bestReplicaLoop.simps) auto
  next
    case less
    obtain b where b: "bestReplicaLoop lagOf l (Some x) bs = Some b" "leastLag lagOf (x # bs) b" using Cons.IH [OF less(1,2)] by blast
    have "leastLag lagOf (b0 # x # bs) b" using b(2) less Cons.prems by (auto simp: leastLag_def)
    with b(1) less p show ?thesis by (simp add: candidate_def)
  next
    case keep
    obtain b where b: "bestReplicaLoop lagOf l0 (Some b0) bs = Some b" "leastLag lagOf (b0 # bs) b" using Cons.IH [OF Cons.prems] by blast
    have "leastLag lagOf (b0 # x # bs) b" using b(2) keep Cons.prems by (auto simp: leastLag_def)
    with b(1) keep p show ?thesis by (simp add: candidate_def)
  qed
qed

lemma findBestReplica_Cons:
  "findBestReplica lagOf (x # bs) =
     (if candidate lagOf x then bestReplicaLoop lagOf (the (lagOf (bAddress x))) (Some x) bs else findBestReplica lagOf bs)"
  by (auto simp: findBestReplica_def candidate_def split: option.splits)

text \<open>What the manager relies on from its provisioner: a lag it reports is not negative.\<close>

locale lag_source =
  fixes lagOf :: "bytes \<Rightarrow> int option"
  assumes lag_nonneg: "\<forall>a l. lagOf a = Some l \<longrightarrow> 0 \<le> l"
begin

lemma best_has_least_lag:
  shows "case findBestReplica lagOf bs of None \<Rightarrow> \<forall>b\<in>set bs. \<not> candidate lagOf b | Some b \<Rightarrow> leastLag lagOf bs b"
proof (induction bs)
  case (Cons x bs)
  show ?case
  proof (cases "candidate lagOf x")
    case True
    then obtain l where l: "lagOf (bAddress x) = Some l" by (auto simp: candidate_def)
    from bestReplicaLoop_known [OF lag_nonneg True l, of bs] True l show ?thesis by (auto simp: findBestReplica_Cons)
  next
    case False
    with Cons show ?thesis by (auto simp: findBestReplica_Cons leastLag_def split: option.splits)
  qed
qed (simp add: findBestReplica_def)

end

interpretation pg_lag: lag_source "CheckReplicationLag acquires bs" for acquires bs
  by unfold_locales (auto simp: CheckReplicationLag_def split: option.splits if_splits)

text \<open>With the lag the provisioner reports, the choice is by position alone.\<close>

lemma bestReplicaLoop_zero: "bestReplicaLoop (CheckReplicationLag acquires all) 0 (Some b) bs = Some b"
  by (induction bs) (auto simp: CheckReplicationLag_def split: option.splits)

lemma first_reachable_promoted:
  fixes bs :: "Backend list"
  shows "findBestReplica (CheckReplicationLag acquires all) bs = List.find (candidate (CheckReplicationLag acquires all)) bs"
proof (induction bs)
  case (Cons x bs)
  have "candidate (CheckReplicationLag acquires all) x \<Longrightarrow> CheckReplicationLag acquires all (bAddress x) = Some 0"
    by (auto simp: candidate_def CheckReplicationLag_def split: option.splits if_splits)
  with Cons show ?case by (simp add: findBestReplica_Cons bestReplicaLoop_zero)
qed (simp add: findBestReplica_def)

section \<open>Rebuilding a node\<close>

text \<open>
  Any run of the tracker, with two records kept beside it: when each node's rebuilds of the present
  outage started, and how many rebuilds of it are running.  A goroutine that was let in finishes
  once; nothing else is assumed about who calls what when.
\<close>

inductive rejoin_reach :: "int \<Rightarrow> int \<Rightarrow> rejoinTracker \<Rightarrow> (bytes \<Rightarrow> int list) \<Rightarrow> (bytes \<Rightarrow> nat) \<Rightarrow> bool" for interval maxAttempts where
  fresh: "rejoin_reach interval maxAttempts [] (\<lambda>_. []) (\<lambda>_. 0)"
| started: "rejoin_reach interval maxAttempts t hist live \<Longrightarrow>
    rejoin_begin a interval maxAttempts now t = ((True, ex), t') \<Longrightarrow>
    rejoin_reach interval maxAttempts t' (hist(a := hist a @ [now])) (live(a := Suc (live a)))"
| refused: "rejoin_reach interval maxAttempts t hist live \<Longrightarrow>
    rejoin_begin a interval maxAttempts now t = ((False, ex), t') \<Longrightarrow> rejoin_reach interval maxAttempts t' hist live"
| failed: "rejoin_reach interval maxAttempts t hist live \<Longrightarrow> 0 < live a \<Longrightarrow>
    rejoin_reach interval maxAttempts (rejoin_finish a False t) hist (live(a := live a - 1))"
| rebuilt: "rejoin_reach interval maxAttempts t hist live \<Longrightarrow> 0 < live a \<Longrightarrow>
    rejoin_reach interval maxAttempts (rejoin_finish a True t) (hist(a := [])) (live(a := live a - 1))"
| forgotten: "rejoin_reach interval maxAttempts t hist live \<Longrightarrow>
    rejoin_reach interval maxAttempts (rejoin_forget a t)
      (if map_of (rejoin_forget a t) a = None then hist(a := []) else hist) live"

definition node_ok :: "int \<Rightarrow> int \<Rightarrow> rejoinState option \<Rightarrow> int list \<Rightarrow> nat \<Rightarrow> bool" where
  "node_ok interval maxAttempts st hist live \<longleftrightarrow>
     (case st of
        None \<Rightarrow> hist = [] \<and> live = 0
      | Some st \<Rightarrow> attempts st = int (length hist) \<and> (hist \<noteq> [] \<longrightarrow> attempts st \<le> maxAttempts) \<and>
          lastAttempt st = (if hist = [] then None else Some (last hist)) \<and>
          successively (\<lambda>x y. interval \<le> y - x) hist \<and> live = (if inFlight st then 1 else 0))"

lemma map_of_updated: "map_of (AList.update a v t) x = (if x = a then Some v else map_of t x)"
  by (simp add: update_conv')

lemma map_of_deleted: "map_of (AList.delete a t) x = (if x = a then None else map_of t x)"
  by (simp add: delete_conv')

lemma rejoin_begin_step:
  assumes "rejoin_begin a interval maxAttempts now t = ((ok, ex), t')" "node_ok interval maxAttempts (map_of t a) h l"
  shows "node_ok interval maxAttempts (map_of t' a) (if ok then h @ [now] else h) (if ok then Suc l else l)"
    and "x \<noteq> a \<Longrightarrow> map_of t' x = map_of t x" and "ok \<Longrightarrow> l = 0"
proof -
  obtain st where st: "st = (case map_of t a of None \<Rightarrow> newRejoinState | Some st \<Rightarrow> st)" by simp
  have n: "node_ok interval maxAttempts (Some st) h l" using assms(2) st by (auto simp: node_ok_def newRejoinState_def split: option.splits)
  show "node_ok interval maxAttempts (map_of t' a) (if ok then h @ [now] else h) (if ok then Suc l else l)"
    using assms(1) n st by (auto simp: rejoin_begin_def Let_def node_ok_def map_of_updated successively_append_iff newRejoinState_def
        split: if_splits option.splits)
  show "x \<noteq> a \<Longrightarrow> map_of t' x = map_of t x" "ok \<Longrightarrow> l = 0"
    using assms(1) n st by (auto simp: rejoin_begin_def Let_def node_ok_def map_of_updated split: if_splits)
qed

lemma rejoin_reach_ok: "rejoin_reach interval maxAttempts t hist live \<Longrightarrow> node_ok interval maxAttempts (map_of t x) (hist x) (live x)"
proof (induction arbitrary: x rule: rejoin_reach.induct)
  case (started t hist live a now ex t')
  from rejoin_begin_step [OF started.hyps(2) started.IH [of a]] started.IH [of x] show ?case by auto
next
  case (refused t hist live a now ex t')
  from rejoin_begin_step [OF refused.hyps(2) refused.IH [of a]] refused.IH [of x] show ?case by (cases "x = a") auto
next
  case (failed t hist live a)
  from failed.IH [of x] failed.hyps show ?case
    by (auto simp: rejoin_finish_def node_ok_def map_of_updated split: option.splits if_splits)
next
  case (rebuilt t hist live a)
  from rebuilt.IH [of x] rebuilt.hyps show ?case
    by (auto simp: rejoin_finish_def node_ok_def map_of_deleted split: option.splits if_splits)
next
  case (forgotten t hist live a)
  from forgotten.IH [of x] show ?case
    by (auto simp: rejoin_forget_def node_ok_def map_of_deleted split: option.splits if_splits)
qed (simp add: node_ok_def)

lemma reconcile_reach:
  assumes "rejoin_reach (AutoRejoinInterval c) (AutoRejoinMaxAttempts c) t hist live"
  shows "\<exists>hist' live'. rejoin_reach (AutoRejoinInterval c) (AutoRejoinMaxAttempts c) (fst (reconcileRejoins c now primary bs t)) hist' live' \<and>
    (\<forall>a. live' a = live a + count_list (snd (reconcileRejoins c now primary bs t)) (StartRejoin a primary))"
  using assms
proof (induction bs arbitrary: t hist live)
  case Nil
  then show ?case by auto
next
  case (Cons b bs)
  consider (healthy) "\<not> needsRejoin b primary" | (off) "needsRejoin b primary" "\<not> AutoRejoin c" | (on) "needsRejoin b primary" "AutoRejoin c"
    by blast
  then show ?case
  proof cases
    case healthy
    with Cons.IH [OF forgotten [OF Cons.prems]] show ?thesis by simp
  next
    case off
    with Cons.IH [OF Cons.prems] show ?thesis by simp
  next
    case on
    obtain ok ex t1 where b: "rejoin_begin (bAddress b) (AutoRejoinInterval c) (AutoRejoinMaxAttempts c) now t = ((ok, ex), t1)"
      by (metis surj_pair)
    let ?r = "reconcileRejoins c now primary bs t1"
    have e: "reconcileRejoins c now primary (b # bs) t =
        (fst ?r, (if ok then [StartRejoin (bAddress b) primary] else []) @ snd ?r)" using on b by (simp split: prod.split)
    show ?thesis
    proof (cases ok)
      case True
      from b True have b1: "rejoin_begin (bAddress b) (AutoRejoinInterval c) (AutoRejoinMaxAttempts c) now t = ((True, ex), t1)" by simp
      obtain hist' live' where r: "rejoin_reach (AutoRejoinInterval c) (AutoRejoinMaxAttempts c) (fst ?r) hist' live'"
          "\<forall>a. live' a = (live(bAddress b := Suc (live (bAddress b)))) a + count_list (snd ?r) (StartRejoin a primary)"
        using Cons.IH [OF started [OF Cons.prems b1]] by blast
      from r(2) True have "\<forall>a. live' a = live a + count_list (snd (reconcileRejoins c now primary (b # bs) t)) (StartRejoin a primary)"
        by (simp only: e snd_conv) simp
      moreover from r(1) have "rejoin_reach (AutoRejoinInterval c) (AutoRejoinMaxAttempts c)
          (fst (reconcileRejoins c now primary (b # bs) t)) hist' live'" by (simp only: e fst_conv)
      ultimately show ?thesis by blast
    next
      case False
      from b False have b1: "rejoin_begin (bAddress b) (AutoRejoinInterval c) (AutoRejoinMaxAttempts c) now t = ((False, ex), t1)" by simp
      from Cons.IH [OF refused [OF Cons.prems b1]] show ?thesis
        unfolding e using False by simp
    qed
  qed
qed


definition exOptions :: Options where
  "exOptions = Options_sane \<lparr>oEnabled = True, FailureThreshold = 0, FollowPrimary = True, FollowPrimaryTimeout = 0, AutoReattach = True,
     AutoReattachInterval = 0, AutoRejoin = True, AutoRejoinInterval = 100, AutoRejoinTimeout = 0, AutoRejoinMaxAttempts = 1\<rparr>"

definition exRejoin :: rejoinTracker where
  "exRejoin = [(''r'', \<lparr>attempts = 1, lastAttempt = Some 10, inFlight = False\<rparr>)]"

lemma exOptions_rejoin: "AutoRejoinInterval exOptions = 100" "AutoRejoinMaxAttempts exOptions = 1" "AutoRejoin exOptions"
  by (simp_all add: exOptions_def Options_sane_def orDefault_def)

lemma exRejoin_reach: "rejoin_reach 100 1 exRejoin ((\<lambda>_. [])(''r'' := [10])) (\<lambda>_. 0)"
proof -
  have "rejoin_begin ''r'' 100 1 10 [] = ((True, False), [(''r'', \<lparr>attempts = 1, lastAttempt = Some 10, inFlight = True\<rparr>)])"
    by (simp add: rejoin_begin_def newRejoinState_def)
  from failed [OF started [OF rejoin_reach.fresh this], of "''r''"] show ?thesis
    by (simp add: rejoin_finish_def exRejoin_def fun_upd_def cong: if_cong)
qed


text \<open>
  The budget is per outage only as long as the node stays up: a check that finds it unreachable
  (as it is while it restarts) clears its history, and the next attempt is its first again.
\<close>

lemma outage_clears_budget:
  "fst (rejoin_begin ''r'' 100 1 200 exRejoin) = (False, True) \<and>
   (let t = fst (reconcileRejoins exOptions 195 ''p'' [(exNode ''r'' RoleReplica)\<lparr>bHealthy := False, bReplicating := False\<rparr>] exRejoin)
    in fst (rejoin_begin ''r'' 100 1 200 t) = (True, False))"
  by (simp add: rejoin_begin_def exRejoin_def needsRejoin_def exNode_def rejoin_forget_def newRejoinState_def)

section \<open>The monitor and the data plane together\<close>

text \<open>
  Where a caller of \<^verbatim>\<open>TriggerFailover\<close> is.  Caller 0 is the monitor; the others are gateways that
  could not find a primary.  \<open>checks\<close> records what each check of the monitor saw, \<open>verifying\<close>
  counts the goroutines that wait for a promotion to be confirmed.
\<close>

datatype caller = Away | Wants | Running | Ending

record system =
  mgr :: FailoverManager
  callers :: "nat \<Rightarrow> caller"
  verifying :: nat
  checks :: "bool list"

definition systemStart :: "Options \<Rightarrow> system" where
  "systemStart c = \<lparr>mgr = NewFailoverManager c, callers = (\<lambda>_. Away), verifying = 0, checks = []\<rparr>"

definition checked :: "tick \<Rightarrow> FailoverManager \<Rightarrow> bool list" where
  "checked tk m = (if fmState m = FStatePromoting \<or> \<not> leads tk then [] else [healthyPrimaries (tkNodes tk) \<noteq> []])"

inductive system_step :: "system \<Rightarrow> system \<Rightarrow> bool" where
  ticks: "callers g 0 = Away \<Longrightarrow> tkOwned tk \<Longrightarrow> monitorCheck tk (mgr g) = (m, acts, wants) \<Longrightarrow>
    system_step g (g\<lparr>mgr := m, checks := checks g @ checked tk (mgr g), callers := (callers g)(0 := if wants then Wants else Away)\<rparr>)"
| asks: "0 < i \<Longrightarrow> callers g i = Away \<Longrightarrow> system_step g (g\<lparr>callers := (callers g)(i := Wants)\<rparr>)"
| begins: "callers g i = Wants \<Longrightarrow> beginFailover (mgr g) = (b, m) \<Longrightarrow>
    system_step g (g\<lparr>mgr := m, callers := (callers g)(i := if b = Begun then Running else Away)\<rparr>)"
| promotes: "callers g i = Running \<Longrightarrow> runFailover w (mgr g) = (e, m, acts) \<Longrightarrow>
    system_step g (g\<lparr>mgr := m, callers := (callers g)(i := Ending), verifying := verifying g + (if e = None then 1 else 0)\<rparr>)"
| ends: "callers g i = Ending \<Longrightarrow> system_step g (g\<lparr>mgr := endFailover (mgr g), callers := (callers g)(i := Away)\<rparr>)"
| verified: "0 < verifying g \<Longrightarrow> verifyPromotion obs = Some st \<Longrightarrow>
    system_step g (g\<lparr>mgr := (mgr g)\<lparr>fmState := st\<rparr>, verifying := verifying g - 1\<rparr>)"
| rejoins: "system_step g (g\<lparr>mgr := (mgr g)\<lparr>rejoins := rejoin a demoteOk confirmed (FailoverManager.rejoins (mgr g))\<rparr>\<rparr>)"

inductive system_reach :: "Options \<Rightarrow> system \<Rightarrow> bool" for c where
  begun: "system_reach c (systemStart c)"
| went: "system_reach c g \<Longrightarrow> system_step g g' \<Longrightarrow> system_reach c g'"

text \<open>The checks since the monitor last saw a healthy primary.\<close>

definition missedInARow :: "bool list \<Rightarrow> nat" where "missedInARow cs = length (takeWhile (\<lambda>seen. \<not> seen) (rev cs))"

definition counts_inv :: "Options \<Rightarrow> system \<Rightarrow> bool" where
  "counts_inv c g \<longleftrightarrow> fmOpts (mgr g) = Options_sane c \<and> 0 \<le> missedPrimary (mgr g) \<and>
     missedPrimary (mgr g) \<le> int (missedInARow (checks g))"

lemma monitorCheck_counts:
  assumes "monitorCheck tk m = (m', acts, wants)" "0 \<le> missedPrimary m" "missedPrimary m \<le> int (missedInARow cs)"
  shows "fmOpts m' = fmOpts m" "0 \<le> missedPrimary m'" "missedPrimary m' \<le> int (missedInARow (cs @ checked tk m))"
  using assms by (auto simp: monitorCheck_def Let_def checked_def missedInARow_def split: if_splits prod.splits)

lemma counts_step: "system_step g g' \<Longrightarrow> counts_inv c g \<Longrightarrow> counts_inv c g'"
proof (induction rule: system_step.induct)
  case (ticks g tk m acts wants)
  from monitorCheck_counts [OF ticks.hyps(3), of "checks g"] ticks.prems show ?case by (simp add: counts_inv_def)
next
  case (begins g i b m)
  then show ?case by (auto simp: counts_inv_def beginFailover_def split: if_splits)
next
  case (promotes g i w e m acts)
  then show ?case by (auto simp: counts_inv_def runFailover_def Let_def split: option.splits if_splits)
qed (auto simp: counts_inv_def endFailover_def)

lemma counts_reach: "system_reach c g \<Longrightarrow> counts_inv c g"
proof (induction rule: system_reach.induct)
  case begun
  show ?case by (simp add: systemStart_def NewFailoverManager_def counts_inv_def missedInARow_def)
next
  case (went g g')
  with counts_step show ?case by blast
qed

lemma missedInARow_suffix: "n \<le> missedInARow cs \<Longrightarrow> n \<le> length cs \<and> True \<notin> set (drop (length cs - n) cs)"
proof
  assume n: "n \<le> missedInARow cs"
  have le: "missedInARow cs \<le> length cs" using length_takeWhile_le [of "\<lambda>seen. \<not> seen" "rev cs"] by (simp add: missedInARow_def)
  with n show "n \<le> length cs" by simp
  have "rev (drop (length cs - n) cs) = take n (rev cs)" using n le by (simp add: rev_drop)
  also have "\<dots> = take n (takeWhile (\<lambda>seen. \<not> seen) (rev cs))"
    using n takeWhile_eq_take [of "\<lambda>seen. \<not> seen" "rev cs"] by (metis missedInARow_def min.absorb1 take_take)
  finally have r: "rev (drop (length cs - n) cs) = take n (takeWhile (\<lambda>seen. \<not> seen) (rev cs))" .
  have "True \<notin> set (take n (takeWhile (\<lambda>seen. \<not> seen) (rev cs)))"
    by (auto dest!: in_set_takeD set_takeWhileD)
  then show "True \<notin> set (drop (length cs - n) cs)" unfolding r [symmetric] by simp
qed


text \<open>Three checks that find the primary down, with the default threshold of three.\<close>

definition lostTick :: tick where
  "lostTick = \<lparr>tkOwned = True, tkConsensus = None,
     tkNodes = [(exNode ''p'' RolePrimary)\<lparr>bHealthy := False\<rparr>, exNode ''r'' RoleReplica], tkDemoteOk = (\<lambda>_. True), tkNow = 0\<rparr>"

definition lostAfter :: "nat \<Rightarrow> system" where
  "lostAfter n = (systemStart exOptions)\<lparr>mgr := (NewFailoverManager exOptions)\<lparr>missedPrimary := int n\<rparr>, checks := replicate n False\<rparr>"

lemma lostTick_facts: "leads lostTick" "healthyPrimaries (tkNodes lostTick) = []" "tkOwned lostTick"
  by (simp_all add: lostTick_def leads_def healthyPrimaries_def primaries_def exNode_def)

lemma exOptions_threshold: "FailureThreshold (Options_sane exOptions) = 3" "oEnabled (Options_sane exOptions)"
  by (simp_all add: exOptions_def Options_sane_def orDefault_def)

lemma lostTick_check:
  "monitorCheck lostTick (mgr (lostAfter n)) = (mgr (lostAfter (Suc n)), [], 3 \<le> Suc n)"
  using lostTick_facts exOptions_threshold
  by (simp add: monitorCheck_def lostAfter_def NewFailoverManager_def Let_def add.commute)

lemma lost_step:
  "system_step (lostAfter n) ((lostAfter (Suc n))\<lparr>callers := (\<lambda>_. Away)(0 := if 3 \<le> Suc n then Wants else Away)\<rparr>)"
proof -
  have f: "checks (lostAfter n) @ checked lostTick (mgr (lostAfter n)) = checks (lostAfter (Suc n))"
    using lostTick_facts by (simp add: checked_def lostAfter_def NewFailoverManager_def replicate_append_same)
  have a: "callers (lostAfter n) 0 = Away" by (simp add: lostAfter_def systemStart_def)
  from ticks [OF a lostTick_facts(3) lostTick_check] f show ?thesis by (simp add: lostAfter_def systemStart_def)
qed

lemma lost_reach: "n < 3 \<Longrightarrow> system_reach exOptions (lostAfter n)"
proof (induction n)
  case 0
  have "lostAfter 0 = systemStart exOptions" by (simp add: lostAfter_def systemStart_def NewFailoverManager_def)
  then show ?case using begun by simp
next
  case (Suc n)
  then have "(lostAfter (Suc n))\<lparr>callers := (\<lambda>_. Away)(0 := if 3 \<le> Suc n then Wants else Away)\<rparr> = lostAfter (Suc n)"
    by (simp add: lostAfter_def systemStart_def fun_upd_idem)
  with went [OF _ lost_step] Suc show ?case by fastforce
qed


section \<open>Split brain\<close>

definition consensusPrimary :: "tick \<Rightarrow> bytes" where
  "consensusPrimary tk = (case tkConsensus tk of None \<Rightarrow> [] | Some (_, p) \<Rightarrow> p)"

text \<open>Who should win: consensus decides if it names one of them, then the last promotion, then health.\<close>

definition rightWinner :: "tick \<Rightarrow> bytes \<Rightarrow> Backend \<Rightarrow> bool" where
  "rightWinner tk promoted w \<longleftrightarrow> w \<in> set (primaries (tkNodes tk)) \<and>
     (if consensusPrimary tk \<noteq> [] \<and> (\<exists>p\<in>set (primaries (tkNodes tk)). bAddress p = consensusPrimary tk)
      then bAddress w = consensusPrimary tk
      else bHealthy w \<and> ((\<exists>p\<in>set (primaries (tkNodes tk)). bAddress p = promoted \<and> bHealthy p) \<longrightarrow> bAddress w = promoted))"

lemma find_split: "(case List.find P xs of None \<Rightarrow> \<forall>x\<in>set xs. \<not> P x | Some x \<Rightarrow> x \<in> set xs \<and> P x)"
  by (auto simp: find_None_iff find_Some_iff split: option.split)

lemma splitBrainWinner_right:
  assumes "healthyPrimaries (tkNodes tk) \<noteq> []"
  shows "\<exists>w. splitBrainWinner (consensusPrimary tk) promoted (tkNodes tk) = Some w \<and> rightWinner tk promoted w"
proof -
  let ?ps = "primaries (tkNodes tk)"
  obtain h hs where h: "healthyPrimaries (tkNodes tk) = h # hs" using assms by (cases "healthyPrimaries (tkNodes tk)") auto
  then have "h \<in> set (healthyPrimaries (tkNodes tk))" by simp
  then have hp: "h \<in> set ?ps" "bHealthy h" by (auto simp: healthyPrimaries_def)
  from find_split [where P = "\<lambda>p. bAddress p = consensusPrimary tk" and xs = ?ps]
    find_split [where P = "\<lambda>p. bAddress p = promoted \<and> bHealthy p" and xs = ?ps] h hp
  show ?thesis by (auto simp: splitBrainWinner_def orElse_def rightWinner_def split: option.splits)
qed

lemma demoteOthers_exact:
  "Demote x y \<in> set (demoteOthers ok w bs) \<longleftrightarrow> y = bAddress w \<and> x \<noteq> y \<and> x \<in> bAddress ` set (primaries bs)"
  "Promote x \<notin> set (demoteOthers ok w bs)"
  by (auto simp: demoteOthers_def)

text \<open>
  C19.  A split brain is resolved in favour of one node.  When a check finds a healthy primary and more
  than one node that believes to be one, exactly the nodes other than one winner are told to
  follow that winner, the write role is not given to anybody new and no failover is asked for.
  The winner is the one consensus names if it is among them, otherwise the node this manager
  promoted last if that is healthy, otherwise a healthy one.
\<close>

theorem split_brain_resolved:
  assumes "monitorCheck tk m = (m', acts, wants)" "fmState m \<noteq> FStatePromoting" "leads tk"
    "healthyPrimaries (tkNodes tk) \<noteq> []" "1 < length (primaries (tkNodes tk))"
  shows "\<not> wants \<and> m' = m\<lparr>missedPrimary := 0\<rparr> \<and> (\<forall>x. Promote x \<notin> set acts) \<and>
    (\<exists>w. rightWinner tk (lastPromoted m) w \<and>
      (\<forall>x y. Demote x y \<in> set acts \<longleftrightarrow> y = bAddress w \<and> x \<noteq> y \<and> x \<in> bAddress ` set (primaries (tkNodes tk))))"
proof -
  obtain w where w: "splitBrainWinner (consensusPrimary tk) (lastPromoted m) (tkNodes tk) = Some w" "rightWinner tk (lastPromoted m) w"
    using splitBrainWinner_right [OF assms(4)] by blast
  then have a: "acts = demoteOthers (tkDemoteOk tk) w (tkNodes tk)" "\<not> wants" "m' = m\<lparr>missedPrimary := 0\<rparr>"
    using assms by (auto simp: monitorCheck_def Let_def consensusPrimary_def)
  show ?thesis unfolding a(1,3) by (intro conjI exI [of _ w] allI) (use a(2) w(2) demoteOthers_exact in auto)
qed

text \<open>The old primary is back and the node promoted in its place still answers.\<close>

definition exSplit :: tick where
  "exSplit = \<lparr>tkOwned = True, tkConsensus = None, tkNodes = [exNode ''old'' RolePrimary, exNode ''new'' RolePrimary],
     tkDemoteOk = (\<lambda>_. True), tkNow = 0\<rparr>"

theorem split_brain_resolved_witness:
  "let m = (NewFailoverManager exOptions)\<lparr>lastPromoted := ''new''\<rparr>
   in fst (snd (monitorCheck exSplit m)) = [Demote ''old'' ''new'', ReevaluateRole ''old''] \<and>
      (\<exists>w. rightWinner exSplit ''new'' w)"
proof -
  let ?m = "(NewFailoverManager exOptions)\<lparr>lastPromoted := ''new''\<rparr>"
  have e: "monitorCheck exSplit ?m = (?m\<lparr>missedPrimary := 0\<rparr>, [Demote ''old'' ''new'', ReevaluateRole ''old''], False)"
    by (simp add: monitorCheck_def NewFailoverManager_def leads_def exSplit_def healthyPrimaries_def primaries_def exNode_def
        splitBrainWinner_def orElse_def demoteOthers_def Let_def)
  from split_brain_resolved [OF e] e show ?thesis
    by (auto simp: NewFailoverManager_def leads_def exSplit_def healthyPrimaries_def primaries_def exNode_def)
qed

text \<open>
  Consensus is believed even about a node that is down: the one healthy primary is then told to
  follow it.
\<close>

lemma healthy_primary_demoted:
  "let tk = exSplit\<lparr>tkConsensus := Some (True, ''new''), tkNodes := [exNode ''old'' RolePrimary, (exNode ''new'' RolePrimary)\<lparr>bHealthy := False\<rparr>]\<rparr>
   in fst (snd (monitorCheck tk (NewFailoverManager exOptions))) = [Demote ''old'' ''new'', ReevaluateRole ''old'']"
  by (simp add: monitorCheck_def NewFailoverManager_def leads_def exSplit_def healthyPrimaries_def primaries_def exNode_def
      splitBrainWinner_def orElse_def demoteOthers_def Let_def)

text \<open>
  A primary that is down keeps its recorded role, so it counts as a second one: every tick tells it
  to follow the new primary, and the nodes that fell out of replication are not looked at.
\<close>

lemma dead_primary_blocks_rejoin:
  "let tk = exSplit\<lparr>tkNodes := [(exNode ''old'' RolePrimary)\<lparr>bHealthy := False\<rparr>, exNode ''new'' RolePrimary,
                         (exNode ''r'' RoleReplica)\<lparr>bReplicating := False\<rparr>], tkDemoteOk := (\<lambda>_. False)\<rparr>
   in fst (snd (monitorCheck tk (NewFailoverManager exOptions))) = [Demote ''old'' ''new'']"
  by (simp add: monitorCheck_def NewFailoverManager_def leads_def exSplit_def healthyPrimaries_def primaries_def exNode_def
      splitBrainWinner_def orElse_def demoteOthers_def Let_def)

section \<open>Two promotions at once\<close>

text \<open>
  The promoting state is meant to admit one promotion at a time.  But the goroutine that verifies an
  earlier promotion stores its verdict whatever the state is by then, and so lets in a third caller
  while a second is promoting.
\<close>

definition exPromotion :: promotion where
  "exPromotion = \<lparr>pwNodes = [exNode ''r'' RoleReplica], pwLag = (\<lambda>_. Some 0), pwPromoteOk = (\<lambda>_. True), pwConsensus = False, pwNodesAfter = []\<rparr>"

definition exSystem :: "FailoverManager \<Rightarrow> (nat \<Rightarrow> caller) \<Rightarrow> nat \<Rightarrow> system" where
  "exSystem m cs v = \<lparr>mgr = m, callers = cs, verifying = v, checks = []\<rparr>"

lemma exSystem_begins:
  assumes "system_reach exOptions (exSystem m cs v)" "0 < i" "cs i = Away" "fmState m \<noteq> FStatePromoting" "oEnabled (fmOpts m)"
  shows "system_reach exOptions (exSystem (m\<lparr>fmState := FStatePromoting\<rparr>) (cs(i := Running)) v)"
proof -
  have "system_step (exSystem m cs v) (exSystem m (cs(i := Wants)) v)"
    using asks [of i "exSystem m cs v"] assms(2,3) by (simp add: exSystem_def)
  from went [OF assms(1) this] have r: "system_reach exOptions (exSystem m (cs(i := Wants)) v)" .
  have "beginFailover (mgr (exSystem m (cs(i := Wants)) v)) = (Begun, m\<lparr>fmState := FStatePromoting\<rparr>)"
    using assms(4,5) by (simp add: beginFailover_def exSystem_def)
  from went [OF r begins [OF _ this, of i]] show ?thesis by (simp add: exSystem_def)
qed

lemma two_promotions_at_once: "\<exists>g. system_reach exOptions g \<and> callers g 2 = Running \<and> callers g 3 = Running"
proof -
  let ?m = "\<lambda>s. (NewFailoverManager exOptions)\<lparr>lastPromoted := ''r'', missedPrimary := 0, fmState := s\<rparr>"
  have en: "oEnabled (fmOpts (?m s))" for s using exOptions_threshold by (simp add: NewFailoverManager_def)
  have s0: "systemStart exOptions = exSystem (NewFailoverManager exOptions) (\<lambda>_. Away) 0" by (simp add: exSystem_def systemStart_def)
  have "system_reach exOptions (exSystem (NewFailoverManager exOptions) (\<lambda>_. Away) 0)" using begun [of exOptions] unfolding s0 .
  from exSystem_begins [OF this, of 1] exOptions_threshold
  have r1: "system_reach exOptions (exSystem ((NewFailoverManager exOptions)\<lparr>fmState := FStatePromoting\<rparr>) ((\<lambda>_. Away)(1 := Running)) 0)"
    by (simp add: NewFailoverManager_def)
  have p: "\<exists>acts. runFailover exPromotion ((NewFailoverManager exOptions)\<lparr>fmState := FStatePromoting\<rparr>) = (None, ?m FStateVerifying, acts)"
    by (simp add: runFailover_def exPromotion_def findBestReplica_def exNode_def Let_def)
  have r2: "system_reach exOptions (exSystem (?m FStateVerifying) ((\<lambda>_. Away)(1 := Ending)) 1)"
    using p went [OF r1 promotes [of _ 1 exPromotion None]] by (auto simp: exSystem_def)
  have r3: "system_reach exOptions (exSystem (?m FStateVerifying) (\<lambda>_. Away) 1)"
    using went [OF r2 ends [of _ 1]] by (simp add: exSystem_def endFailover_def fun_upd_idem)
  from exSystem_begins [OF r3, of 2] en
  have r4: "system_reach exOptions (exSystem (?m FStatePromoting) ((\<lambda>_. Away)(2 := Running)) 1)" by simp
  have "verifyPromotion [(True, False, False)] = Some FStateIdle" by simp
  from went [OF r4 verified [OF _ this]] have "system_reach exOptions (exSystem (?m FStateIdle) ((\<lambda>_. Away)(2 := Running)) 0)"
    by (simp add: exSystem_def)
  from exSystem_begins [OF this, of 3] en
  have "system_reach exOptions (exSystem (?m FStatePromoting) ((\<lambda>_. Away)(2 := Running, 3 := Running)) 0)" by simp
  then show ?thesis by (intro exI [of _ "exSystem (?m FStatePromoting) ((\<lambda>_. Away)(2 := Running, 3 := Running)) 0"]) (simp add: exSystem_def)
qed

section \<open>Addresses\<close>

lemma lastColon_append:
  assumes "CHR '':'' \<notin> set p"
  shows "lastColon (h @ CHR '':'' # p) = Some (length h)"
proof -
  have "takeWhile (\<lambda>c. c \<noteq> CHR '':'') (rev p @ CHR '':'' # rev h) = rev p"
    using assms takeWhile_append2 [of "rev p" "\<lambda>c. c \<noteq> CHR '':''" "CHR '':'' # rev h"] by fastforce
  then show ?thesis by (simp add: lastColon_def)
qed

text \<open>The parts of an address survive being joined and taken apart again, IPv6 hosts included.\<close>

lemma SplitHostPort_JoinHostPort:
  assumes "set h \<inter> {CHR ''['', CHR '']''} = {}" "set p \<inter> {CHR ''['', CHR '']'', CHR '':''} = {}"
  shows "SplitHostPort (JoinHostPort h p) = Some (h, p)"
proof (cases "CHR '':'' \<in> set h")
  case True
  have "lastColon ((CHR ''['' # h @ '']'') @ CHR '':'' # p) = Some (length (CHR ''['' # h @ '']''))"
    using assms(2) by (intro lastColon_append) auto
  moreover have "takeWhile (\<lambda>c. c \<noteq> CHR '']'') (CHR ''['' # h @ CHR '']'' # CHR '':'' # p) = CHR ''['' # h"
    using assms(1) by (auto simp: takeWhile_append2 takeWhile_tail)
  ultimately show ?thesis using True assms by (auto simp: SplitHostPort_def JoinHostPort_def Let_def)
next
  case False
  have "lastColon (h @ CHR '':'' # p) = Some (length h)" using assms(2) by (intro lastColon_append) auto
  moreover have "hd (h @ CHR '':'' # p) \<noteq> CHR ''[''" using assms(1) by (cases h) auto
  ultimately show ?thesis using False assms by (auto simp: SplitHostPort_def JoinHostPort_def)
qed

text \<open>A node is rebuilt from the host and port its primary listens on.\<close>

lemma demoteRequest_target:
  assumes "peerAddressFor bs primary = JoinHostPort h (decimal n)" "n < 2 ^ 31" "set h \<inter> {CHR ''['', CHR '']''} = {}"
    "set (decimal n) \<inter> {CHR ''['', CHR '']'', CHR '':''} = {}"
  shows "PrimaryHost (demoteRequest bs target primary) = h \<and> PrimaryPort (demoteRequest bs target primary) = int n"
proof -
  have "Atoi (decimal n) = Some (int n)" using assms(2) by (intro Atoi_decimal) simp
  moreover have "sint (word_of_int (int n) :: 32 word) = int n" using assms(2)
    by (simp only: sint_sbintrunc') (rule signed_take_bit_int_eq_self; simp)
  ultimately show ?thesis using assms(1) SplitHostPort_JoinHostPort [OF assms(3,4)]
    by (simp add: demoteRequest_def splitHostPort_def split: prod.split)
qed

end
