(* ===== verification/Console.thy ===== *)
theory Console
  imports Authentication
begin

text \<open>
  Replies Pontus produces itself: the result sets of \<^verbatim>\<open>server/internal/protocol/result_set.go\<close> and the
  administration console that sends them (\<^verbatim>\<open>server/proxy/admin_console.go\<close>, \<^verbatim>\<open>pkg/config/admin_console.go\<close>).

  The contents of the tables that report live state (pools, databases, clients and so on) are the
  argument \<open>tables\<close>.  Upper-casing is exact for comparison with the ASCII names of the commands.
  The lemmas show that what a row description declares is what the rows carry, for every shape of
  format codes a client can ask for, and how the console treats a batch after an error.
\<close>

section \<open>Result sets\<close>

definition oidInt8 :: nat where "oidInt8 = 20"
definition oidText :: nat where "oidText = 25"

record Column =
  colName :: bytes
  OID :: nat

definition TextColumn :: "bytes \<Rightarrow> Column" where "TextColumn name = \<lparr>colName = name, OID = oidText\<rparr>"
definition NumericColumn :: "bytes \<Rightarrow> Column" where "NumericColumn name = \<lparr>colName = name, OID = oidInt8\<rparr>"

text \<open>\<open>rsBroken\<close> is the error of the first row with the wrong number of values.\<close>

record ResultSet =
  rsColumns :: "Column list"
  rsRows :: "bytes list list"
  rsBroken :: bool

definition NewResultSet :: "Column list \<Rightarrow> ResultSet" where
  "NewResultSet columns = \<lparr>rsColumns = columns, rsRows = [], rsBroken = False\<rparr>"

definition Row :: "bytes list \<Rightarrow> ResultSet \<Rightarrow> ResultSet" where
  "Row values r =
     (if length values \<noteq> length (rsColumns r) then r\<lparr>rsBroken := True\<rparr> else r\<lparr>rsRows := rsRows r @ [values]\<rparr>)"

definition formatText :: int where "formatText = 0"
definition formatBinary :: int where "formatBinary = 1"

definition formatFor :: "int list \<Rightarrow> nat \<Rightarrow> int" where
  "formatFor formats column =
     (if length formats = 0 then formatText
      else if length formats = 1 then formats ! 0
      else if column < length formats then formats ! column
      else formatText)"

definition typeSize :: "nat \<Rightarrow> int" where "typeSize oid = (if oid = oidInt8 then 8 else -1)"

text \<open>\<^verbatim>\<open>uint16\<close> and \<^verbatim>\<open>uint64\<close> of a signed number.\<close>

definition uint16_of :: "int \<Rightarrow> nat" where "uint16_of i = nat (i mod 2 ^ 16)"
definition uint64_of :: "int \<Rightarrow> nat" where "uint64_of i = nat (i mod 2 ^ 64)"

definition appendValue :: "bytes \<Rightarrow> Column \<Rightarrow> bytes \<Rightarrow> int \<Rightarrow> bytes" where
  "appendValue dst column value format =
     (if format \<noteq> formatBinary then dst @ put32 (length value) @ value
      else if OID column \<noteq> oidInt8 then dst @ put32 (length value) @ value
      else (case Atoi value of
              None \<Rightarrow> dst @ put32 (2 ^ 32 - 1)
            | Some n \<Rightarrow> dst @ put32 8 @ put64 (uint64_of n)))"

fun appendValues :: "Column list \<Rightarrow> int list \<Rightarrow> nat \<Rightarrow> bytes list \<Rightarrow> bytes \<Rightarrow> bytes" where
  "appendValues columns formats i [] dst = dst"
| "appendValues columns formats i (v # vs) dst =
     appendValues columns formats (Suc i) vs (appendValue dst (columns ! i) v (formatFor formats i))"

fun appendRows :: "Column list \<Rightarrow> int list \<Rightarrow> bytes list list \<Rightarrow> bytes \<Rightarrow> bytes" where
  "appendRows columns formats [] dst = dst"
| "appendRows columns formats (values # rows) dst =
     appendRows columns formats rows
       (appendTagged dst CHR ''D'' (appendValues columns formats 0 values (put16 (length values))))"

fun descriptionFields :: "int list \<Rightarrow> nat \<Rightarrow> Column list \<Rightarrow> bytes \<Rightarrow> bytes" where
  "descriptionFields formats i [] dst = dst"
| "descriptionFields formats i (c # cs) dst =
     descriptionFields formats (Suc i) cs
       (dst @ colName c @ [NUL] @ put32 0 @ put16 0 @ put32 (OID c) @ put16 (uint16_of (typeSize (OID c))) @
        put32 (2 ^ 32 - 1) @ put16 (uint16_of (formatFor formats i)))"

definition appendRowDescription :: "bytes \<Rightarrow> Column list \<Rightarrow> int list \<Rightarrow> bytes" where
  "appendRowDescription dst columns formats =
     appendTagged dst CHR ''T'' (descriptionFields formats 0 columns (put16 (length columns)))"

fun appendIntLoop :: "nat \<Rightarrow> bytes \<Rightarrow> bytes" where
  "appendIntLoop n acc = (if n = 0 then acc else appendIntLoop (n div 10) (char_of (48 + n mod 10) # acc))"

definition appendInt :: "bytes \<Rightarrow> nat \<Rightarrow> bytes" where
  "appendInt dst n = (if n = 0 then dst @ ''0'' else dst @ appendIntLoop n [])"

definition commandTag :: "bytes \<Rightarrow> nat \<Rightarrow> bytes" where
  "commandTag verb rows = appendInt (verb @ '' '') rows @ [NUL]"

definition txIdle :: byte where "txIdle = CHR ''I''"

text \<open>What is written, or \<open>None\<close> for the recorded error.\<close>

definition Send :: "ResultSet \<Rightarrow> bytes option" where
  "Send r =
     (if rsBroken r then None
      else let out1 = appendRowDescription [] (rsColumns r) [];
               out2 = appendRows (rsColumns r) [] (rsRows r) out1;
               out3 = appendTagged out2 CHR ''C'' (commandTag ''SELECT'' (length (rsRows r)))
           in Some (appendTagged out3 CHR ''Z'' [txIdle]))"

definition Description :: "ResultSet \<Rightarrow> int list \<Rightarrow> bytes option" where
  "Description r formats = (if rsBroken r then None else Some (appendRowDescription [] (rsColumns r) formats))"

definition SendRows :: "ResultSet \<Rightarrow> int list \<Rightarrow> bytes option" where
  "SendRows r formats =
     (if rsBroken r then None
      else Some (appendTagged (appendRows (rsColumns r) formats (rsRows r) []) CHR ''C'' (commandTag ''SELECT'' (length (rsRows r)))))"

definition WriteCommandComplete :: "bytes \<Rightarrow> bytes" where
  "WriteCommandComplete tag = appendTagged (appendTagged [] CHR ''C'' (tag @ [NUL])) CHR ''Z'' [txIdle]"

definition WriteEmptyQuery :: bytes where
  "WriteEmptyQuery = appendTagged (appendTagged [] CHR ''I'' []) CHR ''Z'' [txIdle]"

definition WriteAck :: "byte \<Rightarrow> bytes" where "WriteAck tag = appendTagged [] tag []"
definition WriteReadyForQuery :: bytes where "WriteReadyForQuery = appendTagged [] CHR ''Z'' [txIdle]"

definition WriteParameterDescription :: "nat \<Rightarrow> bytes" where
  "WriteParameterDescription n = appendTagged [] CHR ''t'' (put16 n @ concat (replicate n (put32 oidText)))"

definition WriteCommandTag :: "bytes \<Rightarrow> bytes" where "WriteCommandTag tag = appendTagged [] CHR ''C'' (tag @ [NUL])"

section \<open>Messages of the extended protocol\<close>

datatype 'a decoded = Decoded 'a | Malformed bytes | Panics

definition DecodeParse :: "bytes \<Rightarrow> (bytes \<times> bytes) decoded" where
  "DecodeParse b =
     (case indexByte b NUL of
        None \<Rightarrow> Malformed ''the Parse message has no statement name''
      | Some e \<Rightarrow> (case indexByte (drop (e + 1) b) NUL of
          None \<Rightarrow> Malformed ''the Parse message has no query''
        | Some e2 \<Rightarrow> Decoded (take e b, take e2 (drop (e + 1) b))))"

definition DescribeTarget :: "bytes \<Rightarrow> byte" where
  "DescribeTarget b = (case b of [] \<Rightarrow> NUL | c # _ \<Rightarrow> c)"

definition readInt16 :: "bytes \<Rightarrow> (int \<times> bytes) option" where
  "readInt16 b = (if length b < 2 then None else Some (int16_of (be16 b), drop 2 b))"

definition truncatedCount :: bytes where "truncatedCount = ''message is truncated where a count was expected''"

fun skipNames :: "nat \<Rightarrow> bytes \<Rightarrow> bytes option" where
  "skipNames 0 rest = Some rest"
| "skipNames (Suc n) rest = (case indexByte rest NUL of None \<Rightarrow> None | Some e \<Rightarrow> skipNames n (drop (e + 1) rest))"

fun skipParameters :: "nat \<Rightarrow> bytes \<Rightarrow> bytes decoded" where
  "skipParameters 0 rest = Decoded rest"
| "skipParameters (Suc n) rest =
     (if length rest < 4 then Malformed ''the Bind message is truncated in its parameters''
      else let size = int32_of (be32 rest); rest1 = drop 4 rest in
        if size < 0 then skipParameters n rest1
        else if int (length rest1) < size
        then Malformed (''the Bind message declares a '' @ formatInt size @ '' byte parameter it does not carry'')
        else skipParameters n (drop (nat size) rest1))"

definition carries :: "bytes \<Rightarrow> int \<Rightarrow> bytes \<Rightarrow> bytes decoded" where
  "carries what count rest =
     (if int (length rest) < count * 2
      then Malformed (''the Bind message declares '' @ formatInt count @ what @ '' formats it does not carry'')
      else if count < 0 then Panics
      else Decoded (drop (nat count * 2) rest))"

definition DecodeBindResultFormats :: "bytes \<Rightarrow> int list decoded" where
  "DecodeBindResultFormats b =
     (case skipNames 2 b of
        None \<Rightarrow> Malformed ''the Bind message is truncated in its names''
      | Some r1 \<Rightarrow> (case readInt16 r1 of
          None \<Rightarrow> Malformed truncatedCount
        | Some (n1, r2) \<Rightarrow> (case carries '' parameter'' n1 r2 of
            Malformed e \<Rightarrow> Malformed e
          | Panics \<Rightarrow> Panics
          | Decoded r3 \<Rightarrow> (case readInt16 r3 of
              None \<Rightarrow> Malformed truncatedCount
            | Some (n2, r4) \<Rightarrow> (case skipParameters (nat n2) r4 of
                Malformed e \<Rightarrow> Malformed e
              | Panics \<Rightarrow> Panics
              | Decoded r5 \<Rightarrow> (case readInt16 r5 of
                  None \<Rightarrow> Malformed truncatedCount
                | Some (n3, r6) \<Rightarrow> (case carries '' result'' n3 r6 of
                    Malformed e \<Rightarrow> Malformed e
                  | Panics \<Rightarrow> Panics
                  | Decoded _ \<Rightarrow> Decoded (map (\<lambda>i. int16_of (be16 (drop (i * 2) r6))) [0..<nat n3]))))))))"

section \<open>The console\<close>

record AdminConsole =
  acEnabled :: bool
  acDatabase :: bytes
  acUsers :: "bytes list"

definition DefaultAdminDatabase :: bytes where "DefaultAdminDatabase = ''pgbouncer''"

definition DatabaseName :: "AdminConsole option \<Rightarrow> bytes" where
  "DatabaseName a = (case a of None \<Rightarrow> DefaultAdminDatabase | Some c \<Rightarrow> if acDatabase c = [] then DefaultAdminDatabase else acDatabase c)"

definition Permits :: "AdminConsole option \<Rightarrow> bytes \<Rightarrow> bool" where
  "Permits a user = (case a of None \<Rightarrow> False | Some c \<Rightarrow> acEnabled c \<and> user \<in> set (acUsers c))"

definition AdminConsole_Validate :: "AdminConsole option \<Rightarrow> bool" where
  "AdminConsole_Validate a =
     (case a of
        None \<Rightarrow> True
      | Some c \<Rightarrow> \<not> acEnabled c \<or> (\<exists>u\<in>set (acUsers c). TrimSpace u \<noteq> []) \<and> ''*'' \<notin> set (acUsers c))"

definition handles :: "AdminConsole option \<Rightarrow> bytes \<Rightarrow> bool" where
  "handles a database \<longleftrightarrow> (case a of None \<Rightarrow> False | Some c \<Rightarrow> acEnabled c \<and> database = DatabaseName a)"

record consoleReply =
  crRows :: "ResultSet option"
  crTag :: bytes

definition upperByte :: "byte \<Rightarrow> byte" where
  "upperByte c = (if 97 \<le> bval c \<and> bval c \<le> 122 then char_of (bval c - 32) else c)"

text \<open>Outside ASCII only the dotless i and the long s have an ASCII upper case.\<close>

fun ToUpper :: "bytes \<Rightarrow> bytes" where
  "ToUpper (a # b # s) =
     (if a = CHR 0xC4 \<and> b = CHR 0xB1 then CHR ''I'' # ToUpper s
      else if a = CHR 0xC5 \<and> b = CHR 0xBF then CHR ''S'' # ToUpper s
      else upperByte a # ToUpper (b # s))"
| "ToUpper [a] = [upperByte a]"
| "ToUpper [] = []"

definition trimSemicolons :: "bytes \<Rightarrow> bytes" where
  "trimSemicolons s = rev (dropWhile (\<lambda>c. c = CHR '';'') (rev s))"

definition parseCommand :: "bytes \<Rightarrow> bytes \<times> bytes" where
  "parseCommand sql =
     (let trimmed = TrimSpace (trimSemicolons (TrimSpace sql)) in
      if trimmed = [] then ([], [])
      else (case cutByte CHR '' '' trimmed of
              None \<Rightarrow> (ToUpper trimmed, [])
            | Some (first, rest) \<Rightarrow> (ToUpper first, ToUpper (TrimSpace rest))))"

definition showHelp :: ResultSet where
  "showHelp =
     fold Row
      [[''SHOW POOLS'', ''connection pool occupancy per database and user''],
       [''SHOW STATS'', ''per-database query, byte and time totals, and their rates''],
       [''SHOW DATABASES'', ''configured backends, their role and their ceiling''],
       [''SHOW CLIENTS'', ''live client sessions''],
       [''SHOW SERVERS'', ''open backend connections and what each is doing''],
       [''SHOW LISTS'', ''size of each internal collection''],
       [''SHOW CONFIG'', ''settings governing the data path''],
       [''SHOW VERSION'', ''the running Pontus build''],
       [''SHOW HELP'', ''this list'']]
      (NewResultSet [TextColumn ''command'', TextColumn ''description''])"

text \<open>An error is its SQLSTATE and its text.\<close>

definition showTable :: "(bytes \<Rightarrow> ResultSet) \<Rightarrow> bytes \<Rightarrow> (bytes \<times> bytes) + consoleReply" where
  "showTable tables what =
     (if what \<in> {''POOLS'', ''DATABASES'', ''CLIENTS'', ''LISTS'', ''CONFIG'', ''VERSION''}
      then Inr \<lparr>crRows = Some (tables what), crTag = []\<rparr>
      else if what \<in> {''HELP'', []} then Inr \<lparr>crRows = Some showHelp, crTag = []\<rparr>
      else if what \<in> {''STATS'', ''STATS_TOTALS'', ''TOTALS''} then Inr \<lparr>crRows = Some (tables ''STATS''), crTag = []\<rparr>
      else if what = ''SERVERS'' then Inr \<lparr>crRows = Some (tables what), crTag = []\<rparr>
      else Inl (''42601'', ''unrecognised: SHOW '' @ what @ ''; SHOW HELP lists what this console answers''))"

definition answer :: "(bytes \<Rightarrow> ResultSet) \<Rightarrow> bytes \<Rightarrow> (bytes \<times> bytes) + consoleReply" where
  "answer tables sql =
     (case parseCommand sql of (verb, argument) \<Rightarrow>
        if verb = [] then Inr \<lparr>crRows = None, crTag = []\<rparr>
        else if verb = ''SHOW'' then showTable tables argument
        else if verb \<in> {''SET'', ''BEGIN'', ''COMMIT'', ''ROLLBACK'', ''DISCARD'', ''RESET''} then Inr \<lparr>crRows = None, crTag = verb\<rparr>
        else Inl (''42601'', ''unrecognised console command: '' @ verb @ ''; SHOW HELP lists what this console answers''))"

record extendedPortal =
  pQuery :: bytes
  pPrepared :: "consoleReply option"
  pFailed :: bool
  pFormats :: "int list"

definition newPortal :: extendedPortal where
  "newPortal = \<lparr>pQuery = [], pPrepared = None, pFailed = False, pFormats = []\<rparr>"

text \<open>How a session ends; \<open>ReplyBroken\<close> is the recorded error of a result set.\<close>

datatype console_end = AdminHandled | AdminUnavailable | ReadFailed wire_error | WriteFailed | ReplyBroken | Panicked

definition sendOr :: "extendedPortal \<Rightarrow> bytes option \<Rightarrow> client_io \<Rightarrow> (console_end + extendedPortal) \<times> client_io" where
  "sendOr portal reply io =
     (case reply of
        None \<Rightarrow> (Inl ReplyBroken, io)
      | Some out \<Rightarrow> (case clientWrite io out of None \<Rightarrow> (Inl WriteFailed, io) | Some io1 \<Rightarrow> (Inr portal, io1)))"

definition failExtended :: "extendedPortal \<Rightarrow> bytes \<Rightarrow> bytes \<Rightarrow> client_io \<Rightarrow> (console_end + extendedPortal) \<times> client_io" where
  "failExtended portal sqlstate message io = sendOr (portal\<lparr>pFailed := True\<rparr>) (Some (ErrorResponse ''ERROR'' sqlstate message)) io"

definition simpleQuery :: "(bytes \<Rightarrow> ResultSet) \<Rightarrow> extendedPortal \<Rightarrow> bytes \<Rightarrow> client_io \<Rightarrow> (console_end + extendedPortal) \<times> client_io" where
  "simpleQuery tables portal sql io =
     (case answer tables sql of
        Inl (sqlstate, message) \<Rightarrow>
          (case sendOr portal (Some (ErrorResponse ''ERROR'' sqlstate message)) io of
             (Inl e, io1) \<Rightarrow> (Inl e, io1)
           | (Inr _, io1) \<Rightarrow> sendOr portal (Some (WriteCommandComplete ''SHOW'')) io1)
      | Inr reply \<Rightarrow> (case crRows reply of
          None \<Rightarrow> sendOr portal (Some (if crTag reply = [] then WriteEmptyQuery else WriteCommandComplete (crTag reply))) io
        | Some rows \<Rightarrow> sendOr portal (Send rows) io))"

definition prepare :: "(bytes \<Rightarrow> ResultSet) \<Rightarrow> extendedPortal \<Rightarrow> (bytes \<times> bytes) + consoleReply \<times> extendedPortal" where
  "prepare tables portal =
     (case pPrepared portal of
        Some reply \<Rightarrow> Inr (reply, portal)
      | None \<Rightarrow> (case answer tables (pQuery portal) of
          Inl e \<Rightarrow> Inl e | Inr reply \<Rightarrow> Inr (reply, portal\<lparr>pPrepared := Some reply\<rparr>)))"

definition describe :: "(bytes \<Rightarrow> ResultSet) \<Rightarrow> extendedPortal \<Rightarrow> byte \<Rightarrow> client_io \<Rightarrow> (console_end + extendedPortal) \<times> client_io" where
  "describe tables portal target io =
     (case prepare tables portal of
        Inl (sqlstate, message) \<Rightarrow> failExtended portal sqlstate message io
      | Inr (reply, p1) \<Rightarrow>
          (case (if target = CHR ''S'' then sendOr p1 (Some (WriteParameterDescription 0)) io else (Inr p1, io)) of
             (Inl e, io1) \<Rightarrow> (Inl e, io1)
           | (Inr _, io1) \<Rightarrow> (case crRows reply of
               None \<Rightarrow> sendOr p1 (Some (WriteAck CHR ''n'')) io1
             | Some rows \<Rightarrow> sendOr p1 (Description rows (pFormats p1)) io1)))"

definition executePortal :: "(bytes \<Rightarrow> ResultSet) \<Rightarrow> extendedPortal \<Rightarrow> client_io \<Rightarrow> (console_end + extendedPortal) \<times> client_io" where
  "executePortal tables portal io =
     (case prepare tables portal of
        Inl (sqlstate, message) \<Rightarrow> failExtended portal sqlstate message io
      | Inr (reply, p1) \<Rightarrow> (case crRows reply of
          None \<Rightarrow> sendOr p1 (Some (WriteCommandTag (crTag reply))) io
        | Some rows \<Rightarrow> sendOr p1 (SendRows rows (pFormats p1)) io))"

text \<open>\<^verbatim>\<open>string(rune(tag))\<close>.\<close>

definition runeString :: "byte \<Rightarrow> bytes" where
  "runeString c = (if bval c < 128 then [c] else [char_of (192 + bval c div 64), char_of (128 + bval c mod 64)])"

definition dispatch :: "(bytes \<Rightarrow> ResultSet) \<Rightarrow> extendedPortal \<Rightarrow> byte \<Rightarrow> bytes \<Rightarrow> client_io \<Rightarrow>
    (console_end + extendedPortal) \<times> client_io" where
  "dispatch tables portal tag b io =
     (if pFailed portal \<and> tag \<noteq> CHR ''S'' then (Inr portal, io)
      else if tag = CHR ''Q'' then simpleQuery tables portal (QueryText b) io
      else if tag = CHR ''P'' then
        (case DecodeParse b of
           Decoded (_, query) \<Rightarrow> sendOr (portal\<lparr>pQuery := query, pPrepared := None, pFormats := []\<rparr>) (Some (WriteAck CHR ''1'')) io
         | Malformed e \<Rightarrow> failExtended portal ''08P01'' e io
         | Panics \<Rightarrow> (Inl Panicked, io))
      else if tag = CHR ''B'' then
        (case DecodeBindResultFormats b of
           Decoded formats \<Rightarrow> sendOr (portal\<lparr>pFormats := formats\<rparr>) (Some (WriteAck CHR ''2'')) io
         | Malformed e \<Rightarrow> failExtended portal ''08P01'' e io
         | Panics \<Rightarrow> (Inl Panicked, io))
      else if tag = CHR ''D'' then describe tables portal (DescribeTarget b) io
      else if tag = CHR ''E'' then executePortal tables portal io
      else if tag = CHR ''C'' then sendOr portal (Some (WriteAck CHR ''3'')) io
      else if tag = CHR ''H'' then (Inr portal, io)
      else if tag = CHR ''S'' then sendOr (portal\<lparr>pFailed := False\<rparr>) (Some WriteReadyForQuery) io
      else failExtended portal ''0A000'' (''the admin console does not answer message type '' @ runeString tag) io)"

lemma sendOr_inbox: "sendOr p r io = (x, io') \<Longrightarrow> inbox io' = inbox io"
  by (auto simp: sendOr_def clientWrite_def split: option.splits if_splits)

lemma dispatch_inbox: "dispatch tables portal tag b io = (x, io') \<Longrightarrow> inbox io' = inbox io"
  by (auto simp: dispatch_def simpleQuery_def describe_def executePortal_def failExtended_def
      split: if_splits sum.splits prod.splits option.splits decoded.splits dest!: sendOr_inbox)

function (sequential) consoleLoop :: "(bytes \<Rightarrow> ResultSet) \<Rightarrow> extendedPortal \<Rightarrow> client_io \<Rightarrow> console_end \<times> client_io" where
  "consoleLoop tables portal io =
     (case ReadCommand (inbox io) of
        Inl (IO _) \<Rightarrow> (AdminHandled, io)
      | Inl e \<Rightarrow> (ReadFailed e, io)
      | Inr ((tag, b), r) \<Rightarrow>
          if tag = CHR ''X'' then (AdminHandled, io\<lparr>inbox := r\<rparr>)
          else (case dispatch tables portal tag b (io\<lparr>inbox := r\<rparr>) of
                  (Inl e, io1) \<Rightarrow> (e, io1)
                | (Inr p, io1) \<Rightarrow> consoleLoop tables p io1))"
  by pat_completeness auto
termination
  by (relation "measure (\<lambda>(_, _, io). length (inbox io))") (auto dest!: command_wire.dec_consumes dispatch_inbox [OF sym])

definition consoleStartup :: "bytes \<Rightarrow> StartupInfo" where
  "consoleStartup version =
     \<lparr>Params =
       [(''server_version'', ''14.0 (pontus '' @ version @ '')''), (''server_encoding'', ''UTF8''), (''client_encoding'', ''UTF8''),
        (''DateStyle'', ''ISO, MDY''), (''TimeZone'', ''UTC''), (''is_superuser'', ''off''),
        (''default_transaction_read_only'', ''on''), (''in_hot_standby'', ''off''), (''integer_datetimes'', ''on''),
        (''standard_conforming_strings'', ''on''), (''application_name'', ''pontus-admin'')],
      infoKey = replicate 8 NUL\<rparr>"

definition serve :: "bool \<Rightarrow> AdminConsole option \<Rightarrow> bytes \<Rightarrow> (bytes \<Rightarrow> ResultSet) \<Rightarrow> bytes \<Rightarrow> client_io \<Rightarrow> console_end \<times> client_io" where
  "serve authenticated cfg version tables user io =
     (if \<not> authenticated then
        (AdminUnavailable, WriteClientError io ''0A000''
          ''the admin console requires auth.mode: pontus, because in passthrough mode a backend verifies the password and the console has no backend'')
      else if \<not> Permits cfg user then
        (AdminUnavailable, WriteClientError io ''42501'' ''this role may not use the admin console'')
      else (case CompleteClientStartup (Some (consoleStartup version)) io of
              None \<Rightarrow> (WriteFailed, io)
            | Some io1 \<Rightarrow> consoleLoop tables newPortal io1))"

section \<open>Reading a reply the way a driver does\<close>

text \<open>
  A driver decodes by what the description declares: the type and the format of each column.
\<close>

record field =
  fName :: bytes
  fOID :: nat
  fSize :: int
  fFormat :: int

datatype cell = Null | TextCell bytes | Int8Cell int

definition be64 :: "bytes \<Rightarrow> nat" where "be64 s = be32 s * 2 ^ 32 + be32 (drop 4 s)"

definition int64_of :: "nat \<Rightarrow> int" where "int64_of n = (if n < 2 ^ 63 then int n else int n - 2 ^ 64)"

fun readFields :: "nat \<Rightarrow> bytes \<Rightarrow> field list option" where
  "readFields 0 rest = (if rest = [] then Some [] else None)"
| "readFields (Suc n) rest =
     (case indexByte rest NUL of
        None \<Rightarrow> None
      | Some e \<Rightarrow> let r = drop (e + 1) rest in
          if length r < 18 then None
          else map_option (Cons \<lparr>fName = take e rest, fOID = be32 (drop 6 r), fSize = int16_of (be16 (drop 10 r)),
                                 fFormat = int16_of (be16 (drop 16 r))\<rparr>) (readFields n (drop 18 r)))"

definition readDescription :: "bytes \<Rightarrow> field list option" where
  "readDescription b = (if length b < 2 then None else readFields (be16 b) (drop 2 b))"

fun readCells :: "field list \<Rightarrow> bytes \<Rightarrow> cell list option" where
  "readCells [] rest = (if rest = [] then Some [] else None)"
| "readCells (f # fs) rest =
     (if length rest < 4 then None
      else let n = int32_of (be32 rest); r = drop 4 rest in
        if n = -1 then map_option (Cons Null) (readCells fs r)
        else if n < 0 \<or> int (length r) < n then None
        else if fFormat f = 1 \<and> fOID f = oidInt8
        then (if n = 8 then map_option (Cons (Int8Cell (int64_of (be64 r)))) (readCells fs (drop 8 r)) else None)
        else map_option (Cons (TextCell (take (nat n) r))) (readCells fs (drop (nat n) r)))"

definition readRow :: "field list \<Rightarrow> bytes \<Rightarrow> cell list option" where
  "readRow fs b = (if length b < 2 \<or> be16 b \<noteq> length fs then None else readCells fs (drop 2 b))"

text \<open>What the description should declare, and what a value should then be read as.\<close>

definition requestedFormat :: "int list \<Rightarrow> nat \<Rightarrow> int" where
  "requestedFormat formats i = (case formats of [] \<Rightarrow> 0 | [f] \<Rightarrow> f | _ \<Rightarrow> if i < length formats then formats ! i else 0)"

definition fieldOf :: "int list \<Rightarrow> nat \<Rightarrow> Column \<Rightarrow> field" where
  "fieldOf formats i c = \<lparr>fName = colName c, fOID = OID c, fSize = (if OID c = oidInt8 then 8 else -1), fFormat = requestedFormat formats i\<rparr>"

definition fieldsOf :: "int list \<Rightarrow> Column list \<Rightarrow> field list" where
  "fieldsOf formats cs = map (\<lambda>(i, c). fieldOf formats i c) (zip [0..<length cs] cs)"

definition cellOf :: "field \<Rightarrow> bytes \<Rightarrow> cell" where
  "cellOf f v =
     (if fFormat f = 1 \<and> fOID f = oidInt8 then (case Atoi v of None \<Rightarrow> Null | Some n \<Rightarrow> Int8Cell n) else TextCell v)"

definition sizedSet :: "Column list \<Rightarrow> bytes list list \<Rightarrow> int list \<Rightarrow> bool" where
  "sizedSet cs vss formats \<longleftrightarrow> length cs < 2 ^ 16 \<and> (\<forall>c\<in>set cs. NUL \<notin> set (colName c) \<and> OID c < 2 ^ 32) \<and>
     (\<forall>vs\<in>set vss. \<forall>v\<in>set vs. length v < 2 ^ 31) \<and> (\<forall>f\<in>set formats. - (2 ^ 15) \<le> f \<and> f < 2 ^ 15)"

lemma neg_mod:
  fixes i m :: int
  assumes "- m \<le> i" "i < 0"
  shows "i mod m = i + m"
proof -
  have "(i + m) mod m = i + m" by (rule mod_pos_pos_trivial) (use assms in simp_all)
  then show ?thesis by simp
qed

lemma int16_uint16: "- (2 ^ 15) \<le> i \<Longrightarrow> i < 2 ^ 15 \<Longrightarrow> int16_of (uint16_of i) = i \<and> uint16_of i < 2 ^ 16"
proof -
  assume i: "- (2 ^ 15) \<le> i" "i < 2 ^ 15"
  show ?thesis
  proof (cases "0 \<le> i")
    case True
    then have "i mod 2 ^ 16 = i" using i by simp
    with True i show ?thesis by (simp add: int16_of_def uint16_of_def)
  next
    case False
    then have "i mod 2 ^ 16 = i + 2 ^ 16" using i by (intro neg_mod) simp_all
    with False i show ?thesis by (simp add: int16_of_def uint16_of_def nat_less_iff)
  qed
qed

lemma int64_uint64: "- (2 ^ 63) \<le> i \<Longrightarrow> i < 2 ^ 63 \<Longrightarrow> int64_of (uint64_of i) = i \<and> uint64_of i < 2 ^ 64"
proof -
  assume i: "- (2 ^ 63) \<le> i" "i < 2 ^ 63"
  show ?thesis
  proof (cases "0 \<le> i")
    case True
    then have "i mod 2 ^ 64 = i" using i by simp
    with True i show ?thesis by (simp add: int64_of_def uint64_of_def nat_less_iff)
  next
    case False
    then have "i mod 2 ^ 64 = i + 2 ^ 64" using i by (intro neg_mod) simp_all
    with False i show ?thesis by (simp add: int64_of_def uint64_of_def nat_less_iff)
  qed
qed

lemma be64_put64: "n < 2 ^ 64 \<Longrightarrow> be64 (put64 n @ r) = n"
proof -
  assume "n < 2 ^ 64"
  then have "n div 2 ^ 32 < 2 ^ 32" by (simp add: div_less_iff_less_mult)
  then show ?thesis by (simp add: be64_def put64_def)
qed

lemma Atoi_range: "Atoi s = Some n \<Longrightarrow> - (2 ^ 63) \<le> n \<and> n < 2 ^ 63"
  by (auto simp: Atoi_def Let_def split: if_splits option.splits prod.splits list.splits)

lemma formatFor_range:
  assumes "\<forall>f\<in>set formats. - (2 ^ 15) \<le> f \<and> f < 2 ^ 15"
  shows "- (2 ^ 15) \<le> formatFor formats i" "formatFor formats i < 2 ^ 15"
  using assms by (auto simp: formatFor_def formatText_def)

lemma appendValue_append: "appendValue dst c v f = dst @ appendValue [] c v f"
  by (simp add: appendValue_def split: option.split)

lemma appendValues_append: "appendValues cs formats i vs dst = dst @ appendValues cs formats i vs []"
proof (induction vs arbitrary: i dst)
  case (Cons v vs)
  show ?case
    using Cons [of "Suc i" "appendValue dst (cs ! i) v (formatFor formats i)"] Cons [of "Suc i" "appendValue [] (cs ! i) v (formatFor formats i)"]
      appendValue_append [of dst] by simp
qed simp

lemma requestedFormat_eq: "requestedFormat formats i = formatFor formats i"
  by (simp add: requestedFormat_def formatFor_def formatText_def split: list.split)

lemma int32_small: "n < 2 ^ 31 \<Longrightarrow> int32_of n = int n"
  by (simp add: int32_of_def)

lemma readCells_value:
  assumes "fOID f = OID c" "length v < 2 ^ 31"
  shows "readCells (f # fs) (appendValue [] c v (fFormat f) @ rest) = map_option (Cons (cellOf f v)) (readCells fs rest)"
proof (cases "fFormat f = 1 \<and> OID c = oidInt8")
  case False
  then have "appendValue [] c v (fFormat f) = put32 (length v) @ v" by (auto simp: appendValue_def formatBinary_def)
  moreover have "int32_of (be32 (put32 (length v) @ v @ rest)) = int (length v)" using assms(2) by (simp add: int32_small)
  ultimately show ?thesis using False assms(1) by (auto simp: cellOf_def Let_def)
next
  case True
  show ?thesis
  proof (cases "Atoi v")
    case None
    have "int32_of (be32 (put32 (2 ^ 32 - 1) @ rest)) = -1" by (simp add: int32_of_def)
    with True None assms(1) show ?thesis by (simp add: appendValue_def formatBinary_def cellOf_def)
  next
    case (Some n)
    have "int64_of (be64 (put64 (uint64_of n) @ rest)) = n"
      using int64_uint64 [of n] Atoi_range [OF Some] be64_put64 by simp
    moreover have "int32_of (be32 (put32 8 @ put64 (uint64_of n) @ rest)) = 8" by (simp add: int32_of_def)
    ultimately show ?thesis using True Some assms(1) by (simp add: appendValue_def formatBinary_def cellOf_def)
  qed
qed

lemma readCells_values:
  assumes "\<forall>v\<in>set vs. length v < 2 ^ 31"
  shows "readCells (map (\<lambda>j. fieldOf formats j (cs ! j)) [i..<i + length vs]) (appendValues cs formats i vs []) =
    Some (map (\<lambda>(j, v). cellOf (fieldOf formats j (cs ! j)) v) (zip [i..<i + length vs] vs))"
  using assms
proof (induction vs arbitrary: i)
  case (Cons v vs)
  let ?f = "fieldOf formats i (cs ! i)"
  have l: "[i..<i + length (v # vs)] = i # [Suc i..<Suc i + length vs]" by (simp add: upt_conv_Cons del: upt_Suc)
  have "appendValues cs formats i (v # vs) [] = appendValue [] (cs ! i) v (fFormat ?f) @ appendValues cs formats (Suc i) vs []"
    by (simp add: fieldOf_def requestedFormat_eq appendValues_append [of cs formats "Suc i" vs "appendValue [] _ _ _"])
  moreover have "fOID ?f = OID (cs ! i)" by (simp add: fieldOf_def)
  ultimately show ?case unfolding l using readCells_value [of ?f "cs ! i" v] Cons.IH [of "Suc i"] Cons.prems
    by (simp del: readCells.simps upt_Suc)
qed simp

lemma fieldsOf_eq: "fieldsOf formats cs = map (\<lambda>j. fieldOf formats j (cs ! j)) [0..<length cs]"
  by (rule nth_equalityI) (simp_all add: fieldsOf_def)

lemma readRow_values:
  assumes "\<forall>v\<in>set vs. length v < 2 ^ 31" "length vs = length cs" "length cs < 2 ^ 16"
  shows "readRow (fieldsOf formats cs) (appendValues cs formats 0 vs (put16 (length vs))) = Some (map2 cellOf (fieldsOf formats cs) vs)"
proof -
  have e: "appendValues cs formats 0 vs (put16 (length vs)) = put16 (length vs) @ appendValues cs formats 0 vs []"
    by (rule appendValues_append)
  have "map (\<lambda>(j, v). cellOf (fieldOf formats j (cs ! j)) v) (zip [0..<length vs] vs) = map2 cellOf (fieldsOf formats cs) vs"
    using assms(2) by (intro nth_equalityI) (simp_all add: fieldsOf_eq)
  with readCells_values [OF assms(1), of formats cs 0] assms(2,3) show ?thesis unfolding readRow_def e by (simp add: fieldsOf_eq)
qed

lemma descriptionFields_append: "descriptionFields formats i cs dst = dst @ descriptionFields formats i cs []"
proof (induction cs arbitrary: i dst)
  case (Cons c cs)
  show ?case by (simp only: descriptionFields.simps) (subst (1 2) Cons.IH, simp)
qed simp

lemma readFields_columns:
  assumes "\<forall>c\<in>set cs. NUL \<notin> set (colName c) \<and> OID c < 2 ^ 32" "\<forall>f\<in>set formats. - (2 ^ 15) \<le> f \<and> f < 2 ^ 15"
  shows "readFields (length cs) (descriptionFields formats i cs []) = Some (map (\<lambda>(j, c). fieldOf formats j c) (zip [i..<i + length cs] cs))"
  using assms(1)
proof (induction cs arbitrary: i)
  case (Cons c cs)
  have l: "[i..<i + length (c # cs)] = i # [Suc i..<Suc i + length cs]" by (simp add: upt_conv_Cons del: upt_Suc)
  let ?t = "put32 0 @ put16 0 @ put32 (OID c) @ put16 (uint16_of (typeSize (OID c))) @ put32 (2 ^ 32 - 1) @
     put16 (uint16_of (formatFor formats i)) @ descriptionFields formats (Suc i) cs []"
  have e: "descriptionFields formats i (c # cs) [] = colName c @ NUL # ?t"
    by (simp only: descriptionFields.simps) (subst descriptionFields_append, simp)
  have "- (2 ^ 15) \<le> typeSize (OID c)" "typeSize (OID c) < 2 ^ 15" by (simp_all add: typeSize_def)
  note s = int16_uint16 [OF this] int16_uint16 [OF formatFor_range [OF assms(2), of i]]
  have "be32 (drop 6 ?t) = OID c" "be16 (drop 10 ?t) = uint16_of (typeSize (OID c))" "be16 (drop 16 ?t) = uint16_of (formatFor formats i)"
    "drop 18 ?t = descriptionFields formats (Suc i) cs []" "18 \<le> length ?t" using Cons.prems s by simp_all
  with Cons s show ?case unfolding l e by (simp add: fieldOf_def requestedFormat_eq typeSize_def Let_def)
qed simp

section \<open>Properties\<close>

lemma appendRows_eq:
  "appendRows cs formats rows dst =
     dst @ concat (map (\<lambda>vs. writeTagged CHR ''D'' (appendValues cs formats 0 vs (put16 (length vs)))) rows)"
  by (induction rows arbitrary: dst) (simp_all add: appendTagged_eq)

lemma fold_Row:
  "rsColumns (fold Row vss r) = rsColumns r \<and>
   (rsBroken (fold Row vss r) \<longleftrightarrow> rsBroken r \<or> (\<exists>vs\<in>set vss. length vs \<noteq> length (rsColumns r))) \<and>
   rsRows (fold Row vss r) = rsRows r @ filter (\<lambda>vs. length vs = length (rsColumns r)) vss"
  by (induction vss arbitrary: r) (auto simp: Row_def)

text \<open>
  C21.  A result set is well typed.  Whatever columns it has, whatever rows were added and whichever
  result formats the client asked for (none, one for all, or one each): if some row does not have one
  value per column, nothing is sent at all.  Otherwise the description declares exactly the columns
  with their types and the requested formats, and a driver that decodes the rows by that declaration
  reads every row without error and gets the values: text as it was, a number asked for in binary as
  that number, and NULL where a numeric column does not hold one.
\<close>

theorem result_set_typed:
  assumes "sizedSet cs vss formats" "r = fold Row vss (NewResultSet cs)"
  shows "if \<exists>vs\<in>set vss. length vs \<noteq> length cs then Description r formats = None \<and> SendRows r formats = None \<and> Send r = None
    else \<exists>d bodies tag.
      Description r formats = Some (writeTagged CHR ''T'' d) \<and> readDescription d = Some (fieldsOf formats cs) \<and>
      SendRows r formats = Some (concat (map (writeTagged CHR ''D'') bodies) @ writeTagged CHR ''C'' tag) \<and>
      map (readRow (fieldsOf formats cs)) bodies = map (\<lambda>vs. Some (map2 cellOf (fieldsOf formats cs) vs)) vss"
proof (cases "\<exists>vs\<in>set vss. length vs \<noteq> length cs")
  case True
  then have "rsBroken r" using fold_Row [of vss "NewResultSet cs"] assms(2) by (simp add: NewResultSet_def)
  with True show ?thesis by (simp add: Description_def SendRows_def Send_def)
next
  case False
  let ?d = "descriptionFields formats 0 cs (put16 (length cs))"
  let ?body = "\<lambda>vs. appendValues cs formats 0 vs (put16 (length vs))"
  have r: "\<not> rsBroken r" "rsColumns r = cs" "rsRows r = vss"
    using fold_Row [of vss "NewResultSet cs"] assms(2) False by (auto simp: NewResultSet_def filter_id_conv)
  have "Description r formats = Some (writeTagged CHR ''T'' ?d)"
    using r by (simp add: Description_def appendRowDescription_def appendTagged_eq)
  moreover have "readDescription ?d = Some (fieldsOf formats cs)"
    using readFields_columns [of cs formats 0] assms(1) descriptionFields_append [of formats 0 cs "put16 (length cs)"]
    by (simp add: readDescription_def sizedSet_def fieldsOf_def)
  moreover have "SendRows r formats = Some (concat (map (writeTagged CHR ''D'') (map ?body vss)) @
      writeTagged CHR ''C'' (commandTag ''SELECT'' (length vss)))"
    using r by (simp add: SendRows_def appendRows_eq appendTagged_eq comp_def)
  moreover have "map (readRow (fieldsOf formats cs)) (map ?body vss) = map (\<lambda>vs. Some (map2 cellOf (fieldsOf formats cs) vs)) vss"
    using assms(1) False readRow_values [of _ cs formats] by (auto simp: sizedSet_def)
  ultimately show ?thesis using False by (simp only: if_False) blast
qed

theorem result_set_typed_witness:
  "let cs = [TextColumn ''list'', NumericColumn ''items'']; vss = [[''pools'', ''-7''], [''clients'', ''many'']]
   in sizedSet cs vss [0, 1] \<and> map2 cellOf (fieldsOf [0, 1] cs) [''pools'', ''-7''] = [TextCell ''pools'', Int8Cell (-7)] \<and>
      (\<exists>d. Description (fold Row vss (NewResultSet cs)) [0, 1] = Some (writeTagged CHR ''T'' d) \<and>
         readDescription d = Some (fieldsOf [0, 1] cs))"
proof -
  let ?cs = "[TextColumn ''list'', NumericColumn ''items'']" and ?vss = "[[''pools'', ''-7''], [''clients'', ''many'']]"
  have s: "sizedSet ?cs ?vss [0, 1]" by (simp add: sizedSet_def TextColumn_def NumericColumn_def oidText_def oidInt8_def)
  have "map2 cellOf (fieldsOf [0, 1] ?cs) [''pools'', ''-7''] = [TextCell ''pools'', Int8Cell (-7)]"
    by (simp add: fieldsOf_def fieldOf_def cellOf_def requestedFormat_def TextColumn_def NumericColumn_def oidText_def oidInt8_def Atoi_def)
  with result_set_typed [OF s refl] s show ?thesis by (auto simp: TextColumn_def NumericColumn_def)
qed

text \<open>After an error a batch is skipped up to its Sync, which is answered.\<close>

lemma skips_until_sync:
  "pFailed portal \<Longrightarrow> tag \<noteq> CHR ''S'' \<Longrightarrow> dispatch tables portal tag b io = (Inr portal, io)"
  "writable io \<Longrightarrow> dispatch tables portal CHR ''S'' b io =
     (Inr (portal\<lparr>pFailed := False\<rparr>), io\<lparr>outbox := outbox io @ writeTagged CHR ''Z'' ''I''\<rparr>)"
  by (simp_all add: dispatch_def sendOr_def clientWrite_def WriteReadyForQuery_def appendTagged_eq txIdle_def)

text \<open>
  A simple query that fails is answered by an error and then by CommandComplete, which says that it
  succeeded.
\<close>

lemma failure_reported_complete:
  assumes "writable io" "answer tables sql = Inl (sqlstate, message)"
  shows "simpleQuery tables portal sql io = (Inr portal, io\<lparr>outbox := outbox io @ ErrorResponse ''ERROR'' sqlstate message @
     writeTagged CHR ''C'' (''SHOW'' @ [NUL]) @ writeTagged CHR ''Z'' ''I''\<rparr>)"
  using assms by (simp add: simpleQuery_def sendOr_def clientWrite_def WriteCommandComplete_def appendTagged_eq txIdle_def)

text \<open>A Bind whose count of parameter formats is negative stops the process.\<close>

lemma negative_count_panics: "DecodeBindResultFormats [NUL, NUL, CHR 0xFF, CHR 0xFF] = Panics"
proof -
  have "skipNames 2 [NUL, NUL, CHR 0xFF, CHR 0xFF] = Some [CHR 0xFF, CHR 0xFF]" by (simp add: numeral_2_eq_2)
  then show ?thesis by (simp add: DecodeBindResultFormats_def readInt16_def carries_def int16_of_def)
qed

text \<open>An empty statement is answered by EmptyQueryResponse in a simple query and by an empty tag in a portal.\<close>

lemma empty_statement_answers:
  assumes "writable io" "parseCommand sql = ([], [])" "pPrepared portal = None" "pQuery portal = sql"
  shows "snd (simpleQuery tables portal sql io) = io\<lparr>outbox := outbox io @ writeTagged CHR ''I'' [] @ writeTagged CHR ''Z'' ''I''\<rparr>"
    "snd (executePortal tables portal io) = io\<lparr>outbox := outbox io @ writeTagged CHR ''C'' [NUL]\<rparr>"
  using assms by (simp_all add: simpleQuery_def executePortal_def prepare_def answer_def sendOr_def clientWrite_def WriteEmptyQuery_def
      WriteCommandTag_def appendTagged_eq txIdle_def)

end
