(* ===== verification/Registries.thy ===== *)
theory Registries
  imports Tables Startup
begin

text \<open>
  The bookkeeping of what is attached to a proxy: where to send a cancel request
  (\<^verbatim>\<open>server/proxy/cancel_registry.go\<close>), who is connected (\<^verbatim>\<open>session_registry.go\<close>) and the replication
  streams with their budget (\<^verbatim>\<open>server/internal/replication/registry.go\<close>).

  The lemmas show that the stream budget holds whatever is added and removed, that a session listed
  is one that was added and not removed, in the order of arrival, and when a cancel request reaches
  the backend its key came from.
\<close>

section \<open>Cancel requests\<close>

type_synonym cancelRegistry = "(nat \<times> bytes) list"

text \<open>The result of \<^verbatim>\<open>remember\<close> is the handle for \<^verbatim>\<open>forget\<close>, 0 for none.\<close>

definition cancel_remember :: "bytes \<Rightarrow> bytes \<Rightarrow> cancelRegistry \<Rightarrow> nat \<times> cancelRegistry" where
  "cancel_remember backendKey addr r =
     (case BackendKeyProcessID backendKey of
        None \<Rightarrow> (0, r)
      | Some pid \<Rightarrow> if addr = [] then (0, r) else (pid, AList.update pid addr r))"

definition cancel_forget :: "nat \<Rightarrow> cancelRegistry \<Rightarrow> cancelRegistry" where
  "cancel_forget pid r = (if pid = 0 then r else AList.delete pid r)"

definition addrFor :: "nat \<Rightarrow> cancelRegistry \<Rightarrow> bytes option" where "addrFor pid r = map_of r pid"

datatype cancel_outcome = NoCancelKey | UnknownProcess | DialFailed | Delivered bytes bytes

text \<open>\<open>reach\<close> says whether an address can be dialled and written to.\<close>

definition routeCancel :: "(bytes \<Rightarrow> bool) \<Rightarrow> CancelKey option \<Rightarrow> cancelRegistry \<Rightarrow> cancel_outcome" where
  "routeCancel reach key r =
     (case key of
        None \<Rightarrow> NoCancelKey
      | Some k \<Rightarrow> (case addrFor (ProcessID k) r of
          None \<Rightarrow> UnknownProcess
        | Some addr \<Rightarrow> if reach addr then Delivered addr (cancelRaw k) else DialFailed))"

text \<open>What is remembered is found until it is forgotten or the same process id is remembered again.\<close>

lemma cancel_routed:
  assumes "cancel_remember key addr r = (pid, r')" "pid \<noteq> 0" "reach addr" "ProcessID k = pid"
  shows "routeCancel reach (Some k) r' = Delivered addr (cancelRaw k)"
  using assms by (auto simp: cancel_remember_def routeCancel_def addrFor_def update_conv' split: option.splits if_splits)

lemma cancel_kept:
  assumes "ProcessID k \<noteq> pid" "reach addr" "routeCancel reach (Some k) r = Delivered addr packet"
  shows "routeCancel reach (Some k) (cancel_forget pid r) = Delivered addr packet"
    and "BackendKeyProcessID key = Some pid \<Longrightarrow> routeCancel reach (Some k) (snd (cancel_remember key addr' r)) = Delivered addr packet"
  using assms by (auto simp: routeCancel_def cancel_forget_def cancel_remember_def addrFor_def delete_conv' update_conv' split: option.splits)

text \<open>
  Process ids are unique on one backend only.  When two sessions on different backends have the
  same one, the second takes over the first's entry and removes it when it ends.
\<close>

lemma same_pid_lost:
  "let r1 = snd (cancel_remember (put32 7 @ put32 1) ''a:1'' []);
       r2 = snd (cancel_remember (put32 7 @ put32 2) ''b:1'' r1)
   in addrFor 7 r1 = Some ''a:1'' \<and> addrFor 7 r2 = Some ''b:1'' \<and> addrFor 7 (cancel_forget 7 r2) = None"
  by (simp add: cancel_remember_def BackendKeyProcessID_def addrFor_def cancel_forget_def)

section \<open>Sessions\<close>

record sessionInfo =
  sid :: nat
  sUser :: bytes
  sDatabase :: bytes
  sAddr :: bytes
  since :: int

record sessionRegistry =
  sessions :: "(nat \<times> sessionInfo) list"
  nextID :: nat

definition newSessionRegistry :: sessionRegistry where "newSessionRegistry = \<lparr>sessions = [], nextID = 0\<rparr>"

text \<open>The 64-bit counter does not come round in the life of a process.\<close>

definition sessions_add :: "bytes \<Rightarrow> bytes \<Rightarrow> bytes \<Rightarrow> int \<Rightarrow> sessionRegistry \<Rightarrow> nat \<times> sessionRegistry" where
  "sessions_add user database addr now r =
     (let i = nextID r + 1 in
      (i, r\<lparr>nextID := i, sessions := AList.update i \<lparr>sid = i, sUser = user, sDatabase = database, sAddr = addr, since = now\<rparr> (sessions r)\<rparr>))"

definition sessions_remove :: "nat \<Rightarrow> sessionRegistry \<Rightarrow> sessionRegistry" where
  "sessions_remove i r = r\<lparr>sessions := AList.delete i (sessions r)\<rparr>"

definition sessions_list :: "sessionRegistry \<Rightarrow> sessionInfo list" where
  "sessions_list r = sort_key sid (map snd (sessions r))"

definition sessions_count :: "sessionRegistry \<Rightarrow> nat" where "sessions_count r = length (sessions r)"

definition sessions_ok :: "sessionRegistry \<Rightarrow> bool" where
  "sessions_ok r \<longleftrightarrow> distinct (map fst (sessions r)) \<and> (\<forall>(i, s)\<in>set (sessions r). sid s = i \<and> i \<le> nextID r)"

lemma sessions_ok_keeps:
  "sessions_ok newSessionRegistry" "sessions_ok r \<Longrightarrow> sessions_ok (snd (sessions_add u d a t r))"
  "sessions_ok r \<Longrightarrow> sessions_ok (sessions_remove i r)"
  using set_update_subset [of "nextID r + 1" "\<lparr>sid = nextID r + 1, sUser = u, sDatabase = d, sAddr = a, since = t\<rparr>" "sessions r"]
  by (fastforce simp: sessions_ok_def newSessionRegistry_def sessions_add_def sessions_remove_def Let_def distinct_update AList.delete_eq distinct_map_filter)+

lemma sessions_list_exact:
  assumes "sessions_ok r"
  shows "sorted_wrt (<) (map sid (sessions_list r))" "length (sessions_list r) = sessions_count r"
    "s \<in> set (sessions_list r) \<longleftrightarrow> map_of (sessions r) (sid s) = Some s"
proof -
  let ?ss = "map snd (sessions r)"
  have "map sid ?ss = map fst (sessions r)" using assms by (auto simp: sessions_ok_def)
  then have "distinct (map sid ?ss)" using assms unfolding sessions_ok_def by metis
  then have "distinct ?ss" "inj_on sid (set ?ss)" by (simp_all only: distinct_map [of sid ?ss])
  then have "distinct (map sid (sort_key sid ?ss))" by (simp only: distinct_map [of sid] distinct_sort set_sort)
  then show "sorted_wrt (<) (map sid (sessions_list r))" by (simp add: sessions_list_def strict_sorted_iff)
  show "length (sessions_list r) = sessions_count r" by (simp add: sessions_list_def sessions_count_def)
  show "s \<in> set (sessions_list r) \<longleftrightarrow> map_of (sessions r) (sid s) = Some s"
  proof
    assume "s \<in> set (sessions_list r)"
    then obtain i where i: "(i, s) \<in> set (sessions r)" by (auto simp: sessions_list_def)
    then have "sid s = i" using assms by (auto simp: sessions_ok_def)
    with i assms show "map_of (sessions r) (sid s) = Some s" by (simp add: sessions_ok_def)
  next
    assume "map_of (sessions r) (sid s) = Some s"
    then have "(sid s, s) \<in> set (sessions r)" by (rule map_of_SomeD)
    then show "s \<in> set (sessions_list r)" by (force simp: sessions_list_def)
  qed
qed

section \<open>Replication streams\<close>

record Stream =
  strID :: bytes
  strBackend :: bytes

record Registry =
  streams :: "(bytes \<times> Stream) list"
  budget :: int

definition NewRegistry :: "int \<Rightarrow> Registry" where "NewRegistry n = \<lparr>streams = [], budget = n\<rparr>"

definition SetBudget :: "int \<Rightarrow> Registry \<Rightarrow> Registry" where "SetBudget n r = r\<lparr>budget := n\<rparr>"

definition Used :: "Registry \<Rightarrow> nat" where "Used r = length (streams r)"

definition streams_Add :: "Stream option \<Rightarrow> Registry \<Rightarrow> bool \<times> Registry" where
  "streams_Add so r =
     (case so of
        None \<Rightarrow> (False, r)
      | Some s \<Rightarrow>
          if strID s = [] then (False, r)
          else if map_of (streams r) (strID s) = None \<and> int (length (streams r)) \<ge> budget r then (False, r)
          else (True, r\<lparr>streams := AList.update (strID s) s (streams r)\<rparr>))"

definition streams_Remove :: "bytes \<Rightarrow> Registry \<Rightarrow> Registry" where
  "streams_Remove i r = r\<lparr>streams := AList.delete i (streams r)\<rparr>"

definition CountFor :: "bytes \<Rightarrow> Registry \<Rightarrow> nat" where
  "CountFor addr r = length (filter (\<lambda>(_, s). strBackend s = addr) (streams r))"

definition streams_ok :: "Registry \<Rightarrow> bool" where
  "streams_ok r \<longleftrightarrow> table_ok (nat (budget r)) (\<lambda>_. True) (streams r)"

text \<open>The budget holds, and only a new consumer is refused for it.\<close>

lemma streams_within_budget:
  assumes "streams_ok r"
  shows "streams_ok (snd (streams_Add so r))" "streams_ok (streams_Remove i r)"
    "so = Some s \<Longrightarrow> strID s \<noteq> [] \<Longrightarrow> fst (streams_Add so r) \<longleftrightarrow> map_of (streams r) (strID s) \<noteq> None \<or> int (Used r) < budget r"
proof -
  show "streams_ok (snd (streams_Add so r))"
    using assms table_ok_update [of "nat (budget r)" "\<lambda>_. True" "streams r"]
    by (auto simp: streams_ok_def streams_Add_def nat_le_iff split: option.split)
  show "streams_ok (streams_Remove i r)" using assms table_ok_delete by (simp add: streams_ok_def streams_Remove_def)
  show "fst (streams_Add so r) \<longleftrightarrow> map_of (streams r) (strID s) \<noteq> None \<or> int (Used r) < budget r"
    if "so = Some s" "strID s \<noteq> []" using that by (auto simp: streams_Add_def Used_def)
qed

end
