(* ===== verification/Spec2Isabelle.thy ===== *)
theory Spec2Isabelle
  imports RequestReader Sharing Failover Orchestration Console Registries
begin

text \<open>
  A verification of Pontus, a connection pooler and load balancer for PostgreSQL written in Go.

  \<^bold>\<open>The program.\<close>  Clients connect to the proxy (\<^verbatim>\<open>server/proxy\<close>), which speaks PostgreSQL's wire protocol
  (\<^verbatim>\<open>server/internal/protocol\<close>) with them and with the database servers.  A session is opened by reading a
  startup packet, authenticating the client (\<^verbatim>\<open>server/internal/credentials\<close>) and finding a backend
  connection in a pool (\<^verbatim>\<open>server/internal/pool\<close>) on a server the balancer chose
  (\<^verbatim>\<open>server/internal/balancer\<close>).  Each request then passes a middleware chain (\<^verbatim>\<open>server/proxy/middleware\<close>:
  rate limit, result cache), gets a connection unless the session holds one, is forwarded, and its
  reply is relayed until it is complete; under transaction pooling the connection goes back to the
  pool when the session is idle and nothing ties it to the connection.  When the primary is lost,
  writers wait, and the failover manager (\<^verbatim>\<open>server/internal/orchestration\<close>) promotes a replica.  All paths
  below are relative to \<^verbatim>\<open>src/\<close>.

  \<^bold>\<open>Conventions.\<close>  A Go byte is a \<^typ>\<open>char\<close>, strings and byte slices are char lists, Go maps are association lists
  with distinct keys, structs are records, enumerations are datatypes, errors are values.  Ranging over
  a map takes an order that is an argument.  A connection is the list of what its reads return, or
  the bytes the peer will send with the bytes sent to it.  Clock readings, random bytes, hash functions,
  TLS, the pooling engine (gpool), the token bucket (x/time/rate), Unicode's tables beyond Latin-1 and the
  answers of remote agents are arguments.  Machine integers are kept where they wrap: lengths written
  to the wire are taken modulo their width, the round-robin counter and the CRC are words.
  Loops are structural recursion or functions with a termination proof; the loops that poll or
  read until something happens recurse on the list of what they will observe, and where that list ends
  first the result says that the loop is still waiting.  No fuel is used.

  \<^bold>\<open>Foundations.\<close>
  \<^item> \<open>Prelude\<close>: integers on the wire, reading exactly \<open>n\<close> bytes, and the locale of a stream codec (a reader that
    takes back what a writer sends and accepts nothing else), with the lemmas about sequences of messages.
  \<^item> \<open>GoText\<close>, \<open>GoCodec\<close>, \<open>Tables\<close>: the string functions and encodings of Go's library the code uses; bounded maps.

  \<^bold>\<open>Protocol\<close> (\<^verbatim>\<open>server/internal/protocol\<close>).
  \<^item> \<open>Wire\<close> (\<^verbatim>\<open>message_framer.go\<close>, \<^verbatim>\<open>sasl.go\<close>, \<^verbatim>\<open>error_*.go\<close>, \<^verbatim>\<open>command_reader.go\<close>): framing; readers and writers are
    inverse, lengths a peer chose are bounded.
  \<^item> \<open>ReplyScanner\<close> (\<^verbatim>\<open>reply_scanner.go\<close>, \<^verbatim>\<open>await_reply.go\<close>, \<^verbatim>\<open>transaction_state.go\<close>): where a reply ends, over any division
    into reads.
  \<^item> \<open>Startup\<close> (\<^verbatim>\<open>postgres_startup.go\<close>, \<^verbatim>\<open>startup_rewrite.go\<close>, \<^verbatim>\<open>client_tls.go\<close>, \<^verbatim>\<open>cancel_key.go\<close>): opening a session and
    relaying its authentication.
  \<^item> \<open>Credentials\<close>, \<open>Authentication\<close> (\<^verbatim>\<open>server/internal/credentials\<close>, \<^verbatim>\<open>client_auth.go\<close>, \<^verbatim>\<open>backend_auth.go\<close>): SCRAM, MD5
    and cleartext on both sides; an accepted client proved the key of its verifier, and that key opens
    every backend with the same verifier.
  \<^item> \<open>PinDetect\<close>, \<open>Session\<close>, \<open>Tokenizer\<close>, \<open>Probes\<close> (\<^verbatim>\<open>pin_*.go\<close>, \<^verbatim>\<open>session_state.go\<close>, \<^verbatim>\<open>set_statement.go\<close>, \<^verbatim>\<open>tokenizer.go\<close> and
    their methods of \<^verbatim>\<open>postgres_handler.go\<close>): what ties a session to a connection, what is tracked
    and replayed on another one, how a statement is classified, and the statements Pontus runs itself.
  \<^item> \<open>Console\<close> (\<^verbatim>\<open>result_set.go\<close>, \<^verbatim>\<open>server/proxy/admin_console.go\<close>, \<^verbatim>\<open>pkg/config/admin_console.go\<close>): the administration
    console; rows carry exactly what their description declares.

  \<^bold>\<open>Pools and balancing.\<close>
  \<^item> \<open>CircuitBreaker\<close> (\<^verbatim>\<open>server/internal/health/circuit_breaker.go\<close>): its answers refine a specification over the history
    of questions and outcomes.
  \<^item> \<open>Pool\<close> (\<^verbatim>\<open>server/internal/pool\<close>): connections and their flags, the bounded map of pools per identity, draining.
  \<^item> \<open>Balancer\<close> (\<^verbatim>\<open>server/internal/balancer\<close>): the locale \<open>balancing\<close> states what every strategy owes the filter by
    role, health and lag, and is interpreted for all six; fairness of round robin, stability of
    consistent hashing.  Floating-point cost is read as exact rational arithmetic.

  \<^bold>\<open>Gateway\<close> (\<^verbatim>\<open>server/proxy\<close>).
  \<^item> \<open>RequestReader\<close>, \<open>Relay\<close> (\<^verbatim>\<open>gateway.go\<close>, \<^verbatim>\<open>copy_in.go\<close>, \<^verbatim>\<open>response_capture.go\<close>, \<^verbatim>\<open>pooling_mode.go\<close>): whole requests in, whole
    replies out, byte for byte, and when a connection may be released.
  \<^item> \<open>Gateway\<close> (\<^verbatim>\<open>open_session.go\<close>, \<^verbatim>\<open>client_auth.go\<close>, \<^verbatim>\<open>session_acquire.go\<close>, \<^verbatim>\<open>pkg/config/database.go\<close>): a step relation with any
    number of sessions, connections and pools; a session only speaks on sockets opened in its own name.
  \<^item> \<open>ResultCache\<close>, \<open>Middleware\<close>, \<open>RateLimit\<close> (\<^verbatim>\<open>server/internal/cache\<close>, \<^verbatim>\<open>middleware/*.go\<close>): the store as a refinement of a
    map, the cache key, the chain and the limiters.
  \<^item> \<open>Serving\<close>, \<open>Sharing\<close> (\<^verbatim>\<open>executeRequest\<close>, \<^verbatim>\<open>handleClient\<close>): the life of a session through the chain.  The locale
    \<open>request_layer\<close> states what a layer of the chain must keep, and is interpreted for the cache and the
    limiter; every connection taken is given back, once, and marked for reset; collapsed requests get the
    leader's reply.
  \<^item> \<open>Failover\<close> (\<^verbatim>\<open>waitWhilePaused\<close>, \<^verbatim>\<open>acquire\<close>, \<^verbatim>\<open>drain\<close>): a step relation of writers, their watchers and the
    goroutines that end a failover, with the lock they share; no wakeup is lost.  \<^verbatim>\<open>acquire\<close> makes three
    attempts over the balancer and the pools.
  \<^item> \<open>Registries\<close> (\<^verbatim>\<open>cancel_registry.go\<close>, \<^verbatim>\<open>session_registry.go\<close>, \<^verbatim>\<open>server/internal/replication/registry.go\<close>).

  \<^bold>\<open>Orchestration\<close> (\<^verbatim>\<open>server/internal/orchestration\<close>).
  \<^item> \<open>Orchestration\<close>: the monitor, promotion, split brain, following and rejoining.  Ticks, failovers asked for by the
    data plane and verifications interleave in a step relation.

  \<^bold>\<open>What the lemmas do not show.\<close>  Where the code does not do what it means to, the theory that models it has a
  lemma that exhibits the case (for example \<open>flush_reply_cut\<close>, \<open>early_failure_answers_followers\<close>,
  \<open>two_promotions_at_once\<close>, \<open>first_reachable_promoted\<close>, \<open>negative_count_panics\<close>), and the positive theorem
  says under which condition the property holds.

  \<^bold>\<open>Not modelled.\<close>  The MySQL handler (\<^verbatim>\<open>mysql_handler.go\<close>), a second protocol no other component needs.  The watcher of
  idle LISTEN sessions (\<^verbatim>\<open>async_watcher.go\<close>) and replication passthrough (\<^verbatim>\<open>proxy/replication.go\<close>), which are copying
  loops driven by socket deadlines.  The periodic probes and statistics of a backend (\<^verbatim>\<open>pool/server.go\<close> beyond
  acquire, release and role, \<^verbatim>\<open>reattach.go\<close>, \<^verbatim>\<open>health/monitor.go\<close>) and the floating-point controller of the pool
  size (\<^verbatim>\<open>controller.go\<close>): what they publish is an input of the balancer and the failover manager.
  Consensus (\<^verbatim>\<open>consensus\<close>, \<^verbatim>\<open>raft.go\<close>), a shell around a Raft library.  The tables of the console that report live
  state.  The management service, its stores and the web dashboard, the agent, which runs commands of the
  operating system, generated code, configuration files, logging, metrics, tracing and process start:
  they are input and output around the components above and change their state only through
  the operations modelled here.
\<close>

end
